(* ===== verification/Prelude.thy ===== *)
theory Prelude
  imports Main "HOL-Library.Word"
begin

text \<open>
  Shared vocabulary of the development: byte strings, the exceptions of the code as one error
  type, programs over an explicit state that may throw, little-endian integer images, decimal
  output, and the interface of a self-delimiting byte encoding.  Every other theory imports it.
\<close>

named_theorems prog_simps \<open>unfolding rules for throwing programs\<close>
named_theorems codec_simps \<open>encode and decode facts\<close>

section \<open>Basic types\<close>

text \<open>A C++ \<open>char\<close> is one byte, and so is Isabelle's; \<open>std::string\<close> is a list of them.
  \<open>std::size_t\<close> is 64 bits wide on the targets of the project.\<close>

type_synonym bytes = string
type_synonym size_t = "64 word"

text \<open>
  The exceptions.  The first group are the classes derived from \<open>DropFileBaseException\<close>, with
  the text their \<open>what()\<close> returns; then the exceptions of the libraries, and two outcomes that
  are not exceptions at all: undefined behaviour and an arithmetic trap.
\<close>

datatype error =
    InitSessionMessageException string
  | SocketException string
  | SessionsManagerException string
  | ServerSideClientSessionException string
  | UtilsException string
  | FSEntryInfoException string
  | ArchiveManagerException string
  | ZSTDException string
  | ClientArgParserException string
  | DropFileSendException string
  | DropFileReceiveException string
  | System_error string
  | Json_exception string
  | Filesystem_error string
  | Runtime_error string
  | Logic_error string
  | Out_of_range
  | Undefined_behaviour string
  | Division_trap

text \<open>\<open>catch (const DropFileBaseException&)\<close> selects exactly these.\<close>

fun is_DropFileBaseException :: "error \<Rightarrow> bool" where
  "is_DropFileBaseException (InitSessionMessageException _) = True"
| "is_DropFileBaseException (SocketException _) = True"
| "is_DropFileBaseException (SessionsManagerException _) = True"
| "is_DropFileBaseException (ServerSideClientSessionException _) = True"
| "is_DropFileBaseException (UtilsException _) = True"
| "is_DropFileBaseException (FSEntryInfoException _) = True"
| "is_DropFileBaseException (ArchiveManagerException _) = True"
| "is_DropFileBaseException (ZSTDException _) = True"
| "is_DropFileBaseException (ClientArgParserException _) = True"
| "is_DropFileBaseException (DropFileSendException _) = True"
| "is_DropFileBaseException (DropFileReceiveException _) = True"
| "is_DropFileBaseException _ = False"

fun what :: "error \<Rightarrow> string" where
  "what (InitSessionMessageException m) = m"
| "what (SocketException m) = m"
| "what (SessionsManagerException m) = m"
| "what (ServerSideClientSessionException m) = m"
| "what (UtilsException m) = m"
| "what (FSEntryInfoException m) = m"
| "what (ArchiveManagerException m) = m"
| "what (ZSTDException m) = m"
| "what (ClientArgParserException m) = m"
| "what (DropFileSendException m) = m"
| "what (DropFileReceiveException m) = m"
| "what (System_error m) = m"
| "what (Json_exception m) = m"
| "what (Filesystem_error m) = m"
| "what (Runtime_error m) = m"
| "what (Logic_error m) = m"
| "what Out_of_range = ''out_of_range''"
| "what (Undefined_behaviour m) = m"
| "what Division_trap = ''division by zero''"

text \<open>
  Undefined behaviour and a trap are no exceptions: nothing catches them and no destructor runs.  \<open>unwind\<close>
  is what a scope's destructor does on an error, \<open>leave\<close> what it does when the scope is left at all.
\<close>

fun killed :: "error \<Rightarrow> bool" where
  "killed (Undefined_behaviour m) = True"
| "killed Division_trap = True"
| "killed e = False"

definition unwind :: "error \<Rightarrow> ('s \<Rightarrow> 's) \<Rightarrow> 's \<Rightarrow> 's" where
  "unwind e destroy s = (if killed e then s else destroy s)"

definition leave :: "error + 'a \<Rightarrow> ('s \<Rightarrow> 's) \<Rightarrow> 's \<Rightarrow> 's" where
  "leave r destroy s = (case r of Inl e \<Rightarrow> unwind e destroy s | Inr _ \<Rightarrow> destroy s)"

lemma unwind_simps [simp]: "\<not> killed e \<Longrightarrow> unwind e f s = f s" "killed e \<Longrightarrow> unwind e f s = s"
  by (simp_all add: unwind_def)

lemma leave_simps [simp]: "leave (Inr x) f s = f s" "leave (Inl e) f s = unwind e f s"
  by (simp_all add: leave_def)

lemma leave_alive: "\<forall>e. r = Inl e \<longrightarrow> \<not> killed e \<Longrightarrow> leave r f s = f s"
  by (cases r) simp_all

lemma leave_id: "(\<And>s. f s = s) \<Longrightarrow> leave r f s = s"
  by (simp add: leave_def unwind_def split: sum.split)

lemma is_DropFileBaseException_alive: "is_DropFileBaseException e \<Longrightarrow> \<not> killed e"
  by (cases e) simp_all

section \<open>Programs over a state that may throw\<close>

text \<open>A statement reads and changes a state and returns a value or throws; the changes made
  before a throw stay, as in the code.\<close>

type_synonym ('s, 'a) prog = "'s \<Rightarrow> (error + 'a) \<times> 's"

definition ret :: "'a \<Rightarrow> ('s, 'a) prog" where
  "ret x = (\<lambda>s. (Inr x, s))"

definition throw :: "error \<Rightarrow> ('s, 'a) prog" where
  "throw e = (\<lambda>s. (Inl e, s))"

definition andthen :: "('s, 'a) prog \<Rightarrow> ('a \<Rightarrow> ('s, 'b) prog) \<Rightarrow> ('s, 'b) prog" where
  "andthen m f = (\<lambda>s. case m s of (Inl e, s') \<Rightarrow> (Inl e, s') | (Inr x, s') \<Rightarrow> f x s')"

definition try_catch :: "('s, 'a) prog \<Rightarrow> (error \<Rightarrow> ('s, 'a) prog) \<Rightarrow> ('s, 'a) prog" where
  "try_catch m h = (\<lambda>s. case m s of (Inl e, s') \<Rightarrow> h e s' | (Inr x, s') \<Rightarrow> (Inr x, s'))"

definition of_sum :: "error + 'a \<Rightarrow> ('s, 'a) prog" where
  "of_sum r = (\<lambda>s. (r, s))"

definition of_option :: "error \<Rightarrow> 'a option \<Rightarrow> ('s, 'a) prog" where
  "of_option e v = (case v of None \<Rightarrow> throw e | Some x \<Rightarrow> ret x)"

text \<open>The same for code that throws without touching the state.\<close>

definition sum_bind :: "error + 'a \<Rightarrow> ('a \<Rightarrow> error + 'b) \<Rightarrow> error + 'b" where
  "sum_bind r f = (case r of Inl e \<Rightarrow> Inl e | Inr x \<Rightarrow> f x)"

lemma sum_bind_simps [simp]: "sum_bind (Inl e) f = Inl e" "sum_bind (Inr x) f = f x"
  by (simp_all add: sum_bind_def)

lemma sum_bind_Inr_iff: "sum_bind r f = Inr y \<longleftrightarrow> (\<exists>x. r = Inr x \<and> f x = Inr y)"
  by (cases r) auto

lemma sum_bind_Inl_iff: "sum_bind r f = Inl e \<longleftrightarrow> r = Inl e \<or> (\<exists>x. r = Inr x \<and> f x = Inl e)"
  by (cases r) auto

lemma ret_apply [simp, prog_simps]: "ret x s = (Inr x, s)"
  by (simp add: ret_def)

lemma throw_apply [simp, prog_simps]: "throw e s = (Inl e, s)"
  by (simp add: throw_def)

lemma of_sum_apply [simp, prog_simps]: "of_sum r s = (r, s)"
  by (simp add: of_sum_def)

lemma of_option_apply [simp, prog_simps]:
  "of_option e None s = (Inl e, s)" "of_option e (Some x) s = (Inr x, s)"
  by (simp_all add: of_option_def)

lemma andthen_Inr [prog_simps]: "m s = (Inr x, s') \<Longrightarrow> andthen m f s = f x s'"
  by (simp add: andthen_def)

lemma andthen_Inl [prog_simps]: "m s = (Inl e, s') \<Longrightarrow> andthen m f s = (Inl e, s')"
  by (simp add: andthen_def)

lemma try_catch_Inr [prog_simps]: "m s = (Inr x, s') \<Longrightarrow> try_catch m h s = (Inr x, s')"
  by (simp add: try_catch_def)

lemma try_catch_Inl [prog_simps]: "m s = (Inl e, s') \<Longrightarrow> try_catch m h s = h e s'"
  by (simp add: try_catch_def)

lemma andthen_InrE:
  assumes "andthen m f s = (Inr y, s'')"
  obtains x s' where "m s = (Inr x, s')" and "f x s' = (Inr y, s'')"
  using assms by (auto simp: andthen_def split: prod.splits sum.splits)

lemma andthen_cases:
  assumes "andthen m f s = (r, s'')"
  obtains (error) e where "m s = (Inl e, s'')" and "r = Inl e"
    | (ok) x s' where "m s = (Inr x, s')" and "f x s' = (r, s'')"
  using assms by (auto simp: andthen_def split: prod.splits sum.splits)

lemma andthen_ret [simp]: "andthen m ret = m"
  by (rule ext) (auto simp: andthen_def split: prod.splits sum.splits)

lemma andthen_assoc: "andthen (andthen m f) g = andthen m (\<lambda>x. andthen (f x) g)"
  by (rule ext) (auto simp: andthen_def split: prod.splits sum.splits)

text \<open>A function of the state that no step changes is not changed by a sequence of steps.\<close>

lemma andthen_preserves:
  assumes "\<And>s. f (snd (m s)) = f s" and "\<And>x s. f (snd (k x s)) = f s"
  shows "f (snd (andthen m k s)) = f s"
  using assms by (auto simp: andthen_def split: prod.splits sum.splits) (metis snd_conv)+

section \<open>Integer images\<close>

text \<open>\<open>std::bit_cast<char*>(&n)\<close> of an unsigned integer on a little-endian machine.\<close>

fun le_bytes :: "nat \<Rightarrow> nat \<Rightarrow> bytes" where
  "le_bytes 0 n = []"
| "le_bytes (Suc k) n = char_of (n mod 256) # le_bytes k (n div 256)"

fun le_val :: "bytes \<Rightarrow> nat" where
  "le_val [] = 0"
| "le_val (c # cs) = of_char c + 256 * le_val cs"

definition size_bytes :: "size_t \<Rightarrow> bytes" where
  "size_bytes n = le_bytes 8 (unat n)"

definition bytes_size :: "bytes \<Rightarrow> size_t" where
  "bytes_size bs = of_nat (le_val bs)"

lemma length_le_bytes [simp]: "length (le_bytes k n) = k"
  by (induction k n rule: le_bytes.induct) auto

lemma le_val_le_bytes: "le_val (le_bytes k n) = n mod 256 ^ k"
proof (induction k n rule: le_bytes.induct)
  case (1 n)
  then show ?case by simp
next
  case (2 k n)
  then show ?case
    by (simp add: of_char_of mod_mult2_eq add.commute)
qed

lemma of_char_bound: "of_char c < (256 :: nat)"
  by (metis of_char_mod_256 mod_less_divisor zero_less_numeral)

lemma le_val_bound: "le_val bs < 256 ^ length bs"
proof (induction bs)
  case Nil
  then show ?case by simp
next
  case (Cons c cs)
  have "of_char c + 256 * le_val cs < 256 * (le_val cs + 1)" using of_char_bound [of c] by simp
  also have "\<dots> \<le> 256 * 256 ^ length cs" using Cons by (intro mult_left_mono) auto
  finally show ?case by simp
qed

lemma le_bytes_le_val: "le_bytes (length bs) (le_val bs) = bs"
proof (induction bs)
  case Nil
  then show ?case by simp
next
  case (Cons c cs)
  have "of_char c < (256 :: nat)" by (rule of_char_bound)
  with Cons show ?case by simp
qed

lemma length_size_bytes [simp]: "length (size_bytes n) = 8"
  by (simp add: size_bytes_def)

lemma bytes_size_bytes [simp, codec_simps]: "bytes_size (size_bytes n) = n"
proof -
  have "unat n < 2 ^ 64" using unsigned_less [of n, where ?'a = nat] by simp
  then show ?thesis by (simp add: bytes_size_def size_bytes_def le_val_le_bytes)
qed

lemma size_bytes_size [codec_simps]: "length bs = 8 \<Longrightarrow> size_bytes (bytes_size bs) = bs"
proof -
  assume l: "length bs = 8"
  then have "le_val bs < 256 ^ 8" using le_val_bound [of bs] by simp
  then have "unat (bytes_size bs) = le_val bs"
    by (simp add: bytes_size_def unat_of_nat take_bit_eq_mod)
  then show ?thesis using le_bytes_le_val [of bs] l by (simp add: size_bytes_def)
qed

lemma size_bytes_inject [simp]: "size_bytes m = size_bytes n \<longleftrightarrow> m = n"
  by (metis bytes_size_bytes)

lemma unat_of_nat_size: "n < 2 ^ 64 \<Longrightarrow> unat (of_nat n :: size_t) = n"
  by (simp add: unat_of_nat take_bit_eq_mod)

section \<open>Decimal output\<close>

text \<open>\<open>fmt::format("{}", n)\<close> of an unsigned integer.\<close>

fun show_nat :: "nat \<Rightarrow> string" where
  "show_nat n = (if n < 10 then [char_of (48 + n)] else show_nat (n div 10) @ [char_of (48 + n mod 10)])"

declare show_nat.simps [simp del]

lemma show_nat_digits: "c \<in> set (show_nat n) \<Longrightarrow> 48 \<le> (of_char c :: nat) \<and> (of_char c :: nat) < 58"
proof (induction n rule: show_nat.induct)
  case (1 n)
  show ?case
  proof (cases "n < 10")
    case True
    with "1.prems" have "c = char_of (48 + n)" by (simp add: show_nat.simps [of n])
    with True show ?thesis by (simp add: of_char_of)
  next
    case False
    with "1.prems" have "c \<in> set (show_nat (n div 10)) \<or> c = char_of (48 + n mod 10)"
      by (auto simp: show_nat.simps [of n])
    then show ?thesis using "1.IH" [OF False] by (auto simp: of_char_of)
  qed
qed

lemma show_nat_nonempty [simp]: "show_nat n \<noteq> []"
  by (simp add: show_nat.simps [of n])

lemma show_nat_length: "n < 10 ^ k \<Longrightarrow> 0 < k \<Longrightarrow> length (show_nat n) \<le> k"
proof (induction n arbitrary: k rule: show_nat.induct)
  case (1 n)
  show ?case
  proof (cases "n < 10")
    case True
    then show ?thesis using "1.prems" by (simp add: show_nat.simps [of n])
  next
    case False
    from "1.prems" obtain j where k: "k = Suc j" by (cases k) auto
    have "0 < j" using False "1.prems" k by (cases j) auto
    moreover have "n div 10 < 10 ^ j" using "1.prems" k by (simp add: less_mult_imp_div_less mult.commute)
    ultimately have "length (show_nat (n div 10)) \<le> j" using "1.IH" False by blast
    with False k show ?thesis by (simp add: show_nat.simps [of n])
  qed
qed

lemma show_nat_size_length: "length (show_nat (unat (n :: size_t))) \<le> 20"
proof (rule show_nat_length)
  have "unat n < 2 ^ 64" using unsigned_less [of n, where ?'a = nat] by simp
  then show "unat n < 10 ^ 20" by simp
qed simp

fun nat_of_digits :: "nat \<Rightarrow> string \<Rightarrow> nat" where
  "nat_of_digits a [] = a"
| "nat_of_digits a (c # cs) = nat_of_digits (10 * a + (of_char c - 48)) cs"

lemma nat_of_digits_append:
  "nat_of_digits a (xs @ [c]) = 10 * nat_of_digits a xs + (of_char c - 48)"
  by (induction a xs rule: nat_of_digits.induct) auto

lemma nat_of_digits_show_nat: "nat_of_digits 0 (show_nat n) = n"
proof (induction n rule: show_nat.induct)
  case (1 n)
  show ?case
  proof (cases "n < 10")
    case True
    then show ?thesis by (simp add: show_nat.simps [of n] of_char_of)
  next
    case False
    with "1.IH" show ?thesis
      by (simp add: show_nat.simps [of n] nat_of_digits_append of_char_of)
  qed
qed

lemma show_nat_inject: "show_nat m = show_nat n \<Longrightarrow> m = n"
  by (metis nat_of_digits_show_nat)

section \<open>Self-delimiting encodings\<close>

text \<open>
  Two parts of the code write values one after the other into a byte stream and read them back:
  the messages of a socket and the headers of an archive.  What they share is that decoding an
  encoding gives the value and exactly the bytes that follow it.
\<close>

locale byte_codec =
  fixes enc :: "'a \<Rightarrow> bytes"
    and dec :: "bytes \<Rightarrow> (error + 'a) \<times> bytes"
    and valid :: "'a \<Rightarrow> bool"
  assumes dec_enc: "valid a \<Longrightarrow> dec (enc a @ rest) = (Inr a, rest)"
begin

lemma enc_unambiguous:
  assumes "valid a" and "valid b" and "enc a @ r = enc b @ s"
  shows "a = b \<and> r = s"
  using assms dec_enc by (metis Inr_inject prod.inject)

lemma enc_prefix_free:
  assumes "valid a" and "valid b" and "enc a @ r = enc b"
  shows "a = b \<and> r = []"
  using enc_unambiguous [of a b r "[]"] assms by simp

end

locale framed_codec = byte_codec +
  assumes enc_nonempty: "enc a \<noteq> []"
begin

text \<open>A sequence of encodings can be cut in one way only.\<close>

lemma concat_enc_inject:
  assumes "list_all valid xs" and "list_all valid ys"
    and "concat (map enc xs) = concat (map enc ys)"
  shows "xs = ys"
  using assms
proof (induction xs arbitrary: ys)
  case Nil
  then show ?case using enc_nonempty by (cases ys) auto
next
  case (Cons x xs)
  from Cons.prems(3) have "ys \<noteq> []" using enc_nonempty [of x] by (intro notI) simp
  then obtain y zs where ys: "ys = y # zs"
    by (cases ys) auto
  with Cons.prems have "enc x @ concat (map enc xs) = enc y @ concat (map enc zs)"
    by simp
  with Cons.prems ys have "x = y \<and> concat (map enc xs) = concat (map enc zs)"
    by (intro enc_unambiguous) auto
  with Cons ys show ?case by simp
qed

end

section \<open>List facts\<close>

lemma length_concat_sum: "length (concat xs) = sum_list (map length xs)"
  by (induction xs) auto

end
