(* ===== verification/SocketBase.thy ===== *)
theory SocketBase
  imports Prelude
begin

text \<open>
  \<open>src/SocketBase.cpp\<close>: length-prefixed messages over a TLS byte stream, sending in chunks of at
  most \<open>BUFFER_SIZE\<close> bytes, receiving into a string or into the socket's buffer, the asynchronous
  first read, acknowledgements and disconnection.

  A socket holds the bytes its peer delivers before it closes (\<open>rx\<close>), the bytes written so far
  (\<open>tx\<close>) and whether the sending side is still open.  A blocking read of \<open>n\<close> bytes returns the
  next \<open>n\<close> bytes, or fails with the end-of-file error when the peer delivers fewer.  Writing can
  fail at any byte: \<open>tx_quota\<close> is the number of bytes the connection still carries before it
  breaks, \<open>None\<close> if it does not break.
\<close>

section \<open>The stream below the messages\<close>

record socket =
  rx :: bytes
  tx :: bytes
  tx_open :: bool
  tx_quota :: "nat option"
  data_buffer :: bytes

definition asio_write :: "bytes \<Rightarrow> (socket, unit) prog" where
  "asio_write d s =
     (if \<not> tx_open s then (Inl (System_error ''shut down''), s)
      else case tx_quota s of
        None \<Rightarrow> (Inr (), s\<lparr>tx := tx s @ d\<rparr>)
      | Some q \<Rightarrow>
          if length d \<le> q then (Inr (), s\<lparr>tx := tx s @ d, tx_quota := Some (q - length d)\<rparr>)
          else (Inl (System_error ''Broken pipe''), s\<lparr>tx := tx s @ take q d, tx_quota := Some 0\<rparr>))"

definition asio_read :: "nat \<Rightarrow> (socket, bytes) prog" where
  "asio_read n s =
     (if n \<le> length (rx s) then (Inr (take n (rx s)), s\<lparr>rx := drop n (rx s)\<rparr>)
      else (Inl (System_error ''End of file''), s\<lparr>rx := []\<rparr>))"

text \<open>Reading into the front of \<open>data_buffer\<close>; what arrives before an error is in the buffer.\<close>

definition overwrite :: "bytes \<Rightarrow> bytes \<Rightarrow> bytes" where
  "overwrite d buf = d @ drop (length d) buf"

definition asio_read_to_buffer :: "nat \<Rightarrow> (socket, unit) prog" where
  "asio_read_to_buffer n s =
     (let got = take n (rx s); s' = s\<lparr>rx := drop n (rx s), data_buffer := overwrite got (data_buffer s)\<rparr>
      in if n \<le> length (rx s) then (Inr (), s') else (Inl (System_error ''End of file''), s'))"

text \<open>\<open>shutdown(shutdown_send)\<close>; a connection that has broken is not connected any more.\<close>

definition shutdown_send :: "(socket, unit) prog" where
  "shutdown_send s =
     (if tx_quota s = Some 0 then (Inl (System_error ''Transport endpoint is not connected''), s)
      else (Inr (), s\<lparr>tx_open := False\<rparr>))"

section \<open>Operations of \<open>SocketBase\<close>\<close>

definition BUFFER_SIZE :: size_t where
  "BUFFER_SIZE = 1024 * 1024 * 1"

definition ACK :: bytes where
  "ACK = ''ACK''"

definition sendChunk :: "bytes \<Rightarrow> (socket, unit) prog" where
  "sendChunk data =
     (let message_length = (of_nat (length data) :: size_t)
      in asio_write (size_bytes message_length @ data))"

function send_loop :: "bytes \<Rightarrow> size_t \<Rightarrow> size_t \<Rightarrow> (socket, unit) prog" where
  "send_loop data message_length ptr_cursor s =
     (if BUFFER_SIZE \<le> message_length then
        (case sendChunk (take (unat BUFFER_SIZE) (drop (unat ptr_cursor) data)) s of
           (Inl e, s') \<Rightarrow> (Inl e, s')
         | (Inr _, s') \<Rightarrow> send_loop data (message_length - BUFFER_SIZE) (ptr_cursor + BUFFER_SIZE) s')
      else if 0 < message_length then
        sendChunk (take (unat message_length) (drop (unat ptr_cursor) data)) s
      else (Inr (), s))"
  by pat_completeness auto
termination
  by (relation "measure (\<lambda>(data, n, c, s). unat n)")
    (auto simp: BUFFER_SIZE_def word_le_nat_alt unat_sub)

declare send_loop.simps [simp del]

definition send :: "bytes \<Rightarrow> (socket, unit) prog" where
  "send data = send_loop data (of_nat (length data)) 0"

definition disconnect :: "bytes option \<Rightarrow> (socket, unit) prog" where
  "disconnect disconnect_msg =
     andthen (case disconnect_msg of None \<Rightarrow> ret () | Some m \<Rightarrow> send m) (\<lambda>_. shutdown_send)"

definition safeDisconnect :: "bytes option \<Rightarrow> (socket, unit) prog" where
  "safeDisconnect disconnect_msg = try_catch (disconnect disconnect_msg) (\<lambda>_. ret ())"

definition getMessageLength :: "(socket, size_t) prog" where
  "getMessageLength = andthen (asio_read 8) (\<lambda>h.
     let message_length = bytes_size h in
     if BUFFER_SIZE < message_length then
       andthen (safeDisconnect (Some ''Cannot receive message of this size.'')) (\<lambda>_.
         throw (SocketException (''Somebody is trying to send '' @ show_nat (unat message_length) @
           '' bytes in single message, which is more than allowed ('' @
           show_nat (unat BUFFER_SIZE) @ '')'')))
     else ret message_length)"

definition receive :: "(socket, bytes) prog" where
  "receive = andthen getMessageLength (\<lambda>message_length. asio_read (unat message_length))"

definition receiveToBuffer :: "(socket, bytes) prog" where
  "receiveToBuffer = andthen getMessageLength (\<lambda>message_length.
     andthen (asio_read_to_buffer (unat message_length)) (\<lambda>_ s.
       (Inr (take (unat message_length) (data_buffer s)), s)))"

definition receiveACK :: "(socket, unit) prog" where
  "receiveACK = andthen receiveToBuffer (\<lambda>response.
     if response \<noteq> ACK then
       throw (SocketException (''Response not ok. Response size: '' @ show_nat (length response) @
         ''. '' @ (if length response < 100 then response else ''Too large to print.'')))
     else ret ())"

definition sendACK :: "(socket, unit) prog" where
  "sendACK = send ACK"

definition getBuffer :: "socket \<Rightarrow> bytes \<times> size_t" where
  "getBuffer s = (data_buffer s, BUFFER_SIZE)"

subsection \<open>The asynchronous read\<close>

text \<open>The handler is called with a message, or the read is given up.\<close>

datatype async_result = Message bytes | Dropped

definition asyncReadMessageImpl :: "size_t \<Rightarrow> (socket, async_result) prog" where
  "asyncReadMessageImpl message_size =
     try_catch
       (andthen (asio_read_to_buffer (unat message_size)) (\<lambda>_ s.
          (Inr (Message (take (unat message_size) (data_buffer s))), s)))
       (\<lambda>_. ret Dropped)"

definition asyncReadHeader :: "size_t \<Rightarrow> (socket, async_result) prog" where
  "asyncReadHeader max_msg_size s =
     (case asio_read_to_buffer 8 s of
        (Inl ec, s') \<Rightarrow> (Inr Dropped, s')
      | (Inr _, s') \<Rightarrow>
          let message_size = bytes_size (take 8 (data_buffer s')) in
          if max_msg_size < message_size then
            andthen (safeDisconnect (Some (''Tried to send '' @ show_nat (unat message_size) @
              '' bytes, which is more than allowed ('' @ show_nat (unat max_msg_size) @ '').'')))
              (\<lambda>_. ret Dropped) s'
          else asyncReadMessageImpl message_size s')"

definition asyncReadMessage :: "size_t \<Rightarrow> (socket, async_result) prog" where
  "asyncReadMessage max_msg_size =
     (if BUFFER_SIZE < max_msg_size then
        throw (SocketException (''Tried to schedule receiving message with max size of '' @
          show_nat (unat max_msg_size) @ '' bytes, where buffer size is '' @
          show_nat (unat BUFFER_SIZE) @ ''.''))
      else asyncReadHeader max_msg_size)"

section \<open>The messages on the wire\<close>

text \<open>What one \<open>sendChunk\<close> puts on the wire, how a message is cut, and all of it.\<close>

definition frame :: "bytes \<Rightarrow> bytes" where
  "frame m = size_bytes (of_nat (length m)) @ m"

fun chunks :: "bytes \<Rightarrow> bytes list" where
  "chunks d = (if unat BUFFER_SIZE \<le> length d \<and> 0 < unat BUFFER_SIZE
     then take (unat BUFFER_SIZE) d # chunks (drop (unat BUFFER_SIZE) d)
     else if d = [] then [] else [d])"

declare chunks.simps [simp del]

definition wire :: "bytes \<Rightarrow> bytes" where
  "wire d = concat (map frame (chunks d))"

fun send_chunks :: "bytes list \<Rightarrow> (socket, unit) prog" where
  "send_chunks [] = ret ()"
| "send_chunks (c # cs) = andthen (sendChunk c) (\<lambda>_. send_chunks cs)"

definition writable :: "socket \<Rightarrow> bool" where
  "writable s \<longleftrightarrow> tx_open s \<and> tx_quota s = None"

lemma unat_BUFFER_SIZE [simp]: "unat BUFFER_SIZE = 1048576"
  by (simp add: BUFFER_SIZE_def)

lemma length_frame [simp]: "length (frame m) = 8 + length m"
  by (simp add: frame_def)

lemma frame_nonempty [simp]: "frame m \<noteq> []"
  by (metis length_frame add_is_0 length_0_conv zero_neq_numeral)

lemma chunks_Nil [simp]: "chunks [] = []"
  by (simp add: chunks.simps [of "[]"])

lemma concat_chunks [simp]: "concat (chunks d) = d"
proof (induction d rule: chunks.induct)
  case (1 d)
  then show ?case by (subst chunks.simps) auto
qed

lemma chunk_bounds: "c \<in> set (chunks d) \<Longrightarrow> 0 < length c \<and> length c \<le> unat BUFFER_SIZE"
proof (induction d rule: chunks.induct)
  case (1 d)
  show ?case
  proof (cases "unat BUFFER_SIZE \<le> length d")
    case True
    with "1.prems" have "c = take (unat BUFFER_SIZE) d \<or> c \<in> set (chunks (drop (unat BUFFER_SIZE) d))"
      by (simp add: chunks.simps [of d])
    with True "1.IH" show ?thesis by auto
  next
    case False
    with "1.prems" show ?thesis by (auto simp: chunks.simps [of d] split: if_splits)
  qed
qed

lemma chunks_single: "d \<noteq> [] \<Longrightarrow> length d \<le> unat BUFFER_SIZE \<Longrightarrow> chunks d = [d]"
  by (subst chunks.simps) auto

lemma chunks_le: "length d \<le> unat BUFFER_SIZE \<Longrightarrow> chunks d = (if d = [] then [] else [d])"
  by (simp add: chunks_single)

lemma sendChunk_frame: "sendChunk c = asio_write (frame c)"
  by (simp add: sendChunk_def frame_def)

text \<open>The loop over a pointer and a remaining length is the iteration over the chunks.\<close>

lemma send_loop_chunks:
  assumes "unat message_length + unat ptr_cursor = length data" and "length data < 2 ^ 64"
  shows "send_loop data message_length ptr_cursor s = send_chunks (chunks (drop (unat ptr_cursor) data)) s"
  using assms
proof (induction data message_length ptr_cursor s rule: send_loop.induct)
  case (1 data n c s)
  have len: "length (drop (unat c) data) = unat n" using "1.prems" by simp
  show ?case
  proof (cases "BUFFER_SIZE \<le> n")
    case True
    then have B: "1048576 \<le> unat n" by (simp add: word_le_nat_alt)
    have n': "unat (n - BUFFER_SIZE) = unat n - 1048576" using True by (simp add: unat_sub)
    have c': "unat (c + BUFFER_SIZE) = unat c + 1048576"
      using B "1.prems" by (subst unat_add_lem [THEN iffD1]) auto
    have cs: "chunks (drop (unat c) data) =
      take 1048576 (drop (unat c) data) # chunks (drop (unat c + 1048576) data)"
      using B len by (subst chunks.simps) (simp add: add.commute)
    have "send_loop data (n - BUFFER_SIZE) (c + BUFFER_SIZE) s' =
        send_chunks (chunks (drop (unat c + 1048576) data)) s'"
      if "sendChunk (take (unat BUFFER_SIZE) (drop (unat c) data)) s = (Inr u, s')" for s' u
      using "1.IH" [OF True that [symmetric]] that "1.prems" B n' c' by simp
    with True cs show ?thesis
      by (subst send_loop.simps) (auto simp: andthen_def split: prod.splits sum.splits)
  next
    case False
    then have B: "unat n < 1048576" by (simp add: word_le_nat_alt)
    show ?thesis
    proof (cases "0 < n")
      case True
      then have "0 < unat n" by (simp add: word_less_nat_alt)
      then have "chunks (drop (unat c) data) = [drop (unat c) data]"
        using B len by (intro chunks_single) auto
      with False True len show ?thesis
        by (subst send_loop.simps) (simp add: andthen_def split: prod.splits sum.splits)
    next
      case n0: False
      then have "drop (unat c) data = []" using len by (simp add: word_less_nat_alt)
      with False n0 show ?thesis by (subst send_loop.simps) simp
    qed
  qed
qed

text \<open>
  C19. Sending is cutting: for a message of any length the code can hold, the pointer loop of
  \<open>SocketBase::send\<close> issues exactly one chunk after the other, each of 1 to \<open>BUFFER_SIZE\<close> bytes,
  which together are the message.
\<close>

theorem send_is_chunking:
  assumes "length data < 2 ^ 64"
  shows "send data s = send_chunks (chunks data) s \<and> concat (chunks data) = data \<and>
    (\<forall>c \<in> set (chunks data). 0 < length c \<and> length c \<le> unat BUFFER_SIZE)"
  using assms send_loop_chunks [of "of_nat (length data)" 0 data s] chunk_bounds
  by (simp add: send_def unat_of_nat_size)

theorem send_is_chunking_witness:
  "send ''hello'' \<lparr>rx = [], tx = [], tx_open = True, tx_quota = Some 3, data_buffer = []\<rparr> =
   send_chunks (chunks ''hello'') \<lparr>rx = [], tx = [], tx_open = True, tx_quota = Some 3, data_buffer = []\<rparr>"
  using send_is_chunking [of "''hello''"] by simp

subsection \<open>Writing\<close>

text \<open>The state after \<open>d\<close> has been written: the bytes are on the wire and count against the quota.\<close>

definition written :: "bytes \<Rightarrow> socket \<Rightarrow> socket" where
  "written d s = s\<lparr>tx := tx s @ d, tx_quota := map_option (\<lambda>q. q - length d) (tx_quota s)\<rparr>"

definition carries :: "socket \<Rightarrow> nat \<Rightarrow> bool" where
  "carries s n \<longleftrightarrow> n = 0 \<or> tx_open s \<and> (\<forall>q. tx_quota s = Some q \<longrightarrow> n \<le> q)"

lemma written_Nil [simp]: "written [] s = s"
  by (cases "tx_quota s") (simp_all add: written_def)

lemma written_append: "written e (written d s) = written (d @ e) s"
  by (cases "tx_quota s") (simp_all add: written_def)

lemma written_fields [simp]:
  "rx (written d s) = rx s" "tx (written d s) = tx s @ d" "tx_open (written d s) = tx_open s"
  "data_buffer (written d s) = data_buffer s"
  by (simp_all add: written_def)

lemma written_writable [simp]: "writable (written d s) = writable s"
  by (simp add: writable_def written_def)

lemma writable_carries: "writable s \<Longrightarrow> carries s n"
  by (simp add: writable_def carries_def)

lemma carries_append: "carries s (length (d @ e)) \<Longrightarrow> d \<noteq> [] \<Longrightarrow> carries s (length d) \<and> carries (written d s) (length e)"
  by (auto simp: carries_def written_def)

lemma asio_write_ok: "d \<noteq> [] \<Longrightarrow> carries s (length d) \<Longrightarrow> asio_write d s = (Inr (), written d s)"
  by (auto simp: asio_write_def carries_def written_def split: option.splits)

text \<open>A socket whose sending side is shut down or whose connection has broken carries nothing more.\<close>

definition tx_dead :: "socket \<Rightarrow> bool" where
  "tx_dead s \<longleftrightarrow> \<not> tx_open s \<or> tx_quota s = Some 0"

lemma tx_dead_carries: "tx_dead s \<Longrightarrow> carries s n \<longleftrightarrow> n = 0"
  by (auto simp: tx_dead_def carries_def)

lemma asio_write_failed:
  assumes "d \<noteq> []" and "\<not> carries s (length d)"
  shows "\<exists>m k q. asio_write d s = (Inl (System_error m), s\<lparr>tx := tx s @ take k d, tx_quota := q\<rparr>)
    \<and> k < length d \<and> (\<not> tx_open s \<or> q = Some 0)"
proof (cases "tx_open s")
  case True
  with assms obtain q where q: "tx_quota s = Some q" "q < length d"
    by (auto simp: carries_def)
  with True show ?thesis
    by (intro exI [of _ "''Broken pipe''"] exI [of _ q] exI [of _ "Some 0"]) (simp add: asio_write_def)
next
  case False
  with assms show ?thesis
    by (intro exI [of _ "''shut down''"] exI [of _ 0] exI [of _ "tx_quota s"]) (simp add: asio_write_def)
qed

lemma send_chunks_ok:
  "carries s (length (concat (map frame cs))) \<Longrightarrow> send_chunks cs s = (Inr (), written (concat (map frame cs)) s)"
proof (induction cs arbitrary: s)
  case Nil
  then show ?case by simp
next
  case (Cons c cs)
  have "carries s (length (frame c)) \<and> carries (written (frame c) s) (length (concat (map frame cs)))"
    using Cons.prems carries_append [of s "frame c" "concat (map frame cs)"] by simp
  with Cons.IH show ?case
    by (simp add: andthen_def sendChunk_frame asio_write_ok written_append)
qed

lemma send_chunks_failed:
  assumes "\<not> carries s (length (concat (map frame cs)))"
  shows "\<exists>m k q. send_chunks cs s =
      (Inl (System_error m), s\<lparr>tx := tx s @ take k (concat (map frame cs)), tx_quota := q\<rparr>)
    \<and> k < length (concat (map frame cs)) \<and> (\<not> tx_open s \<or> q = Some 0)"
  using assms
proof (induction cs arbitrary: s)
  case Nil
  then show ?case by (simp add: carries_def)
next
  case (Cons c cs)
  show ?case
  proof (cases "carries s (length (frame c))")
    case True
    then have 1: "sendChunk c s = (Inr (), written (frame c) s)"
      by (simp add: sendChunk_frame asio_write_ok)
    have "\<not> carries (written (frame c) s) (length (concat (map frame cs)))"
      using True Cons.prems by (auto simp: carries_def written_def)
    from Cons.IH [OF this] obtain m k q where
      2: "send_chunks cs (written (frame c) s) = (Inl (System_error m),
        (written (frame c) s)\<lparr>tx := tx s @ frame c @ take k (concat (map frame cs)), tx_quota := q\<rparr>)"
      and "k < length (concat (map frame cs))" and "\<not> tx_open s \<or> q = Some 0" by auto
    with 1 show ?thesis
      by (intro exI [of _ m] exI [of _ "length (frame c) + k"] exI [of _ q])
        (simp add: andthen_def written_def)
  next
    case False
    then obtain m k q where
      "sendChunk c s = (Inl (System_error m), s\<lparr>tx := tx s @ take k (frame c), tx_quota := q\<rparr>)"
      and k: "k < length (frame c)" and "\<not> tx_open s \<or> q = Some 0"
      using asio_write_failed [of "frame c" s] by (auto simp: sendChunk_frame)
    then show ?thesis
      by (intro exI [of _ m] exI [of _ k] exI [of _ q]) (simp add: andthen_def)
  qed
qed

lemma send_eq: "length d < 2 ^ 64 \<Longrightarrow> send d = send_chunks (chunks d)"
  using send_loop_chunks [of "of_nat (length d)" 0 d]
  by (intro ext) (simp add: send_def unat_of_nat_size)

lemma send_ok:
  "length d < 2 ^ 64 \<Longrightarrow> carries s (length (wire d)) \<Longrightarrow> send d s = (Inr (), written (wire d) s)"
  by (simp add: send_eq send_chunks_ok wire_def)

lemma send_failed:
  "length d < 2 ^ 64 \<Longrightarrow> \<not> carries s (length (wire d)) \<Longrightarrow>
   \<exists>m k q. send d s = (Inl (System_error m), s\<lparr>tx := tx s @ take k (wire d), tx_quota := q\<rparr>)
     \<and> k < length (wire d) \<and> (\<not> tx_open s \<or> q = Some 0)"
  using send_chunks_failed [of s "chunks d"] by (simp add: send_eq wire_def)

lemma send_short:
  assumes "d \<noteq> []" and "length d \<le> unat BUFFER_SIZE" and "carries s (8 + length d)"
  shows "send d s = (Inr (), written (frame d) s)"
  using assms send_ok [of d s] by (simp add: wire_def chunks_single)

lemma send_loop_any_rx: "rx (snd (send_loop d n c s)) = rx s"
proof (induction d n c s rule: send_loop.induct)
  case (1 d n c s)
  have chunk: "rx (snd (sendChunk x u)) = rx u" for x u
    by (simp add: sendChunk_def Let_def asio_write_def split: option.splits)
  show ?case
  proof (cases "BUFFER_SIZE \<le> n")
    case True
    let ?c = "take (unat BUFFER_SIZE) (drop (unat c) d)"
    obtain r s1 where s1: "sendChunk ?c s = (r, s1)" by fastforce
    then have rx1: "rx s1 = rx s" using chunk [of ?c s] by simp
    show ?thesis
    proof (cases r)
      case (Inl e)
      then show ?thesis using True s1 rx1 by (simp add: send_loop.simps [of d n c s])
    next
      case (Inr u)
      then have "rx (snd (send_loop d (n - BUFFER_SIZE) (c + BUFFER_SIZE) s1)) = rx s1"
        using "1.IH" [OF True s1 [symmetric]] by simp
      then show ?thesis using True s1 rx1 Inr by (simp add: send_loop.simps [of d n c s])
    qed
  next
    case False
    then show ?thesis using chunk by (simp add: send_loop.simps [of d n c s])
  qed
qed

lemma send_any_rx: "send d s = (r, s') \<Longrightarrow> rx s' = rx s"
  using send_loop_any_rx [of d "of_nat (length d)" 0 s] by (simp add: send_def)

lemma send_rx:
  assumes "length d < 2 ^ 64"
  shows "rx (snd (send d s)) = rx s \<and> data_buffer (snd (send d s)) = data_buffer s \<and>
    tx_open (snd (send d s)) = tx_open s"
  using send_ok [OF assms, of s] send_failed [OF assms, of s]
  by (cases "carries s (length (wire d))") auto

text \<open>
  C20. Nothing but the message goes on the wire, and success means all of it: \<open>send\<close> appends a
  prefix of the framed message, the whole of it exactly when it returns, and a proper prefix
  exactly when it throws a system error; it never touches what there is to read.
\<close>

theorem send_outcome:
  assumes "length d < 2 ^ 64" and "send d s = (r, s')"
  shows "rx s' = rx s \<and>
    (case r of
       Inr _ \<Rightarrow> tx s' = tx s @ wire d
     | Inl e \<Rightarrow> (\<exists>m k. e = System_error m \<and> k < length (wire d) \<and> tx s' = tx s @ take k (wire d)))"
  using assms send_ok [of d s] send_failed [of d s]
  by (cases "carries s (length (wire d))") auto

theorem send_outcome_witness:
  "fst (send ''hello'' \<lparr>rx = [], tx = [], tx_open = True, tx_quota = Some 11, data_buffer = []\<rparr>) \<noteq> Inr ()"
proof -
  let ?s = "\<lparr>rx = [], tx = [], tx_open = True, tx_quota = Some 11, data_buffer = []\<rparr>"
  have w: "wire ''hello'' = frame ''hello''" by (simp add: wire_def chunks_single)
  have "\<not> carries ?s (length (wire ''hello''))" by (simp add: w carries_def)
  then obtain m k q where e: "send ''hello'' ?s =
    (Inl (System_error m), ?s\<lparr>tx := tx ?s @ take k (wire ''hello''), tx_quota := q\<rparr>)"
    using send_failed [of "''hello''" ?s] by auto
  from send_outcome [OF _ this] e show ?thesis by simp
qed

subsection \<open>Reading\<close>

lemma overwrite_take [simp]: "take (length d) (overwrite d b) = d"
  by (simp add: overwrite_def)

lemma unframe:
  assumes "8 \<le> length bs" and "unat (bytes_size (take 8 bs)) \<le> length (drop 8 bs)"
  defines "m \<equiv> take (unat (bytes_size (take 8 bs))) (drop 8 bs)"
  shows "bs = frame m @ drop (length (frame m)) bs"
proof -
  have l: "length m = unat (bytes_size (take 8 bs))" using assms by simp
  then have "size_bytes (of_nat (length m)) = take 8 bs"
    using assms(1) by (simp add: size_bytes_size)
  then have "frame m = take 8 bs @ take (length m) (drop 8 bs)"
    using l by (simp add: frame_def m_def)
  moreover have "length (frame m) \<le> length bs" using l assms(1,2) by simp
  ultimately show ?thesis
    by (metis append_take_drop_id length_frame take_add [symmetric])
qed

lemma getMessageLength_frame:
  assumes "rx s = frame m @ rest" and "length m \<le> unat BUFFER_SIZE"
  shows "getMessageLength s = (Inr (of_nat (length m)), s\<lparr>rx := m @ rest\<rparr>)"
proof -
  have "unat (of_nat (length m) :: size_t) = length m" using assms(2) by (simp add: unat_of_nat_size)
  then have "\<not> BUFFER_SIZE < of_nat (length m)" using assms(2) by (simp add: word_less_nat_alt)
  with assms(1) show ?thesis
    by (simp add: getMessageLength_def andthen_def asio_read_def frame_def)
qed

lemma receive_frame:
  assumes "rx s = frame m @ rest" and "length m \<le> unat BUFFER_SIZE"
  shows "receive s = (Inr m, s\<lparr>rx := rest\<rparr>)"
  using getMessageLength_frame [OF assms] assms(2)
  by (simp add: receive_def andthen_def asio_read_def unat_of_nat_size)

lemma receiveToBuffer_frame:
  assumes "rx s = frame m @ rest" and "length m \<le> unat BUFFER_SIZE"
  shows "receiveToBuffer s = (Inr m, s\<lparr>rx := rest, data_buffer := overwrite m (data_buffer s)\<rparr>)"
  using getMessageLength_frame [OF assms] assms(2)
  by (simp add: receiveToBuffer_def andthen_def asio_read_to_buffer_def Let_def unat_of_nat_size)

text \<open>The messages read back are the messages sent, whatever follows them.\<close>

definition receive_bytes :: "bytes \<Rightarrow> (error + bytes) \<times> bytes" where
  "receive_bytes bs =
     (case receive \<lparr>rx = bs, tx = [], tx_open = True, tx_quota = None, data_buffer = []\<rparr> of
        (r, s) \<Rightarrow> (r, rx s))"

interpretation message_codec: framed_codec frame receive_bytes "\<lambda>m. length m \<le> unat BUFFER_SIZE"
  by unfold_locales (auto simp: receive_bytes_def receive_frame)

fun receive_many :: "nat \<Rightarrow> (socket, bytes list) prog" where
  "receive_many 0 = ret []"
| "receive_many (Suc n) = andthen receive (\<lambda>m. andthen (receive_many n) (\<lambda>ms. ret (m # ms)))"

lemma receive_many_frames:
  assumes "rx s = concat (map frame ms) @ rest" and "list_all (\<lambda>m. length m \<le> unat BUFFER_SIZE) ms"
  shows "receive_many (length ms) s = (Inr ms, s\<lparr>rx := rest\<rparr>)"
  using assms
proof (induction ms arbitrary: s)
  case Nil
  then show ?case by simp
next
  case (Cons m ms)
  have "receive s = (Inr m, s\<lparr>rx := concat (map frame ms) @ rest\<rparr>)"
    using Cons.prems by (intro receive_frame) auto
  moreover have "receive_many (length ms) (s\<lparr>rx := concat (map frame ms) @ rest\<rparr>) =
      (Inr ms, s\<lparr>rx := rest\<rparr>)"
    using Cons.prems Cons.IH [of "s\<lparr>rx := concat (map frame ms) @ rest\<rparr>"] by simp
  ultimately show ?case by (simp add: andthen_def)
qed

text \<open>
  C18. Sending and receiving are inverse: what \<open>send\<close> puts on one end is read at the other end by
  as many \<open>receive\<close> calls as there are chunks, whose results concatenate to the message, with the
  following bytes untouched; a message of 1 to \<open>BUFFER_SIZE\<close> bytes is one \<open>receive\<close>.
\<close>

theorem send_receive_roundtrip:
  assumes "length d < 2 ^ 64" and "writable s"
    and "rx t = drop (length (tx s)) (tx (snd (send d s))) @ rest"
  shows "receive_many (length (chunks d)) t = (Inr (chunks d), t\<lparr>rx := rest\<rparr>) \<and>
    concat (chunks d) = d \<and>
    (d \<noteq> [] \<and> length d \<le> unat BUFFER_SIZE \<longrightarrow> receive t = (Inr d, t\<lparr>rx := rest\<rparr>))"
proof -
  have "rx t = concat (map frame (chunks d)) @ rest"
    using assms by (simp add: send_ok writable_carries wire_def)
  moreover have "list_all (\<lambda>m. length m \<le> unat BUFFER_SIZE) (chunks d)"
    using chunk_bounds by (auto simp: list_all_iff)
  moreover have "chunks d = [d]" if "d \<noteq> []" "length d \<le> unat BUFFER_SIZE"
    using that by (rule chunks_single)
  ultimately show ?thesis by (auto simp: receive_many_frames receive_frame)
qed

theorem send_receive_roundtrip_witness:
  "\<exists>s t. receive t = (Inr ''hello'', t\<lparr>rx := ''tail''\<rparr>) \<and> tx s = ''x'' \<and>
     rx t = drop 1 (tx (snd (send ''hello'' s))) @ ''tail''"
proof -
  let ?s = "\<lparr>rx = [], tx = ''x'', tx_open = True, tx_quota = None, data_buffer = []\<rparr>"
  let ?t = "?s\<lparr>rx := drop 1 (tx (snd (send ''hello'' ?s))) @ ''tail''\<rparr>"
  have "receive ?t = (Inr ''hello'', ?t\<lparr>rx := ''tail''\<rparr>)"
    using send_receive_roundtrip [of "''hello''" ?s ?t "''tail''"] by (simp add: writable_def)
  then show ?thesis by (intro exI [of _ ?s] exI [of _ ?t]) simp
qed

subsection \<open>What a read can do\<close>

lemma safeDisconnect_returns: "\<exists>s'. safeDisconnect m s = (Inr (), s')"
  by (auto simp: safeDisconnect_def try_catch_def split: prod.splits sum.splits)

lemma safeDisconnect_writable:
  assumes "writable s" and "m \<noteq> []" and "length m \<le> unat BUFFER_SIZE"
  shows "safeDisconnect (Some m) s = (Inr (), (written (frame m) s)\<lparr>tx_open := False\<rparr>)"
  using assms send_short [of m s]
  by (simp add: safeDisconnect_def disconnect_def try_catch_def andthen_def shutdown_send_def
      writable_carries) (simp add: writable_def written_def)

lemma getMessageLength_cases:
  obtains (short) "length (rx s) < 8" "getMessageLength s = (Inl (System_error ''End of file''), s\<lparr>rx := []\<rparr>)"
  | (big) "8 \<le> length (rx s)" "BUFFER_SIZE < bytes_size (take 8 (rx s))"
      "\<exists>m. getMessageLength s =
        (Inl (SocketException m),
         snd (safeDisconnect (Some ''Cannot receive message of this size.'') (s\<lparr>rx := drop 8 (rx s)\<rparr>)))"
  | (ok) "8 \<le> length (rx s)" "\<not> BUFFER_SIZE < bytes_size (take 8 (rx s))"
      "getMessageLength s = (Inr (bytes_size (take 8 (rx s))), s\<lparr>rx := drop 8 (rx s)\<rparr>)"
proof -
  obtain u where sd: "safeDisconnect (Some ''Cannot receive message of this size.'')
      (s\<lparr>rx := drop 8 (rx s)\<rparr>) = (Inr (), u)"
    using safeDisconnect_returns by blast
  show thesis
  proof (cases "8 \<le> length (rx s)")
    case False
    then show thesis
      by (intro short) (simp_all add: getMessageLength_def andthen_def asio_read_def)
  next
    case True
    show thesis
    proof (cases "BUFFER_SIZE < bytes_size (take 8 (rx s))")
      case False
      with True show thesis
        by (intro ok) (simp_all add: getMessageLength_def andthen_def asio_read_def)
    next
      case B: True
      with True show thesis
        by (intro big) (auto simp: getMessageLength_def andthen_def asio_read_def sd)
    qed
  qed
qed

lemma receive_success:
  assumes "receive s = (Inr m, s')"
  shows "length m \<le> unat BUFFER_SIZE \<and> rx s = frame m @ rx s' \<and> s' = s\<lparr>rx := rx s'\<rparr>"
proof (cases rule: getMessageLength_cases [of s])
  case ok
  then have r: "receive s = asio_read (unat (bytes_size (take 8 (rx s)))) (s\<lparr>rx := drop 8 (rx s)\<rparr>)"
    by (simp add: receive_def andthen_def)
  with assms have n: "unat (bytes_size (take 8 (rx s))) \<le> length (drop 8 (rx s))"
    by (auto simp: asio_read_def split: if_splits)
  with r assms have m: "m = take (unat (bytes_size (take 8 (rx s)))) (drop 8 (rx s))"
    and s': "s' = s\<lparr>rx := drop (unat (bytes_size (take 8 (rx s)))) (drop 8 (rx s))\<rparr>"
    by (simp_all add: asio_read_def)
  have l: "length m = unat (bytes_size (take 8 (rx s)))" using m n by simp
  have "rx s = frame m @ drop (length (frame m)) (rx s)"
    using unframe [of "rx s"] ok(1) n m by simp
  moreover have "rx s' = drop (length (frame m)) (rx s)" using s' l by (simp add: add.commute)
  moreover have "unat (bytes_size (take 8 (rx s))) \<le> unat BUFFER_SIZE"
    using ok(2) by (simp add: word_less_nat_alt)
  ultimately show ?thesis using l s' by simp
next
  case short
  then show ?thesis using assms by (simp add: receive_def andthen_def)
next
  case big
  then show ?thesis using assms by (auto simp: receive_def andthen_def)
qed

lemma receive_consumes:
  assumes "receive s = (Inr m, s')"
  shows "length (rx s') < length (rx s)"
proof -
  have "rx s = frame m @ rx s'" using receive_success [OF assms] by simp
  then have "length (rx s) = length (frame m) + length (rx s')" by (metis length_append)
  then show ?thesis by simp
qed

lemma receiveToBuffer_receive:
  "\<exists>b. receiveToBuffer s = (fst (receive s), (snd (receive s))\<lparr>data_buffer := b\<rparr>)"
proof (cases rule: getMessageLength_cases [of s])
  case short
  then show ?thesis
    by (intro exI [of _ "data_buffer s"]) (simp add: receiveToBuffer_def receive_def andthen_def)
next
  case big
  then obtain m where "getMessageLength s = (Inl (SocketException m),
      snd (safeDisconnect (Some ''Cannot receive message of this size.'') (s\<lparr>rx := drop 8 (rx s)\<rparr>)))" by auto
  then show ?thesis
    by (intro exI [of _ "data_buffer (snd (getMessageLength s))"])
      (simp add: receiveToBuffer_def receive_def andthen_def)
next
  case ok
  let ?n = "unat (bytes_size (take 8 (rx s)))"
  from ok have r: "receive s = asio_read ?n (s\<lparr>rx := drop 8 (rx s)\<rparr>)"
    by (simp add: receive_def andthen_def)
  have b: "receiveToBuffer s = andthen (asio_read_to_buffer ?n) (\<lambda>_ s.
       (Inr (take ?n (data_buffer s)), s)) (s\<lparr>rx := drop 8 (rx s)\<rparr>)"
    using ok by (simp add: receiveToBuffer_def andthen_def)
  show ?thesis
    unfolding r b
    by (cases "?n \<le> length (rx s) - 8")
      (auto simp: andthen_def asio_read_def asio_read_to_buffer_def Let_def overwrite_def)
qed

text \<open>
  C21. \<open>receive\<close> accepts exactly the well-formed messages of at most \<open>BUFFER_SIZE\<close> bytes: it returns
  \<open>m\<close> just when the stream begins with the frame of such an \<open>m\<close>, and then it has consumed that
  frame and changed nothing else.  \<open>receiveToBuffer\<close> returns the same and differs in the buffer only.
\<close>

theorem receive_iff:
  "(receive s = (Inr m, s') \<longleftrightarrow>
     length m \<le> unat BUFFER_SIZE \<and> rx s = frame m @ rx s' \<and> s' = s\<lparr>rx := rx s'\<rparr>) \<and>
   (\<exists>b. receiveToBuffer s = (fst (receive s), (snd (receive s))\<lparr>data_buffer := b\<rparr>))"
  using receive_success [of s m s'] receive_frame [of s m "rx s'"] receiveToBuffer_receive [of s]
  by (metis (full_types))

lemma receiveToBuffer_success:
  assumes "receiveToBuffer s = (Inr m, s')"
  shows "length m \<le> unat BUFFER_SIZE \<and> rx s = frame m @ rx s' \<and>
    tx s' = tx s \<and> tx_open s' = tx_open s \<and> tx_quota s' = tx_quota s"
proof -
  obtain b where b: "receiveToBuffer s = (fst (receive s), (snd (receive s))\<lparr>data_buffer := b\<rparr>)"
    using receiveToBuffer_receive by blast
  then obtain s1 where 1: "receive s = (Inr m, s1)" and s': "s' = s1\<lparr>data_buffer := b\<rparr>"
    using assms by (cases "receive s") auto
  have "length m \<le> unat BUFFER_SIZE" "rx s = frame m @ rx s1" "s1 = s\<lparr>rx := rx s1\<rparr>"
    using receive_success [OF 1] by auto
  then show ?thesis unfolding s' by (metis select_convs(2,3,4) simps(1) surjective update_convs(1,5))
qed

lemma receive_not_writing:
  assumes "receive s = (Inr m, s')"
  shows "tx s' = tx s \<and> tx_open s' = tx_open s \<and> tx_quota s' = tx_quota s \<and> data_buffer s' = data_buffer s"
  using receive_success [OF assms] by (metis select_convs(2,3,4,5) surjective update_convs(1))

text \<open>
  An oversized message is refused before any of its content is read: the header is consumed,
  the peer is told and no further byte can be sent, and the caller gets a \<open>SocketException\<close> that
  names both sizes.
\<close>

theorem receive_oversized:
  assumes "rx s = size_bytes n @ content" and "BUFFER_SIZE < n" and "writable s"
  shows "receive s =
    (Inl (SocketException (''Somebody is trying to send '' @ show_nat (unat n) @
        '' bytes in single message, which is more than allowed ('' @ show_nat 1048576 @ '')'')),
     s\<lparr>rx := content, tx := tx s @ frame ''Cannot receive message of this size.'', tx_open := False\<rparr>)"
proof -
  have "safeDisconnect (Some ''Cannot receive message of this size.'') (s\<lparr>rx := content\<rparr>) =
      (Inr (), (written (frame ''Cannot receive message of this size.'') (s\<lparr>rx := content\<rparr>))\<lparr>tx_open := False\<rparr>)"
    using assms(3) by (intro safeDisconnect_writable) (auto simp: writable_def)
  then show ?thesis using assms
    by (simp add: receive_def getMessageLength_def andthen_def asio_read_def written_def writable_def)
qed

theorem receive_oversized_witness:
  "fst (receive \<lparr>rx = size_bytes (BUFFER_SIZE + 1), tx = [], tx_open = True, tx_quota = None,
     data_buffer = []\<rparr>) =
   Inl (SocketException (''Somebody is trying to send '' @ show_nat 1048577 @
     '' bytes in single message, which is more than allowed ('' @ show_nat 1048576 @ '')''))"
  using receive_oversized [of "\<lparr>rx = size_bytes (BUFFER_SIZE + 1), tx = [], tx_open = True,
      tx_quota = None, data_buffer = []\<rparr>" "BUFFER_SIZE + 1" "[]"]
  by (simp add: writable_def BUFFER_SIZE_def)

subsection \<open>Acknowledgements\<close>

lemma ACK_size [simp]: "length ACK = 3" "ACK \<noteq> []"
  by (simp_all add: ACK_def)

lemma sendACK_ok: "carries s 11 \<Longrightarrow> sendACK s = (Inr (), written (frame ACK) s)"
  using send_short [of ACK s] by (simp add: sendACK_def)

lemma receiveACK_ok:
  "rx s = frame ACK @ rest \<Longrightarrow>
   receiveACK s = (Inr (), s\<lparr>rx := rest, data_buffer := overwrite ACK (data_buffer s)\<rparr>)"
  using receiveToBuffer_frame [of s ACK rest] by (simp add: receiveACK_def andthen_def)

lemma receiveACK_success:
  assumes "receiveACK s = (Inr (), s')"
  shows "rx s = frame ACK @ rx s' \<and> tx s' = tx s"
proof -
  obtain m where m: "receiveToBuffer s = (Inr m, s')" and "m = ACK"
    using assms by (auto simp: receiveACK_def andthen_def split: prod.splits sum.splits if_splits)
  with receiveToBuffer_success [OF m] show ?thesis by simp
qed

text \<open>
  The acknowledgement is the message \<open>ACK\<close> and nothing else: \<open>receiveACK\<close> returns just when
  that message is next, and on any other message of at most \<open>BUFFER_SIZE\<close> bytes it consumes the
  message and throws a \<open>SocketException\<close> with its size, quoting it when it is shorter than 100
  bytes.
\<close>

theorem receiveACK_outcome:
  "((\<exists>s'. receiveACK s = (Inr (), s')) \<longleftrightarrow> (\<exists>rest. rx s = frame ACK @ rest)) \<and>
   (length m \<le> unat BUFFER_SIZE \<and> m \<noteq> ACK \<and> rx s = frame m @ rest \<longrightarrow>
     receiveACK s = (Inl (SocketException (''Response not ok. Response size: '' @ show_nat (length m) @
         ''. '' @ (if length m < 100 then m else ''Too large to print.''))),
       s\<lparr>rx := rest, data_buffer := overwrite m (data_buffer s)\<rparr>))"
proof (intro conjI impI)
  show "(\<exists>s'. receiveACK s = (Inr (), s')) \<longleftrightarrow> (\<exists>rest. rx s = frame ACK @ rest)"
    using receiveACK_success receiveACK_ok by blast
next
  assume "length m \<le> unat BUFFER_SIZE \<and> m \<noteq> ACK \<and> rx s = frame m @ rest"
  then show "receiveACK s = (Inl (SocketException (''Response not ok. Response size: '' @
        show_nat (length m) @ ''. '' @ (if length m < 100 then m else ''Too large to print.''))),
       s\<lparr>rx := rest, data_buffer := overwrite m (data_buffer s)\<rparr>)"
    by (simp add: receiveACK_def andthen_def receiveToBuffer_frame)
qed

theorem receiveACK_outcome_witness:
  "fst (receiveACK \<lparr>rx = frame ''abort'', tx = [], tx_open = True, tx_quota = None, data_buffer = []\<rparr>) =
   Inl (SocketException (''Response not ok. Response size: '' @ show_nat (length ''abort'') @ ''. abort''))"
  using receiveACK_outcome [of "\<lparr>rx = frame ''abort'', tx = [], tx_open = True, tx_quota = None,
      data_buffer = []\<rparr>" "''abort''" "[]"]
  by (simp add: ACK_def)

subsection \<open>Disconnecting\<close>

lemma safeDisconnect_dead:
  assumes "\<And>m. msg = Some m \<Longrightarrow> length m < 2 ^ 64"
  shows "tx_dead (snd (safeDisconnect msg s)) \<and> rx (snd (safeDisconnect msg s)) = rx s"
proof -
  have shut: "tx_dead (snd (shutdown_send u)) \<and> rx (snd (shutdown_send u)) = rx u" for u
    by (auto simp: shutdown_send_def tx_dead_def)
  have end_state: "snd (safeDisconnect msg s) = snd (disconnect msg s)"
    by (auto simp: safeDisconnect_def try_catch_def split: prod.splits sum.splits)
  show ?thesis
  proof (cases msg)
    case None
    then show ?thesis using end_state shut [of s] by (simp add: disconnect_def andthen_def)
  next
    case (Some m)
    show ?thesis
    proof (cases "carries s (length (wire m))")
      case True
      then have "send m s = (Inr (), written (wire m) s)" using assms Some by (intro send_ok) auto
      then show ?thesis
        using end_state shut [of "written (wire m) s"] Some by (simp add: disconnect_def andthen_def)
    next
      case False
      then obtain e k q where
        "send m s = (Inl (System_error e), s\<lparr>tx := tx s @ take k (wire m), tx_quota := q\<rparr>)"
        and "\<not> tx_open s \<or> q = Some 0"
        using send_failed [OF assms [OF Some] False] by blast
      then show ?thesis using end_state Some by (auto simp: disconnect_def andthen_def tx_dead_def)
    qed
  qed
qed

text \<open>
  After \<open>safeDisconnect\<close>, which never throws, no further message leaves the socket: whatever
  the connection was able to carry, every later \<open>send\<close> of a non-empty message throws a system
  error and leaves what was written as it is; what there is to read stays.
\<close>

theorem safeDisconnect_final:
  assumes "length m < 2 ^ 64" and "length d < 2 ^ 64" and "d \<noteq> []"
    and "safeDisconnect (Some m) s = (r, s')"
  shows "r = Inr () \<and> rx s' = rx s \<and> (\<exists>e q. send d s' = (Inl (System_error e), s'\<lparr>tx_quota := q\<rparr>))"
proof -
  from assms(4) have r: "r = Inr ()" using safeDisconnect_returns [of "Some m" s] by simp
  from assms(1,4) have dead: "tx_dead s'" and rx: "rx s' = rx s"
    using safeDisconnect_dead [of "Some m" s] by auto
  obtain c cs where c: "chunks d = c # cs" using concat_chunks [of d] assms(3) by (cases "chunks d") auto
  have "\<not> carries s' (length (frame c))" using dead by (simp add: tx_dead_carries)
  moreover have "asio_write (frame c) s' = (Inl (System_error e), s'\<lparr>tx_quota := q\<rparr>) \<Longrightarrow>
      send d s' = (Inl (System_error e), s'\<lparr>tx_quota := q\<rparr>)" for e q
    using c assms(2) by (simp add: send_eq andthen_def sendChunk_frame)
  moreover have "\<exists>e q. asio_write (frame c) s' = (Inl (System_error e), s'\<lparr>tx_quota := q\<rparr>)"
  proof (cases "tx_open s'")
    case True
    with dead have "tx_quota s' = Some 0" by (simp add: tx_dead_def)
    with True show ?thesis
      by (intro exI [of _ "''Broken pipe''"] exI [of _ "Some 0"]) (simp add: asio_write_def)
  next
    case False
    then show ?thesis
      by (intro exI [of _ "''shut down''"] exI [of _ "tx_quota s'"]) (simp add: asio_write_def)
  qed
  ultimately show ?thesis using r rx by blast
qed

theorem safeDisconnect_final_witness:
  "\<exists>e q. send ''late'' (snd (safeDisconnect (Some ''bye'') \<lparr>rx = [], tx = [], tx_open = True,
     tx_quota = Some 4, data_buffer = []\<rparr>)) =
   (Inl (System_error e), (snd (safeDisconnect (Some ''bye'') \<lparr>rx = [], tx = [], tx_open = True,
     tx_quota = Some 4, data_buffer = []\<rparr>))\<lparr>tx_quota := q\<rparr>)"
  using safeDisconnect_final [of "''bye''" "''late''", OF _ _ _ surjective_pairing] by simp

subsection \<open>The first message of a connection\<close>

lemma asyncRead_frame:
  assumes "rx s = frame m @ rest" and "length m \<le> unat lim" and "lim \<le> BUFFER_SIZE"
  shows "asyncReadMessage lim s = (Inr (Message m),
    s\<lparr>rx := rest, data_buffer := overwrite m (overwrite (size_bytes (of_nat (length m))) (data_buffer s))\<rparr>)"
proof -
  have "unat lim < 2 ^ 64" using unsigned_less [of lim, where ?'a = nat] by simp
  then have n: "unat (of_nat (length m) :: size_t) = length m" using assms(2) by (simp add: unat_of_nat_size)
  then have "\<not> lim < of_nat (length m)" using assms(2) by (simp add: word_less_nat_alt)
  then show ?thesis using assms(1,3) n
    by (simp add: asyncReadMessage_def asyncReadHeader_def asyncReadMessageImpl_def frame_def Let_def
        asio_read_to_buffer_def try_catch_def andthen_def overwrite_def)
qed

lemma asyncRead_Message:
  assumes "asyncReadMessage lim s = (Inr (Message m), s')"
  shows "length m \<le> unat lim \<and> lim \<le> BUFFER_SIZE \<and> rx s = frame m @ rx s' \<and> tx s' = tx s \<and>
    tx_open s' = tx_open s \<and> tx_quota s' = tx_quota s"
proof -
  let ?n = "bytes_size (take 8 (rx s))"
  from assms have lim: "lim \<le> BUFFER_SIZE"
    by (auto simp: asyncReadMessage_def split: if_splits)
  then have "\<not> BUFFER_SIZE < lim" by simp
  with assms have h: "asyncReadHeader lim s = (Inr (Message m), s')"
    unfolding asyncReadMessage_def by (simp only: if_False)
  then have 8: "8 \<le> length (rx s)" and le: "\<not> lim < ?n"
    by (auto simp: asyncReadHeader_def asio_read_to_buffer_def Let_def overwrite_def andthen_def
        split: if_splits prod.splits sum.splits)
  with h have n: "unat ?n \<le> length (drop 8 (rx s))" and m: "m = take (unat ?n) (drop 8 (rx s))"
    and s': "rx s' = drop (unat ?n) (drop 8 (rx s))" "tx s' = tx s" "tx_open s' = tx_open s"
      "tx_quota s' = tx_quota s"
    by (auto simp: asyncReadHeader_def asyncReadMessageImpl_def asio_read_to_buffer_def Let_def
        overwrite_def andthen_def try_catch_def split: if_splits)
  have l: "length m = unat ?n" using m n by simp
  moreover have "unat ?n \<le> unat lim" using le by (simp add: word_less_nat_alt)
  moreover have "rx s = frame m @ drop (length (frame m)) (rx s)"
    using unframe [OF 8 n] m by simp
  ultimately show ?thesis using s' lim by (simp add: add.commute)
qed

lemma asyncReadImpl_returns: "\<exists>x. fst (asyncReadMessageImpl n s) = Inr x"
  by (auto simp: asyncReadMessageImpl_def try_catch_def split: prod.splits sum.splits)

lemma asyncReadMessage_returns:
  assumes "lim \<le> BUFFER_SIZE"
  shows "\<exists>x. fst (asyncReadMessage lim s) = Inr x"
proof -
  have sd: "fst (andthen (safeDisconnect m) (\<lambda>_. ret Dropped) u) = Inr Dropped" for m u
    using safeDisconnect_returns [of m u] by (auto simp: andthen_def)
  have "\<exists>x. fst (asyncReadHeader lim s) = Inr x"
  proof (cases "asio_read_to_buffer 8 s")
    case (Pair q u)
    then show ?thesis using asyncReadImpl_returns
      by (cases q) (simp_all add: asyncReadHeader_def Let_def sd)
  qed
  then show ?thesis using assms by (simp add: asyncReadMessage_def)
qed

text \<open>
  C36. The bound on the first message: for a limit within the buffer, the handler of
  \<open>asyncReadMessage\<close> is called with \<open>m\<close> just when the stream begins with the frame of an \<open>m\<close> within
  the limit; a longer announcement is refused unread, the sender is told both sizes and the
  connection is closed for sending.
\<close>

theorem asyncReadMessage_bounded:
  assumes "lim \<le> BUFFER_SIZE"
  shows "((\<exists>s'. asyncReadMessage lim s = (Inr (Message m), s')) \<longleftrightarrow>
      length m \<le> unat lim \<and> (\<exists>rest. rx s = frame m @ rest)) \<and>
    (rx s = size_bytes n @ content \<and> lim < n \<and> writable s \<longrightarrow>
      (\<exists>b. asyncReadMessage lim s = (Inr Dropped, s\<lparr>rx := content, data_buffer := b, tx_open := False,
         tx := tx s @ frame (''Tried to send '' @ show_nat (unat n) @
           '' bytes, which is more than allowed ('' @ show_nat (unat lim) @ '').'')\<rparr>)))"
proof (intro conjI impI)
  show "(\<exists>s'. asyncReadMessage lim s = (Inr (Message m), s')) \<longleftrightarrow>
      length m \<le> unat lim \<and> (\<exists>rest. rx s = frame m @ rest)"
    using asyncRead_Message asyncRead_frame assms by blast
next
  assume A: "rx s = size_bytes n @ content \<and> lim < n \<and> writable s"
  define notice where "notice = ''Tried to send '' @ show_nat (unat n) @
           '' bytes, which is more than allowed ('' @ show_nat (unat lim) @ '').''"
  let ?s = "s\<lparr>rx := content, data_buffer := overwrite (size_bytes n) (data_buffer s)\<rparr>"
  have "length notice \<le> 1048576" and "notice \<noteq> []"
    using show_nat_size_length [of n] show_nat_size_length [of lim] by (simp_all add: notice_def)
  then have sd: "safeDisconnect (Some notice) ?s = (Inr (), (written (frame notice) ?s)\<lparr>tx_open := False\<rparr>)"
    using A by (intro safeDisconnect_writable) (auto simp: writable_def)
  have "asyncReadMessage lim s = (Inr Dropped, (written (frame notice) ?s)\<lparr>tx_open := False\<rparr>)"
    using A assms sd unfolding notice_def
    by (simp add: asyncReadMessage_def asyncReadHeader_def asio_read_to_buffer_def Let_def overwrite_def
        andthen_def)
  then show "\<exists>b. asyncReadMessage lim s = (Inr Dropped, s\<lparr>rx := content, data_buffer := b, tx_open := False,
         tx := tx s @ frame (''Tried to send '' @ show_nat (unat n) @
           '' bytes, which is more than allowed ('' @ show_nat (unat lim) @ '').'')\<rparr>)"
    using A by (intro exI [of _ "overwrite (size_bytes n) (data_buffer s)"])
      (simp add: notice_def written_def writable_def)
qed

theorem asyncReadMessage_bounded_witness:
  "\<not> (\<exists>s'. asyncReadMessage 4 \<lparr>rx = frame ''hello'', tx = [], tx_open = True, tx_quota = None,
     data_buffer = []\<rparr> = (Inr (Message ''hello''), s'))"
  using asyncReadMessage_bounded [of 4 "\<lparr>rx = frame ''hello'', tx = [], tx_open = True,
      tx_quota = None, data_buffer = []\<rparr>" "''hello''"]
  by (simp add: BUFFER_SIZE_def)

section \<open>What a connection can throw\<close>

text \<open>The errors a connection can cause.\<close>

definition transport_error :: "error \<Rightarrow> bool" where
  "transport_error e \<longleftrightarrow> (\<exists>m. e = System_error m \<or> e = SocketException m)"

lemma asio_read_error: "asio_read n s = (Inl e, s') \<Longrightarrow> transport_error e"
  by (auto simp: asio_read_def transport_error_def split: if_splits)

lemma receive_error: "receive s = (Inl e, s') \<Longrightarrow> transport_error e"
proof (cases rule: getMessageLength_cases [of s])
  case ok
  assume "receive s = (Inl e, s')"
  with ok show ?thesis by (auto simp: receive_def andthen_def dest: asio_read_error)
qed (auto simp: receive_def andthen_def transport_error_def)

lemma receiveToBuffer_error: "receiveToBuffer s = (Inl e, s') \<Longrightarrow> transport_error e"
  using receiveToBuffer_receive [of s] receive_error by (metis fst_conv prod.collapse)

lemma receiveACK_error: "receiveACK s = (Inl e, s') \<Longrightarrow> transport_error e"
  by (auto simp: receiveACK_def andthen_def transport_error_def split: prod.splits sum.splits if_splits
      dest!: receiveToBuffer_error [unfolded transport_error_def])

lemma sendChunk_error: "sendChunk d s = (Inl e, s') \<Longrightarrow> transport_error e"
  by (auto simp: sendChunk_def asio_write_def transport_error_def split: if_splits option.splits)

lemma send_loop_error: "send_loop d n c s = (Inl e, s') \<Longrightarrow> transport_error e"
proof (induction d n c s rule: send_loop.induct)
  case (1 d n c s)
  show ?case
  proof (cases "BUFFER_SIZE \<le> n")
    case True
    obtain r s1 where r: "sendChunk (take (unat BUFFER_SIZE) (drop (unat c) d)) s = (r, s1)" by fastforce
    show ?thesis
    proof (cases r)
      case (Inl e1)
      then show ?thesis using "1.prems" True r
        by (subst (asm) send_loop.simps) (auto dest: sendChunk_error)
    next
      case (Inr u)
      then have "send_loop d (n - BUFFER_SIZE) (c + BUFFER_SIZE) s1 = (Inl e, s')" using "1.prems" True r
        by (subst (asm) send_loop.simps) simp
      then show ?thesis using "1.IH" [OF True r [symmetric] Inr] by simp
    qed
  next
    case False
    then show ?thesis using "1.prems"
      by (subst (asm) send_loop.simps) (auto split: if_splits dest: sendChunk_error)
  qed
qed

lemma send_error: "send d s = (Inl e, s') \<Longrightarrow> transport_error e"
  by (auto simp: send_def dest: send_loop_error)

lemma sendACK_error: "sendACK s = (Inl e, s') \<Longrightarrow> transport_error e"
  by (auto simp: sendACK_def dest: send_error)

lemma transport_alive: "transport_error e \<Longrightarrow> \<not> killed e"
  by (auto simp: transport_error_def)

end
