(* ===== verification/ByteRelay.thy ===== *)
theory ByteRelay
  imports SocketBase
begin

text \<open>
  The transfer loop that the server and the receiving client share: take messages until a declared
  number of bytes has been passed on, cutting the last message.  The locale states what the loop
  needs from its source and its sink; the server's relay (\<open>ServerSession\<close>) and the client's download
  (\<open>ReceiveClient\<close>) interpret it.
\<close>

text \<open>Messages that fit the buffer, as every chunk does.\<close>

definition short_messages :: "bytes list \<Rightarrow> bool" where
  "short_messages ms \<longleftrightarrow> list_all (\<lambda>m. length m \<le> unat BUFFER_SIZE) ms"

lemma short_messages_simps [simp]:
  "short_messages []" "short_messages (m # ms) \<longleftrightarrow> length m \<le> 1048576 \<and> short_messages ms"
  "short_messages (ms @ ns) \<longleftrightarrow> short_messages ms \<and> short_messages ns"
  by (auto simp: short_messages_def)

lemma chunks_short: "short_messages (chunks d)"
  using chunk_bounds by (auto simp: short_messages_def list_all_iff)

locale byte_relay =
  fixes loop :: "size_t \<Rightarrow> size_t \<Rightarrow> ('s, unit) prog"
    and next_message :: "('s, bytes) prog"
    and emit :: "size_t \<Rightarrow> size_t \<Rightarrow> bytes \<Rightarrow> ('s, unit) prog"
    and inbox :: "'s \<Rightarrow> bytes list \<Rightarrow> bool"
    and sunk :: "'s \<Rightarrow> bytes \<Rightarrow> bool"
  assumes loop_unfold: "loop got expected s =
      (if got < expected then
         andthen next_message (\<lambda>data.
           let write_size = min (expected - got) (of_nat (length data)) in
           andthen (emit (got + write_size) expected (take (unat write_size) data)) (\<lambda>_.
             loop (got + write_size) expected)) s
       else (Inr (), s))"
    and inbox_bound: "inbox s (m # ms) \<Longrightarrow> length m \<le> unat BUFFER_SIZE"
    and next_ok: "inbox s (m # ms) \<Longrightarrow> sunk s out \<Longrightarrow>
      \<exists>s'. next_message s = (Inr m, s') \<and> inbox s' ms \<and> sunk s' out"
    and emit_ok: "inbox s ms \<Longrightarrow> sunk s out \<Longrightarrow> length d \<le> unat BUFFER_SIZE \<Longrightarrow>
      \<exists>s'. emit got expected d s = (Inr (), s') \<and> inbox s' ms \<and> sunk s' (out @ d)"
begin

text \<open>With enough bytes coming in, the loop ends and has passed on exactly the missing ones.\<close>

lemma loop_transfers:
  assumes "inbox s ms" and "sunk s out" and "got \<le> expected"
    and "unat expected - unat got \<le> length (concat ms)"
  shows "\<exists>s' k. loop got expected s = (Inr (), s') \<and> inbox s' (drop k ms) \<and>
    sunk s' (out @ take (unat expected - unat got) (concat ms))"
  using assms
proof (induction ms arbitrary: s out got)
  case Nil
  then have "\<not> got < expected" by (simp add: word_less_nat_alt)
  then have "loop got expected s = (Inr (), s)" by (subst loop_unfold) simp
  with Nil show ?case by (intro exI [of _ s] exI [of _ 0]) simp
next
  case (Cons m ms)
  show ?case
  proof (cases "got < expected")
    case False
    then have "loop got expected s = (Inr (), s)" by (subst loop_unfold) simp
    with False Cons.prems show ?thesis
      by (intro exI [of _ s] exI [of _ 0]) (simp add: word_less_nat_alt)
  next
    case True
    let ?left = "unat expected - unat got"
    let ?w = "min (expected - got) (of_nat (length m)) :: size_t"
    have lm: "length m \<le> unat BUFFER_SIZE" using inbox_bound [OF Cons.prems(1)] .
    have "unat (expected - got) = ?left" using Cons.prems(3) by (simp add: unat_sub)
    moreover have "unat (of_nat (length m) :: size_t) = length m"
      using lm by (intro unat_of_nat_size) simp
    ultimately have w: "unat ?w = min ?left (length m)" by (auto simp: min_def word_le_nat_alt)
    have "unat got + unat ?w \<le> unat expected"
      using w True by (simp add: word_less_nat_alt)
    moreover have "unat expected < 2 ^ 64" using unsigned_less [of expected, where ?'a = nat] by simp
    ultimately have tw: "unat (got + ?w) = unat got + unat ?w"
      by (intro unat_add_lem [THEN iffD1]) simp
    have le: "got + ?w \<le> expected"
      using tw w True by (simp add: word_le_nat_alt word_less_nat_alt)
    obtain s1 where s1: "next_message s = (Inr m, s1)" "inbox s1 ms" "sunk s1 out"
      using next_ok [OF Cons.prems(1,2)] by blast
    have "length (take (unat ?w) m) \<le> unat BUFFER_SIZE" using lm by simp
    then obtain s2 where s2: "emit (got + ?w) expected (take (unat ?w) m) s1 = (Inr (), s2)"
      "inbox s2 ms" "sunk s2 (out @ take (unat ?w) m)"
      using emit_ok [OF s1(2,3)] by blast
    have rest: "unat expected - unat (got + ?w) = ?left - length m"
      unfolding tw w by simp
    have "unat expected - unat (got + ?w) \<le> length (concat ms)"
      using Cons.prems(4) unfolding rest by simp
    then obtain s' k where s': "loop (got + ?w) expected s2 = (Inr (), s')" "inbox s' (drop k ms)"
      "sunk s' ((out @ take (unat ?w) m) @ take (unat expected - unat (got + ?w)) (concat ms))"
      using Cons.IH [OF s2(2,3) le] by blast
    have "take (unat ?w) m @ take (unat expected - unat (got + ?w)) (concat ms) =
        take ?left (concat (m # ms))"
      unfolding rest w by (simp add: min_def)
    with s' have "sunk s' (out @ take ?left (concat (m # ms)))" by simp
    moreover have "loop got expected s = (Inr (), s')"
      using True s1(1) s2(1) s'(1) by (subst loop_unfold) (simp add: andthen_def Let_def)
    ultimately show ?thesis using s'(2) by (intro exI [of _ s'] exI [of _ "Suc k"]) simp
  qed
qed

end

end
