(* ===== verification/Streams.thy ===== *)
theory Streams
  imports Prelude
begin

text \<open>
  \<open>std::istream\<close> and \<open>std::ostream\<close> as the program uses them: \<open>read\<close> with \<open>gcount\<close>, the failure
  state that a short read leaves behind, \<open>tellg\<close>, and \<open>write\<close>, \<open>tellp\<close>, \<open>seekp\<close> on an output
  stream.  A short \<open>read\<close> sets end-of-file and failure together, so one flag stands for both.
\<close>

record istream =
  ibuf :: bytes
  ipos :: nat
  ifail :: bool

definition istream_of :: "bytes \<Rightarrow> istream" where
  "istream_of d = \<lparr>ibuf = d, ipos = 0, ifail = False\<rparr>"

definition istream_read :: "nat \<Rightarrow> istream \<Rightarrow> bytes \<times> istream" where
  "istream_read n s =
     (if ifail s then ([], s)
      else let got = take n (drop (ipos s) (ibuf s))
           in (got, s\<lparr>ipos := ipos s + length got, ifail := length got < n\<rparr>))"

definition tellg :: "istream \<Rightarrow> nat option" where
  "tellg s = (if ifail s then None else Some (ipos s))"

text \<open>What is still unread, and how much work a reading loop has left.\<close>

definition unread :: "istream \<Rightarrow> bytes" where
  "unread s = drop (ipos s) (ibuf s)"

definition reads_left :: "istream \<Rightarrow> nat" where
  "reads_left s = (if ifail s then 0 else Suc (length (unread s)))"

lemma unread_istream_of [simp]: "unread (istream_of d) = d" "ifail (istream_of d) = False"
    "ibuf (istream_of d) = d" "ipos (istream_of d) = 0"
  by (simp_all add: unread_def istream_of_def)

lemma istream_read_full:
  "\<not> ifail s \<Longrightarrow> n \<le> length (unread s) \<Longrightarrow>
   istream_read n s = (take n (unread s), s\<lparr>ipos := ipos s + n\<rparr>)"
  by (simp add: istream_read_def unread_def Let_def min_def)

lemma istream_read_short:
  "\<not> ifail s \<Longrightarrow> length (unread s) < n \<Longrightarrow>
   istream_read n s = (unread s, s\<lparr>ipos := ipos s + length (unread s), ifail := True\<rparr>)"
  by (simp add: istream_read_def unread_def Let_def)

lemma istream_read_failed: "ifail s \<Longrightarrow> istream_read n s = ([], s)"
  by (simp add: istream_read_def)

lemma unread_advance [simp]: "unread (s\<lparr>ipos := ipos s + n\<rparr>) = drop n (unread s)"
  by (simp add: unread_def add.commute)

lemma ibuf_read [simp]: "ibuf (snd (istream_read n s)) = ibuf s"
  by (simp add: istream_read_def Let_def)

lemma length_got: "length (fst (istream_read n s)) \<le> n"
  by (simp add: istream_read_def Let_def)

lemma got_prefix: "fst (istream_read n s) @ unread (snd (istream_read n s)) = unread s \<or> ifail s"
  by (auto simp: istream_read_def unread_def Let_def) (metis append_take_drop_id drop_drop length_take take_drop add.commute min.commute length_drop drop_eq_Nil append_Nil2 nat_le_linear take_all min_def)

lemma reads_left_decreases:
  assumes "0 < n" and "\<not> ifail s"
  shows "reads_left (snd (istream_read n s)) < reads_left s"
proof (cases "n \<le> length (unread s)")
  case True
  with assms have "istream_read n s = (take n (unread s), s\<lparr>ipos := ipos s + n\<rparr>)"
    by (simp add: istream_read_full)
  with assms True show ?thesis by (simp add: reads_left_def)
next
  case False
  with assms have "istream_read n s = (unread s, s\<lparr>ipos := ipos s + length (unread s), ifail := True\<rparr>)"
    by (simp add: istream_read_short)
  with assms show ?thesis by (simp add: reads_left_def)
qed

section \<open>Output\<close>

record ostream =
  obuf :: bytes
  opos :: nat

definition ostream_empty :: ostream where
  "ostream_empty = \<lparr>obuf = [], opos = 0\<rparr>"

text \<open>Writing overwrites from the position on and extends the stream where it goes past its end.\<close>

definition ostream_write :: "bytes \<Rightarrow> ostream \<Rightarrow> ostream" where
  "ostream_write d s =
     s\<lparr>obuf := take (opos s) (obuf s) @ d @ drop (opos s + length d) (obuf s), opos := opos s + length d\<rparr>"

definition tellp :: "ostream \<Rightarrow> nat" where
  "tellp s = opos s"

definition seekp :: "nat \<Rightarrow> ostream \<Rightarrow> ostream" where
  "seekp p s = s\<lparr>opos := p\<rparr>"

definition seekp_end :: "ostream \<Rightarrow> ostream" where
  "seekp_end s = s\<lparr>opos := length (obuf s)\<rparr>"

definition at_end :: "ostream \<Rightarrow> bool" where
  "at_end s \<longleftrightarrow> opos s = length (obuf s)"

lemma ostream_write_end:
  "at_end s \<Longrightarrow> ostream_write d s = \<lparr>obuf = obuf s @ d, opos = length (obuf s @ d), \<dots> = ostream.more s\<rparr>"
  by (cases s) (simp add: ostream_write_def at_end_def)

lemma at_end_empty [simp]: "at_end ostream_empty" "obuf ostream_empty = []"
  by (simp_all add: at_end_def ostream_empty_def)

end
