(* ===== verification/FileSystem.thy ===== *)
theory FileSystem
  imports Prelude "HOL-Library.AList"
begin

text \<open>
  The part of \<open>std::filesystem\<close> and of the file streams the program uses: POSIX path strings,
  a directory tree with look-up, creation and removal, input streams with a position and a failure
  state, and output streams that can be repositioned.

  A directory lists its entries in the order in which \<open>directory_iterator\<close> visits them.  Paths are
  resolved component by component through directories; links and permissions are not modelled.  What is
  neither file nor directory is a \<open>Special\<close>, a node like a socket that cannot be opened as a file;
  devices and pipes are not modelled.
\<close>

section \<open>Paths\<close>

fun split_slash :: "string \<Rightarrow> string list" where
  "split_slash [] = [[]]"
| "split_slash (c # cs) =
     (if c = CHR ''/'' then [] # split_slash cs
      else case split_slash cs of [] \<Rightarrow> [[c]] | w # ws \<Rightarrow> (c # w) # ws)"

definition is_absolute :: "string \<Rightarrow> bool" where
  "is_absolute p \<longleftrightarrow> (case p of [] \<Rightarrow> False | c # _ \<Rightarrow> c = CHR ''/'')"

text \<open>\<open>path::filename\<close>: what follows the last slash.\<close>

definition filename :: "string \<Rightarrow> string" where
  "filename p = last (split_slash p)"

text \<open>\<open>path::operator/\<close>: an absolute right operand replaces the left one.\<close>

definition path_append :: "string \<Rightarrow> string \<Rightarrow> string" where
  "path_append p q =
     (if is_absolute q then q
      else if filename p \<noteq> [] then p @ ''/'' @ q
      else p @ q)"

definition valid_name :: "string \<Rightarrow> bool" where
  "valid_name n \<longleftrightarrow> n \<noteq> [] \<and> n \<noteq> ''.'' \<and> n \<noteq> ''..'' \<and> CHR ''/'' \<notin> set n"

lemma split_slash_nonempty [simp]: "split_slash s \<noteq> []"
  by (cases s) (auto split: list.splits)

lemma split_slash_name: "CHR ''/'' \<notin> set n \<Longrightarrow> split_slash n = [n]"
  by (induction n) auto

lemma split_slash_append:
  "CHR ''/'' \<notin> set n \<Longrightarrow> split_slash (p @ CHR ''/'' # n) = split_slash p @ [n]"
  by (induction p) (auto simp: split_slash_name split: list.splits)

lemma split_slash_append_tail:
  "CHR ''/'' \<notin> set n \<Longrightarrow> split_slash (p @ n) = butlast (split_slash p) @ [last (split_slash p) @ n]"
proof (induction p)
  case Nil
  then show ?case by (simp add: split_slash_name)
next
  case (Cons c p)
  obtain w ws where "split_slash p = w # ws" by (cases "split_slash p") auto
  with Cons show ?case by auto
qed

lemma filename_append: "CHR ''/'' \<notin> set n \<Longrightarrow> filename (p @ CHR ''/'' # n) = n"
  by (simp add: filename_def split_slash_append)

lemma filename_name: "CHR ''/'' \<notin> set n \<Longrightarrow> filename n = n"
  by (simp add: filename_def split_slash_name)

lemma filename_no_slash: "CHR ''/'' \<notin> set (filename p)"
proof (induction p)
  case Nil
  then show ?case by (simp add: filename_def)
next
  case (Cons c p)
  then show ?case by (cases "split_slash p") (auto simp: filename_def split: if_splits)
qed

lemma valid_name_absolute [simp]: "valid_name n \<Longrightarrow> \<not> is_absolute n"
  by (auto simp: valid_name_def is_absolute_def split: list.splits)

lemma filename_path_append: "valid_name n \<Longrightarrow> filename (path_append p n) = n"
  by (auto simp: path_append_def filename_append filename_def split_slash_append_tail
      split_slash_append valid_name_def)

section \<open>The directory tree\<close>

datatype node = File bytes | Dir "(string \<times> node) list" | Special

fun lookup :: "node \<Rightarrow> string list \<Rightarrow> node option" where
  "lookup t [] = Some t"
| "lookup (Dir es) (x # xs) = (case map_of es x of None \<Rightarrow> None | Some n \<Rightarrow> lookup n xs)"
| "lookup _ (x # xs) = None"

text \<open>Replace what is at a path, appending a new entry to its directory.\<close>

fun put :: "string list \<Rightarrow> node \<Rightarrow> node \<Rightarrow> node" where
  "put [] new t = new"
| "put (x # xs) new (Dir es) =
     Dir (AList.update x (put xs new (case map_of es x of None \<Rightarrow> Dir [] | Some n \<Rightarrow> n)) es)"
| "put (x # xs) new t = t"

fun erase :: "string list \<Rightarrow> node \<Rightarrow> node" where
  "erase [] t = t"
| "erase [x] (Dir es) = Dir (AList.delete x es)"
| "erase (x # xs) (Dir es) =
     (case map_of es x of None \<Rightarrow> Dir es | Some n \<Rightarrow> Dir (AList.update x (erase xs n) es))"
| "erase (x # xs) t = t"

fun is_dir :: "node option \<Rightarrow> bool" where
  "is_dir (Some (Dir _)) = True"
| "is_dir _ = False"

lemma is_dir_iff: "is_dir n \<longleftrightarrow> (\<exists>es. n = Some (Dir es))"
  by (cases n rule: is_dir.cases) auto

fun is_file :: "node option \<Rightarrow> bool" where
  "is_file (Some (File _)) = True"
| "is_file _ = False"

lemma lookup_append: "lookup t (xs @ ys) = (case lookup t xs of None \<Rightarrow> None | Some n \<Rightarrow> lookup n ys)"
  by (induction t xs rule: lookup.induct) (auto split: option.splits)

lemma lookup_put_same: "is_dir (lookup t xs) \<Longrightarrow> lookup (put (xs @ [x]) n t) (xs @ [x]) = Some n"
proof (induction xs arbitrary: t)
  case Nil
  then show ?case by (cases t) (auto simp: update_conv')
next
  case (Cons y xs)
  then show ?case by (cases t) (auto simp: update_conv' split: option.splits)
qed

lemma lookup_put_prefix:
  "is_dir (lookup t xs) \<Longrightarrow> is_dir (lookup (put (xs @ x # ys) n t) xs)"
proof (induction xs arbitrary: t)
  case Nil
  then show ?case by (cases t) auto
next
  case (Cons y xs)
  then show ?case by (cases t) (auto simp: update_conv' split: option.splits)
qed

text \<open>Two paths diverge where neither continues the other.\<close>

definition diverge :: "string list \<Rightarrow> string list \<Rightarrow> bool" where
  "diverge p q \<longleftrightarrow> (\<exists>r x y p' q'. p = r @ x # p' \<and> q = r @ y # q' \<and> x \<noteq> y)"

lemma lookup_put_other: "is_dir (lookup t (butlast p)) \<Longrightarrow> diverge p q \<Longrightarrow> lookup (put p n t) q = lookup t q"
proof -
  assume d: "is_dir (lookup t (butlast p))" and "diverge p q"
  then obtain r x y p' q' where p: "p = r @ x # p'" and q: "q = r @ y # q'" and xy: "x \<noteq> y"
    by (auto simp: diverge_def)
  have "lookup (put (r @ x # p') n t) (r @ y # q') = lookup t (r @ y # q')"
    if "is_dir (lookup t (butlast (r @ x # p')))" for t
    using that
  proof (induction r arbitrary: t)
    case Nil
    then show ?case using xy by (cases t) (auto simp: update_conv')
  next
    case (Cons z r)
    then show ?case
      by (cases t) (auto simp: update_conv' split: option.splits if_splits)
  qed
  with d p q show ?thesis by simp
qed

text \<open>Adding a file and filling a directory, seen from above.\<close>

lemma update_new: "x \<notin> fst ` set es \<Longrightarrow> AList.update x n es = es @ [(x, n)]"
  by (induction es) auto

lemma map_of_new: "x \<notin> fst ` set es \<Longrightarrow> map_of es x = None"
  by (simp add: map_of_eq_None_iff)

lemma put_same: "is_dir (lookup t xs) \<Longrightarrow> put (xs @ [x]) a (put (xs @ [x]) b t) = put (xs @ [x]) a t"
proof (induction xs arbitrary: t)
  case Nil
  then show ?case by (cases t) auto
next
  case (Cons y xs)
  then show ?case by (cases t) (auto simp: update_conv' split: option.splits)
qed

lemma put_child:
  assumes "lookup t p = Some (Dir es)" and "x \<notin> fst ` set es"
  shows "put (p @ [x]) n t = put p (Dir (es @ [(x, n)])) t"
  using assms
proof (induction p arbitrary: t)
  case Nil
  then show ?case by (simp add: update_new)
next
  case (Cons y p)
  then show ?case by (cases t) (auto split: option.splits)
qed

section \<open>The host\<close>

text \<open>What the client sees of its machine; the free space is asked of the operating system.\<close>

record host =
  root :: node
  cwd :: "string list"
  temp_dir :: string
  free_space :: "string \<Rightarrow> size_t"

text \<open>Resolution: every component but the last must be a directory.\<close>

fun walk :: "node \<Rightarrow> string list \<Rightarrow> string list \<Rightarrow> string list option" where
  "walk t cur [] = Some cur"
| "walk t cur (c # cs) =
     (if is_dir (lookup t cur) then
        (if c = [] \<or> c = ''.'' then walk t cur cs
         else if c = ''..'' then walk t (butlast cur) cs
         else walk t (cur @ [c]) cs)
      else None)"

definition resolve :: "host \<Rightarrow> string \<Rightarrow> string list option" where
  "resolve h p =
     (if p = [] then None
      else walk (root h) (if is_absolute p then [] else cwd h) (split_slash p))"

definition stat :: "host \<Rightarrow> string \<Rightarrow> node option" where
  "stat h p = (case resolve h p of None \<Rightarrow> None | Some q \<Rightarrow> lookup (root h) q)"

definition fs_exists :: "host \<Rightarrow> string \<Rightarrow> bool" where
  "fs_exists h p \<longleftrightarrow> stat h p \<noteq> None"

definition is_directory_at :: "host \<Rightarrow> string \<Rightarrow> bool" where
  "is_directory_at h p \<longleftrightarrow> is_dir (stat h p)"

text \<open>\<open>file_size\<close> of anything but a regular file throws.\<close>

definition file_size :: "host \<Rightarrow> string \<Rightarrow> error + size_t" where
  "file_size h p =
     (case stat h p of
        Some (File d) \<Rightarrow> Inr (of_nat (length d))
      | _ \<Rightarrow> Inl (Filesystem_error ''cannot get file size''))"

definition current_path :: "host \<Rightarrow> string" where
  "current_path h = (if cwd h = [] then ''/'' else concat (map (\<lambda>c. CHR ''/'' # c) (cwd h)))"

text \<open>Opening an output file truncates it or creates it in an existing directory.\<close>

definition open_out :: "string \<Rightarrow> host \<Rightarrow> (host \<times> string list) option" where
  "open_out p h =
     (case resolve h p of
        None \<Rightarrow> None
      | Some q \<Rightarrow>
          if q \<noteq> [] \<and> is_dir (lookup (root h) (butlast q)) \<and>
             (lookup (root h) q = None \<or> is_file (lookup (root h) q))
          then Some (h\<lparr>root := put q (File []) (root h)\<rparr>, q) else None)"

definition write_file :: "string list \<Rightarrow> bytes \<Rightarrow> host \<Rightarrow> host" where
  "write_file q d h = h\<lparr>root := put q (File d) (root h)\<rparr>"

definition append_file :: "string list \<Rightarrow> bytes \<Rightarrow> host \<Rightarrow> host" where
  "append_file q d h =
     (case lookup (root h) q of Some (File old) \<Rightarrow> write_file q (old @ d) h | _ \<Rightarrow> h)"

definition open_in :: "host \<Rightarrow> string \<Rightarrow> bytes option" where
  "open_in h p = (case stat h p of Some (File d) \<Rightarrow> Some d | _ \<Rightarrow> None)"

text \<open>\<open>create_directories\<close> makes what is missing and fails on a component that is not a directory.\<close>

fun make_dirs :: "string list \<Rightarrow> string list \<Rightarrow> node \<Rightarrow> (error + unit) \<times> node" where
  "make_dirs cur [] t = (Inr (), t)"
| "make_dirs cur (c # cs) t =
     (if c = [] \<or> c = ''.'' then make_dirs cur cs t
      else if c = ''..'' then make_dirs (butlast cur) cs t
      else case lookup t (cur @ [c]) of
          None \<Rightarrow> make_dirs (cur @ [c]) cs (put (cur @ [c]) (Dir []) t)
        | Some (Dir _) \<Rightarrow> make_dirs (cur @ [c]) cs t
        | Some _ \<Rightarrow> (Inl (Filesystem_error ''cannot create directories''), t))"

definition create_directories :: "string \<Rightarrow> (host, unit) prog" where
  "create_directories p h =
     (if p = [] then (Inl (Filesystem_error ''cannot create directories''), h)
      else case make_dirs (if is_absolute p then [] else cwd h) (split_slash p) (root h) of
        (r, t) \<Rightarrow> (r, h\<lparr>root := t\<rparr>))"

definition remove_all :: "string \<Rightarrow> host \<Rightarrow> host" where
  "remove_all p h =
     (case resolve h p of None \<Rightarrow> h | Some q \<Rightarrow> h\<lparr>root := erase q (root h)\<rparr>)"

text \<open>\<open>remove\<close> takes a file or an empty directory; removing what is not there is no error.\<close>

definition fs_remove :: "string \<Rightarrow> (host, unit) prog" where
  "fs_remove p h =
     (case resolve h p of
        None \<Rightarrow> (Inr (), h)
      | Some q \<Rightarrow>
          case lookup (root h) q of
            Some (Dir (e # es)) \<Rightarrow> (Inl (Filesystem_error ''cannot remove''), h)
          | _ \<Rightarrow> (Inr (), h\<lparr>root := erase q (root h)\<rparr>))"

text \<open>Resolution of the paths the program builds.\<close>

lemma walk_append:
  "walk t cur (xs @ ys) = (case walk t cur xs of None \<Rightarrow> None | Some c \<Rightarrow> walk t c ys)"
  by (induction t cur xs rule: walk.induct) auto

lemma is_absolute_append: "p \<noteq> [] \<Longrightarrow> is_absolute (p @ q) = is_absolute p"
  by (cases p) (auto simp: is_absolute_def)

lemma resolve_append:
  assumes "valid_name n" and "resolve h p = Some q" and "is_dir (lookup (root h) q)"
  shows "resolve h (path_append p n) = Some (q @ [n])"
proof -
  from assms(2) have p: "p \<noteq> []"
    and w: "walk (root h) (if is_absolute p then [] else cwd h) (split_slash p) = Some q"
    by (auto simp: resolve_def split: if_splits)
  have n: "n \<noteq> []" "n \<noteq> ''.''" "n \<noteq> ''..''" "CHR ''/'' \<notin> set n"
    using assms(1) by (auto simp: valid_name_def)
  show ?thesis
  proof (cases "filename p = []")
    case False
    then have "path_append p n = p @ CHR ''/'' # n"
      using assms(1) by (simp add: path_append_def)
    then show ?thesis using p w n assms(3)
      by (simp add: resolve_def walk_append is_absolute_append split_slash_append)
  next
    case True
    then have l: "last (split_slash p) = []" by (simp add: filename_def)
    have pa: "path_append p n = p @ n" using True assms(1) by (simp add: path_append_def)
    have sn: "split_slash (p @ n) = butlast (split_slash p) @ [n]"
      using n l by (simp add: split_slash_append_tail)
    have "split_slash p = butlast (split_slash p) @ [[]]"
      using l append_butlast_last_id [of "split_slash p"] by simp
    with w have "walk (root h) (if is_absolute p then [] else cwd h) (butlast (split_slash p) @ [[]]) = Some q"
      by simp
    then have "walk (root h) (if is_absolute p then [] else cwd h) (butlast (split_slash p)) = Some q"
      by (auto simp: walk_append split: option.splits if_splits)
    then show ?thesis using p n assms(3)
      by (simp add: pa sn resolve_def walk_append is_absolute_append)
  qed
qed

section \<open>Adding to the tree\<close>

text \<open>Directories stay directories when something new is put below one of them.\<close>

lemma path_cases:
  obtains (above) y ys where "p = x @ y # ys" | (apart) "diverge p x" | (below) z where "x = p @ z"
proof (induction p arbitrary: x thesis)
  case Nil
  then show ?case by simp
next
  case (Cons a p)
  show ?case
  proof (cases x)
    case Nil
    then show ?thesis using Cons.prems(1) [of a p] by simp
  next
    case x: (Cons b xs)
    show ?thesis
    proof (cases "a = b")
      case False
      then have "a # p = [] @ a # p \<and> x = [] @ b # xs \<and> a \<noteq> b" using x by simp
      then have "diverge (a # p) x" unfolding diverge_def by blast
      then show ?thesis by (rule Cons.prems(2))
    next
      case True
      show ?thesis
      proof (rule Cons.IH [of xs])
        fix y ys assume "p = xs @ y # ys"
        then show thesis using Cons.prems(1) [of y ys] True x by simp
      next
        assume "diverge p xs"
        then obtain r c d p' q' where "p = r @ c # p'" "xs = r @ d # q'" "c \<noteq> d" by (auto simp: diverge_def)
        then have "a # p = (b # r) @ c # p' \<and> x = (b # r) @ d # q' \<and> c \<noteq> d" using True x by simp
        then have "diverge (a # p) x" unfolding diverge_def by blast
        then show thesis by (rule Cons.prems(2))
      next
        fix z assume "xs = p @ z"
        then show thesis using Cons.prems(3) [of z] True x by simp
      qed
    qed
  qed
qed

lemma put_keeps_dirs:
  assumes "is_dir (lookup t q)" and "lookup t (q @ [n]) = None" and "is_dir (lookup t x)"
  shows "is_dir (lookup (put (q @ [n]) new t) x)"
proof (cases rule: path_cases [of "q @ [n]" x])
  case (above y ys)
  then show ?thesis using assms(3) by (simp add: lookup_put_prefix)
next
  case apart
  then have "lookup (put (q @ [n]) new t) x = lookup t x" using assms(1) by (intro lookup_put_other) simp_all
  then show ?thesis using assms(3) by simp
next
  case (below z)
  then have "lookup t x = None" unfolding below lookup_append [of t "q @ [n]" z] assms(2) by simp
  then show ?thesis using assms(3) by simp
qed

lemma walk_mono:
  assumes "\<And>x. is_dir (lookup t x) \<Longrightarrow> is_dir (lookup t' x)"
  shows "walk t cur cs = Some q \<Longrightarrow> walk t' cur cs = Some q"
  by (induction cs arbitrary: cur) (auto dest: assms split: if_splits)

lemma resolve_put:
  assumes "resolve h p = Some r" and "is_dir (lookup (root h) q)" and "lookup (root h) (q @ [n]) = None"
  shows "resolve (h\<lparr>root := put (q @ [n]) new (root h)\<rparr>) p = Some r"
  using assms walk_mono [of "root h" "put (q @ [n]) new (root h)"] put_keeps_dirs [OF assms(2,3)]
  by (auto simp: resolve_def split: if_splits)

text \<open>Creating a directory or a file that is not there, in a directory that is.\<close>

lemma make_dirs_walk:
  "walk t cur cs = Some q \<Longrightarrow> is_dir (lookup t q) \<Longrightarrow>
   is_dir (lookup t cur) \<and> make_dirs cur (cs @ ds) t = make_dirs q ds t"
proof (induction t cur cs rule: walk.induct)
  case (2 t cur c cs)
  then show ?case
    by (auto split: if_splits option.splits node.splits simp: is_dir_iff)
qed simp

lemma split_path_append:
  assumes "valid_name n" and "p \<noteq> []"
  shows "\<exists>cs. split_slash (path_append p n) = cs @ [n] \<and>
    (\<forall>t cur q. walk t cur (split_slash p) = Some q \<longrightarrow> walk t cur cs = Some q)"
proof (cases "filename p = []")
  case False
  then have "path_append p n = p @ CHR ''/'' # n" using assms(1) by (simp add: path_append_def)
  then show ?thesis using assms(1)
    by (intro exI [of _ "split_slash p"]) (simp add: split_slash_append valid_name_def)
next
  case True
  then have l: "last (split_slash p) = []" by (simp add: filename_def)
  have "path_append p n = p @ n" using True assms(1) by (simp add: path_append_def)
  then have sn: "split_slash (path_append p n) = butlast (split_slash p) @ [n]"
    using assms(1) l by (simp add: split_slash_append_tail valid_name_def)
  have last: "split_slash p = butlast (split_slash p) @ [[]]"
    using l append_butlast_last_id [of "split_slash p"] by simp
  obtain cs where cs: "split_slash p = cs @ [[]]" "split_slash (path_append p n) = cs @ [n]"
    by (rule that [OF last sn])
  have "walk t cur cs = Some q" if "walk t cur (split_slash p) = Some q" for t cur q
  proof (cases "walk t cur cs")
    case None
    with that show ?thesis unfolding cs(1) by (simp add: walk_append)
  next
    case (Some c)
    with that show ?thesis unfolding cs(1) by (simp add: walk_append split: if_splits)
  qed
  with cs(2) show ?thesis by blast
qed

lemma path_append_start:
  assumes "valid_name n" and "p \<noteq> []"
  shows "path_append p n \<noteq> [] \<and> is_absolute (path_append p n) = is_absolute p"
  using assms by (auto simp: path_append_def is_absolute_append)

lemma create_child:
  assumes "valid_name n" and "resolve h p = Some q" and "lookup (root h) q = Some (Dir es)"
    and "n \<notin> fst ` set es"
  shows "create_directories (path_append p n) h = (Inr (), h\<lparr>root := put (q @ [n]) (Dir []) (root h)\<rparr>)"
proof -
  let ?cur = "if is_absolute p then [] else cwd h"
  have p: "p \<noteq> []" and w: "walk (root h) ?cur (split_slash p) = Some q"
    using assms(2) by (auto simp: resolve_def split: if_splits)
  from split_path_append [OF assms(1) p]
  obtain cs where cs: "split_slash (path_append p n) = cs @ [n]" "walk (root h) ?cur cs = Some q"
    using w by blast
  have "lookup (root h) (q @ [n]) = None" using assms(3,4) by (simp add: lookup_append map_of_new)
  then have "make_dirs q [n] (root h) = (Inr (), put (q @ [n]) (Dir []) (root h))"
    using assms(1) by (simp add: valid_name_def)
  then have "make_dirs ?cur (cs @ [n]) (root h) = (Inr (), put (q @ [n]) (Dir []) (root h))"
    using make_dirs_walk [OF cs(2), of "[n]"] assms(3) by simp
  then show ?thesis using path_append_start [OF assms(1) p] cs(1) by (simp add: create_directories_def)
qed

lemma open_out_child:
  assumes "valid_name n" and "resolve h p = Some q" and "lookup (root h) q = Some (Dir es)"
    and "n \<notin> fst ` set es"
  shows "open_out (path_append p n) h = Some (h\<lparr>root := put (q @ [n]) (File []) (root h)\<rparr>, q @ [n])"
  using resolve_append [OF assms(1,2)] assms(3,4)
  by (simp add: open_out_def lookup_append map_of_new)

lemma filename_suffix: "filename t \<noteq> [] \<Longrightarrow> filename (s @ t) \<noteq> []"
proof (induction s)
  case (Cons c s)
  then show ?case by (cases "split_slash (s @ t)") (auto simp: filename_def split: if_splits)
qed simp

text \<open>A path built from proper names.\<close>

definition relative_to :: "string \<Rightarrow> bool" where
  "relative_to rel \<longleftrightarrow> \<not> is_absolute rel \<and> rel \<noteq> [] \<and> filename rel \<noteq> []"

lemma relative_to_append:
  assumes "relative_to rel" and "valid_name n"
  shows "relative_to (path_append rel n)"
    and "path_append directory (path_append rel n) = path_append (path_append directory rel) n"
proof -
  show "relative_to (path_append rel n)"
    using assms path_append_start [of n rel] filename_path_append [of n rel]
    by (auto simp: relative_to_def valid_name_def)
  have "filename (path_append directory rel) \<noteq> []"
    using assms(1) filename_suffix [of rel "directory @ ''/''"] filename_suffix [of rel directory]
    by (auto simp: path_append_def relative_to_def)
  moreover have "\<not> is_absolute (rel @ CHR ''/'' # n)"
    using assms(1) by (simp add: relative_to_def is_absolute_append)
  ultimately show "path_append directory (path_append rel n) = path_append (path_append directory rel) n"
    using assms by (simp add: path_append_def relative_to_def)
qed

lemma relative_to_name: "valid_name n \<Longrightarrow> relative_to n"
  by (auto simp: relative_to_def valid_name_def filename_name)

lemma put_put: "put p a (put p b t) = put p a t"
proof (induction p arbitrary: t)
  case (Cons x p)
  then show ?case by (cases t) (auto split: option.splits simp: update_conv')
qed simp

lemma put_lookup: "lookup t p = Some n \<Longrightarrow> put p n t = t"
proof (induction p arbitrary: t)
  case (Cons x p)
  then show ?case by (cases t) (auto split: option.splits simp: update_triv)
qed simp

lemma lookup_put: "lookup t p \<noteq> None \<Longrightarrow> lookup (put p n t) p = Some n"
proof (induction p arbitrary: t)
  case (Cons x p)
  then show ?case by (cases t) (auto split: option.splits simp: update_conv')
qed simp

lemma add_child:
  assumes "resolve h p = Some q" and "lookup (root h) q = Some (Dir es)" and "n \<notin> fst ` set es"
  shows "put (q @ [n]) x (root h) = put q (Dir (es @ [(n, x)])) (root h)"
    and "lookup (put (q @ [n]) x (root h)) q = Some (Dir (es @ [(n, x)]))"
    and "resolve (h\<lparr>root := put (q @ [n]) x (root h)\<rparr>) p = Some q"
proof -
  show 1: "put (q @ [n]) x (root h) = put q (Dir (es @ [(n, x)])) (root h)"
    using assms(2,3) by (rule put_child)
  show "lookup (put (q @ [n]) x (root h)) q = Some (Dir (es @ [(n, x)]))"
    unfolding 1 using assms(2) by (simp add: lookup_put)
  show "resolve (h\<lparr>root := put (q @ [n]) x (root h)\<rparr>) p = Some q"
    using assms by (intro resolve_put) (simp_all add: lookup_append map_of_new)
qed

section \<open>Removing what was made\<close>

lemma erase_put:
  "is_dir (lookup t p) \<Longrightarrow> lookup t (p @ [n]) = None \<Longrightarrow> erase (p @ [n]) (put (p @ [n]) x t) = t"
proof (induction p arbitrary: t)
  case Nil
  then obtain es where t: "t = Dir es" by (auto simp: is_dir_iff)
  with Nil have "map_of es n = None" by (simp split: option.splits)
  then have "n \<notin> fst ` set es" by (simp add: map_of_eq_None_iff)
  then show ?case by (simp add: t delete_update_same delete_idem)
next
  case (Cons y p)
  then obtain es where t: "t = Dir es" by (cases t) auto
  with Cons.prems obtain m where m: "map_of es y = Some m" by (auto split: option.splits)
  obtain z zs where p: "p @ [n] = z # zs" by (cases "p @ [n]") auto
  have "erase (p @ [n]) (put (p @ [n]) x m) = m" using Cons t m by (intro Cons.IH) auto
  with p have "erase (z # zs) (put (z # zs) x m) = m" by simp
  then show ?case by (simp add: t p m update_conv' update_triv del: put.simps(2) erase.simps(3))
      (simp add: m update_conv' update_triv)
qed

lemma erase_absent: "is_dir (lookup t p) \<Longrightarrow> lookup (erase (p @ [n]) t) (p @ [n]) = None"
proof (induction p arbitrary: t)
  case Nil
  then show ?case by (auto simp: is_dir_iff delete_conv')
next
  case (Cons y p)
  then obtain es where t: "t = Dir es" by (cases t) auto
  with Cons.prems obtain m where m: "map_of es y = Some m" by (auto split: option.splits)
  obtain z zs where p: "p @ [n] = z # zs" by (cases "p @ [n]") auto
  have "lookup (erase (p @ [n]) m) (p @ [n]) = None" using Cons t m by (intro Cons.IH) auto
  then show ?case using p by (simp add: t m update_conv')
qed

lemma lookup_erase: "q \<noteq> [] \<Longrightarrow> lookup (erase q t) q = None"
  by (induction q t rule: erase.induct) (auto simp: update_conv' delete_conv' split: option.splits)

section \<open>A new file\<close>

text \<open>A path where nothing is and a file can be created, and what is there once it has been written.\<close>

definition new_file :: "host \<Rightarrow> string \<Rightarrow> string list \<Rightarrow> bool" where
  "new_file h p q \<longleftrightarrow> resolve h p = Some q \<and> q \<noteq> [] \<and> is_dir (lookup (root h) (butlast q)) \<and> lookup (root h) q = None"

lemma new_fileI: "\<not> fs_exists h p \<Longrightarrow> open_out p h = Some (h1, q) \<Longrightarrow> new_file h p q"
  by (auto simp: new_file_def open_out_def fs_exists_def stat_def split: option.splits if_splits)

lemma new_file_facts:
  assumes "new_file h p q"
  shows "\<not> fs_exists h p" and "open_out p h = Some (h\<lparr>root := put q (File []) (root h)\<rparr>, q)"
    and "lookup (put q x (root h)) q = Some x"
    and "resolve (h\<lparr>root := put q x (root h)\<rparr>) p = Some q"
    and "erase q (put q x (root h)) = root h"
proof -
  have q: "butlast q @ [last q] = q" and r: "resolve h p = Some q" and d: "is_dir (lookup (root h) (butlast q))"
    and n: "lookup (root h) (butlast q @ [last q]) = None"
    using assms by (auto simp: new_file_def)
  show "\<not> fs_exists h p" "open_out p h = Some (h\<lparr>root := put q (File []) (root h)\<rparr>, q)"
    using assms by (simp_all add: new_file_def fs_exists_def stat_def open_out_def)
  show "lookup (put q x (root h)) q = Some x" using lookup_put_same [OF d, of "last q" x] by (simp add: q)
  show "resolve (h\<lparr>root := put q x (root h)\<rparr>) p = Some q" using resolve_put [OF r d n, of x] by (simp add: q)
  show "erase q (put q x (root h)) = root h" using erase_put [OF d n, of x] by (simp add: q)
qed

lemma new_file_open_in: "new_file h p q \<Longrightarrow> open_in (h\<lparr>root := put q (File d) (root h)\<rparr>) p = Some d"
  using new_file_facts(3,4) [of h p q "File d"] by (simp add: open_in_def stat_def)

end
