(* ===== verification/Utils.thy ===== *)
theory Utils
  imports Streams FileSystem
begin

text \<open>
  \<open>src/Utils.cpp\<close>: the file hash (over OpenSSL's digest functions, which are parameters), hex
  output, sizes for people, the remaining bytes of a stream, and random choice.
\<close>

section \<open>File hash\<close>

text \<open>The OpenSSL functions the code calls; \<open>None\<close> where they report failure.\<close>

record 'c evp_api =
  evp_new :: "'c option"
  evp_init :: "'c \<Rightarrow> 'c option"
  evp_update :: "'c \<Rightarrow> bytes \<Rightarrow> 'c option"
  evp_final :: "'c \<Rightarrow> bytes option"

text \<open>The documented contract: the calls succeed and the digest depends only on the concatenation
  of the pieces fed in.\<close>

definition evp_laws :: "'c evp_api \<Rightarrow> (bytes \<Rightarrow> bytes) \<Rightarrow> bool" where
  "evp_laws E digest \<longleftrightarrow>
     (\<exists>fed. (\<exists>c0 c. evp_new E = Some c0 \<and> evp_init E c0 = Some c \<and> fed c []) \<and>
        (\<forall>c x d. fed c x \<longrightarrow> (\<exists>c'. evp_update E c d = Some c' \<and> fed c' (x @ d))) \<and>
        (\<forall>c x. fed c x \<longrightarrow> evp_final E c = Some (digest x)))"

definition hash_buffer_size :: nat where
  "hash_buffer_size = 8192"

function hash_loop :: "'c evp_api \<Rightarrow> istream \<Rightarrow> 'c \<Rightarrow> error + 'c" where
  "hash_loop E file mdctx =
     (if ifail file then Inr mdctx
      else case istream_read hash_buffer_size file of (got, file') \<Rightarrow>
        if got \<noteq> [] then
          (case evp_update E mdctx got of
             None \<Rightarrow> Inl (UtilsException ''Error updating digest.'')
           | Some mdctx' \<Rightarrow> hash_loop E file' mdctx')
        else hash_loop E file' mdctx)"
  by pat_completeness auto
termination
  by (relation "measure (\<lambda>(E, f, c). reads_left f)")
    (auto dest!: arg_cong [of _ _ snd] simp: hash_buffer_size_def intro!: reads_left_decreases)

declare hash_loop.simps [simp del]

definition hex_digit :: "nat \<Rightarrow> char" where
  "hex_digit n = (if n < 10 then char_of (48 + n) else char_of (87 + n))"

definition binaryToHumanReadable :: "bytes \<Rightarrow> string" where
  "binaryToHumanReadable data =
     concat (map (\<lambda>byte. [hex_digit (of_char byte div 16), hex_digit (of_char byte mod 16)]) data)"

definition calculateFileHash :: "'c evp_api \<Rightarrow> host \<Rightarrow> string \<Rightarrow> error + string" where
  "calculateFileHash E h path =
     (case evp_new E of
        None \<Rightarrow> Inl (UtilsException ''Error creating context for hashing.'')
      | Some ctx \<Rightarrow>
          case evp_init E ctx of
            None \<Rightarrow> Inl (UtilsException ''Error initializing digest context.'')
          | Some mdctx \<Rightarrow>
              case open_in h path of
                None \<Rightarrow> Inl (UtilsException (''Error opening file: '' @ path))
              | Some content \<Rightarrow>
                  case hash_loop E (istream_of content) mdctx of
                    Inl e \<Rightarrow> Inl e
                  | Inr mdctx' \<Rightarrow>
                      case evp_final E mdctx' of
                        None \<Rightarrow> Inl (UtilsException ''Error finalizing digest.'')
                      | Some hash_result \<Rightarrow> Inr (binaryToHumanReadable hash_result))"

section \<open>Sizes and positions\<close>

fun floor_log2 :: "nat \<Rightarrow> nat" where
  "floor_log2 n = (if n < 2 then 0 else Suc (floor_log2 (n div 2)))"

declare floor_log2.simps [simp del]

text \<open>Converting \<open>log2(0)\<close>, minus infinity, to an integer is undefined.\<close>

definition bytesToHumanReadable :: "size_t \<Rightarrow> error + string" where
  "bytesToHumanReadable bytes =
     (if bytes = 0 then Inl (Undefined_behaviour ''conversion of log2(0) to size_t'')
      else let order_of_magnitude = floor_log2 (unat bytes) div 10 in
        if order_of_magnitude = 0 then Inr (show_nat (unat bytes) @ '' B'')
        else if order_of_magnitude = 1 then Inr (show_nat (unat (bytes div 1024)) @ '' kiB'')
        else if order_of_magnitude = 2 then Inr (show_nat (unat (bytes div (1024 * 1024))) @ '' MiB'')
        else Inr (show_nat (unat (bytes div (1024 * 1024 * 1024))) @ '' GiB''))"

lemma bytesToHumanReadable_positive: "n \<noteq> 0 \<Longrightarrow> \<exists>t. bytesToHumanReadable n = Inr t"
  by (auto simp: bytesToHumanReadable_def Let_def)

definition getRemainingBytes :: "istream \<Rightarrow> size_t \<Rightarrow> error + size_t" where
  "getRemainingBytes zip_file total_stream_length =
     (case tellg zip_file of
        None \<Rightarrow> Inl (UtilsException ''Could not retrieve stream's current position'')
      | Some current_position \<Rightarrow> Inr (total_stream_length - of_nat current_position))"

section \<open>Random choice\<close>

text \<open>A draw is a number of the generator; \<open>uniform_int_distribution\<close> maps it into the range, and
  needs the range not to be empty.\<close>

definition getRandom :: "nat \<Rightarrow> size_t \<Rightarrow> size_t \<Rightarrow> error + size_t" where
  "getRandom draw a b =
     (if b < a then Inl (Undefined_behaviour ''empty range'')
      else Inr (of_nat (unat a + draw mod (unat b - unat a + 1))))"

definition pickRandom :: "nat \<Rightarrow> string list \<Rightarrow> error + string" where
  "pickRandom draw elements =
     (case getRandom draw 0 (of_nat (length elements) - 1) of
        Inl e \<Rightarrow> Inl e
      | Inr i \<Rightarrow> if unat i < length elements then Inr (elements ! unat i) else Inl Out_of_range)"

section \<open>Facts about hashing\<close>

lemma hash_loop_fed:
  assumes upd: "\<And>c x d. fed c x \<Longrightarrow> \<exists>c'. evp_update E c d = Some c' \<and> fed c' (x @ d)"
    and "fed c x" and "\<not> ifail f"
  shows "\<exists>c'. hash_loop E f c = Inr c' \<and> fed c' (x @ unread f)"
  using assms(2,3)
proof (induction "reads_left f" arbitrary: f c x rule: less_induct)
  case less
  obtain got f' where r: "istream_read hash_buffer_size f = (got, f')" by fastforce
  then have dec: "reads_left f' < reads_left f"
    using reads_left_decreases [of hash_buffer_size f] less.prems by (simp add: hash_buffer_size_def)
  have step: "hash_loop E f c = (case evp_update E c got of
      None \<Rightarrow> Inl (UtilsException ''Error updating digest.'') | Some c' \<Rightarrow> hash_loop E f' c')"
    if "got \<noteq> []"
    using that r less.prems by (subst hash_loop.simps) simp
  show ?case
  proof (cases "hash_buffer_size \<le> length (unread f)")
    case True
    with r less.prems have got: "got = take hash_buffer_size (unread f)" "\<not> ifail f'"
      "unread f' = drop hash_buffer_size (unread f)"
      by (auto simp: istream_read_full)
    then have "got \<noteq> []" using True by (auto simp: hash_buffer_size_def)
    moreover obtain c' where c': "evp_update E c got = Some c'" "fed c' (x @ got)"
      using upd less.prems by blast
    moreover obtain c'' where "hash_loop E f' c' = Inr c''" "fed c'' ((x @ got) @ unread f')"
      using less.hyps [OF dec c'(2)] got by blast
    ultimately show ?thesis using step got by simp
  next
    case False
    with r less.prems have got: "got = unread f" "ifail f'"
      by (auto simp: istream_read_short)
    then have stop: "hash_loop E f' c' = Inr c'" for c'
      by (subst hash_loop.simps) simp
    show ?thesis
    proof (cases "got = []")
      case True
      then have "hash_loop E f c = hash_loop E f' c"
        using r less.prems by (subst hash_loop.simps) simp
      with stop True got less.prems show ?thesis by simp
    next
      case False
      moreover obtain c' where "evp_update E c got = Some c'" "fed c' (x @ got)"
        using upd less.prems by blast
      ultimately show ?thesis using step stop got by simp
    qed
  qed
qed

lemma calculateFileHash_ok:
  assumes "evp_laws E digest" and "open_in h path = Some content"
  shows "calculateFileHash E h path = Inr (binaryToHumanReadable (digest content))"
proof -
  obtain fed c0 c where init: "evp_new E = Some c0" "evp_init E c0 = Some c" "fed c []"
    and upd: "\<And>c x d. fed c x \<Longrightarrow> \<exists>c'. evp_update E c d = Some c' \<and> fed c' (x @ d)"
    and fin: "\<And>c x. fed c x \<Longrightarrow> evp_final E c = Some (digest x)"
    using assms(1) by (auto simp: evp_laws_def)
  obtain c' where "hash_loop E (istream_of content) c = Inr c'" "fed c' content"
    using hash_loop_fed [of fed E c "[]" "istream_of content"] init upd by auto
  with init fin assms(2) show ?thesis by (simp add: calculateFileHash_def)
qed

lemma calculateFileHash_missing:
  assumes "evp_laws E digest" and "open_in h path = None"
  shows "calculateFileHash E h path = Inl (UtilsException (''Error opening file: '' @ path))"
  using assms by (auto simp: evp_laws_def calculateFileHash_def)

text \<open>
  The hash is the digest of the whole file, whatever its length: the loop that reads 8192 bytes
  at a time feeds exactly the content, so the result is the hex form of the digest of the content;
  a path that cannot be opened is an error.
\<close>

theorem calculateFileHash_digest:
  assumes "evp_laws E digest"
  shows "calculateFileHash E h path =
    (case open_in h path of
       None \<Rightarrow> Inl (UtilsException (''Error opening file: '' @ path))
     | Some content \<Rightarrow> Inr (binaryToHumanReadable (digest content)))"
  using calculateFileHash_ok [OF assms] calculateFileHash_missing [OF assms]
  by (simp split: option.split)

text \<open>A digest that satisfies the contract: the bytes fed in are kept, and the first four are the digest.\<close>

definition take4_evp :: "bytes evp_api" where
  "take4_evp = \<lparr>evp_new = Some [], evp_init = Some, evp_update = (\<lambda>c d. Some (c @ d)),
     evp_final = (\<lambda>c. Some (take 4 c))\<rparr>"

lemma take4_evp_laws: "evp_laws take4_evp (take 4)"
  by (auto simp: evp_laws_def take4_evp_def intro!: exI [of _ "\<lambda>c x. c = x"])

definition sample_host :: host where
  "sample_host = \<lparr>root = Dir [(''tmp'', Dir []), (''home'', Dir [(''f'', File ''data'')])],
     cwd = [''home''], temp_dir = ''/tmp'', free_space = (\<lambda>_. 1000)\<rparr>"

theorem calculateFileHash_digest_witness:
  "calculateFileHash take4_evp sample_host ''f'' = Inr (binaryToHumanReadable ''data'')"
  using calculateFileHash_digest [OF take4_evp_laws, of sample_host "''f''"]
  by (simp add: sample_host_def open_in_def stat_def resolve_def is_absolute_def)

lemma hex_digit_inject: "m < 16 \<Longrightarrow> n < 16 \<Longrightarrow> hex_digit m = hex_digit n \<Longrightarrow> m = n"
proof -
  assume "m < 16" "n < 16" "hex_digit m = hex_digit n"
  then have "(of_char (hex_digit m) :: nat) = of_char (hex_digit n)" by simp
  with \<open>m < 16\<close> \<open>n < 16\<close> show "m = n" by (auto simp: hex_digit_def split: if_splits)
qed

lemma binaryToHumanReadable_Cons [simp]:
  "binaryToHumanReadable (b # bs) =
     hex_digit (of_char b div 16) # hex_digit (of_char b mod 16) # binaryToHumanReadable bs"
  "binaryToHumanReadable [] = []"
  by (simp_all add: binaryToHumanReadable_def)

lemma length_binaryToHumanReadable [simp]: "length (binaryToHumanReadable d) = 2 * length d"
  by (induction d) (simp_all add: binaryToHumanReadable_def)

lemma hex_digits: "n < 16 \<Longrightarrow> hex_digit n \<in> set ''0123456789abcdef''"
proof -
  have "map hex_digit [0..<16] = ''0123456789abcdef''" by code_simp
  then show "n < 16 \<Longrightarrow> hex_digit n \<in> set ''0123456789abcdef''"
    by (metis atLeastLessThan_iff image_eqI list.set_map set_upt zero_le)
qed

lemma binaryToHumanReadable_set: "set (binaryToHumanReadable a) \<subseteq> set ''0123456789abcdef''"
proof -
  define S where "S = set ''0123456789abcdef''"
  have "of_char c div 16 < (16 :: nat)" for c
    using of_char_bound [of c] by (simp add: less_mult_imp_div_less)
  moreover have "hex_digit n \<in> S" if "n < 16" for n
    unfolding S_def using that by (rule hex_digits)
  ultimately show ?thesis unfolding S_def [symmetric] by (induction a) auto
qed

lemma binaryToHumanReadable_ascii: "c \<in> set (binaryToHumanReadable a) \<Longrightarrow> of_char c < (128 :: nat)"
  using binaryToHumanReadable_set [of a] by auto

lemma binaryToHumanReadable_inject: "binaryToHumanReadable a = binaryToHumanReadable b \<Longrightarrow> a = b"
proof (induction a arbitrary: b)
  case Nil
  then show ?case by (cases b) auto
next
  case (Cons x a)
  have "x = y" if "hex_digit (of_char x div 16) = hex_digit (of_char y div 16)"
    "hex_digit (of_char x mod 16) = hex_digit (of_char y mod 16)" for y
  proof -
    have "of_char x div 16 = (of_char y div 16 :: nat)"
      using that of_char_bound [of x] of_char_bound [of y]
      by (intro hex_digit_inject) (auto simp: less_mult_imp_div_less)
    moreover have "of_char x mod 16 = (of_char y mod 16 :: nat)"
      using that by (intro hex_digit_inject) auto
    ultimately have "(of_char x :: nat) = of_char y" by (metis div_mult_mod_eq)
    then show ?thesis by simp
  qed
  with Cons show ?case by (cases b) auto
qed

text \<open>
  Hex output loses nothing: it has two digits per byte, all of them in 0-9a-f, and two byte
  strings with the same hex form are equal, so comparing two hashes in this form is comparing the
  digests.
\<close>

theorem binaryToHumanReadable_faithful:
  "length (binaryToHumanReadable a) = 2 * length a \<and>
   set (binaryToHumanReadable a) \<subseteq> set ''0123456789abcdef'' \<and>
   (binaryToHumanReadable a = binaryToHumanReadable b \<longleftrightarrow> a = b)"
proof (intro conjI)
  show "length (binaryToHumanReadable a) = 2 * length a" by (induction a) auto
qed (use binaryToHumanReadable_set binaryToHumanReadable_inject in blast)+

section \<open>Facts about sizes and positions\<close>

lemma floor_log2_bounds: "0 < n \<Longrightarrow> 2 ^ floor_log2 n \<le> n \<and> n < 2 ^ Suc (floor_log2 n)"
proof (induction n rule: floor_log2.induct)
  case (1 n)
  show ?case
  proof (cases "n < 2")
    case True
    with "1.prems" show ?thesis by (simp add: floor_log2.simps [of n])
  next
    case False
    with "1.IH" have "2 ^ floor_log2 (n div 2) \<le> n div 2 \<and> n div 2 < 2 ^ Suc (floor_log2 (n div 2))"
      by simp
    with False show ?thesis by (simp add: floor_log2.simps [of n]) arith
  qed
qed

lemma floor_log2_le_iff:
  assumes "0 < n"
  shows "k \<le> floor_log2 n \<longleftrightarrow> 2 ^ k \<le> n"
proof
  assume "k \<le> floor_log2 n"
  then have "(2 :: nat) ^ k \<le> 2 ^ floor_log2 n" by (simp add: power_increasing)
  then show "2 ^ k \<le> n" using floor_log2_bounds [OF assms] by linarith
next
  assume "2 ^ k \<le> n"
  then have "(2 :: nat) ^ k < 2 ^ Suc (floor_log2 n)" using floor_log2_bounds [OF assms] by linarith
  then have "k < Suc (floor_log2 n)" by (rule power_less_imp_less_exp [rotated]) simp
  then show "k \<le> floor_log2 n" by simp
qed

lemma order_of_magnitude:
  assumes "0 < n"
  shows "floor_log2 n div 10 = 0 \<longleftrightarrow> n < 2 ^ 10" "1 \<le> floor_log2 n div 10 \<longleftrightarrow> 2 ^ 10 \<le> n"
    "2 \<le> floor_log2 n div 10 \<longleftrightarrow> 2 ^ 20 \<le> n" "3 \<le> floor_log2 n div 10 \<longleftrightarrow> 2 ^ 30 \<le> n"
proof -
  have d: "k \<le> m div 10 \<longleftrightarrow> k * 10 \<le> m" for k m :: nat
    by (simp add: less_eq_div_iff_mult_less_eq)
  show "1 \<le> floor_log2 n div 10 \<longleftrightarrow> 2 ^ 10 \<le> n" "2 \<le> floor_log2 n div 10 \<longleftrightarrow> 2 ^ 20 \<le> n"
    "3 \<le> floor_log2 n div 10 \<longleftrightarrow> 2 ^ 30 \<le> n"
    using floor_log2_le_iff [OF assms] by (simp_all only: d) simp_all
  show "floor_log2 n div 10 = 0 \<longleftrightarrow> n < 2 ^ 10"
    using floor_log2_le_iff [OF assms, of 10] d [of 1 "floor_log2 n"] by auto
qed

text \<open>The unit that is printed, and its size.\<close>

fun unit_size :: "string \<Rightarrow> nat" where
  "unit_size u = (if u = '' B'' then 1 else if u = '' kiB'' then 2 ^ 10
     else if u = '' MiB'' then 2 ^ 20 else 2 ^ 30)"

text \<open>
  The human-readable size is the size rounded down to the unit shown: for a positive size the
  output is a decimal number k of at least 1 and a unit, with k units at most the size and k+1 units
  more than it, and below GiB the number has no more than four digits; a size of 0 is undefined
  behaviour.
\<close>

theorem bytesToHumanReadable_correct:
  "(bytes = 0 \<longrightarrow> (\<exists>m. bytesToHumanReadable bytes = Inl (Undefined_behaviour m))) \<and>
   (bytes \<noteq> 0 \<longrightarrow>
     (\<exists>k u. bytesToHumanReadable bytes = Inr (show_nat k @ u) \<and>
        u \<in> {'' B'', '' kiB'', '' MiB'', '' GiB''} \<and>
        1 \<le> k \<and> k * unit_size u \<le> unat bytes \<and> unat bytes < (k + 1) * unit_size u \<and>
        (u \<noteq> '' GiB'' \<longrightarrow> k < 1024)))"
proof (intro conjI impI)
  assume "bytes = 0"
  then show "\<exists>m. bytesToHumanReadable bytes = Inl (Undefined_behaviour m)"
    by (simp add: bytesToHumanReadable_def)
next
  let ?n = "unat bytes"
  assume nz: "bytes \<noteq> 0"
  then have n: "0 < ?n" by (simp add: unat_gt_0)
  have divs: "unat (bytes div 1024) = ?n div 2 ^ 10" "unat (bytes div (1024 * 1024)) = ?n div 2 ^ 20"
    "unat (bytes div (1024 * 1024 * 1024)) = ?n div 2 ^ 30"
    by (simp_all add: unat_div)
  have q: "1 \<le> ?n div s \<and> ?n div s * s \<le> ?n \<and> ?n < (?n div s + 1) * s" if "s \<le> ?n" "0 < s" for s
    using that dividend_less_div_times [of s ?n]
    by (simp add: div_greater_zero_iff Suc_le_eq)
  note o = order_of_magnitude [OF n]
  consider "?n < 2 ^ 10" | "2 ^ 10 \<le> ?n" "?n < 2 ^ 20" | "2 ^ 20 \<le> ?n" "?n < 2 ^ 30" | "2 ^ 30 \<le> ?n"
    by linarith
  then show "\<exists>k u. bytesToHumanReadable bytes = Inr (show_nat k @ u) \<and>
        u \<in> {'' B'', '' kiB'', '' MiB'', '' GiB''} \<and>
        1 \<le> k \<and> k * unit_size u \<le> ?n \<and> ?n < (k + 1) * unit_size u \<and>
        (u \<noteq> '' GiB'' \<longrightarrow> k < 1024)"
  proof cases
    case 1
    then show ?thesis using nz n o(1)
      by (intro exI [of _ ?n] exI [of _ "'' B''"]) (simp add: bytesToHumanReadable_def)
  next
    case 2
    then have "floor_log2 ?n div 10 = 1" using o by linarith
    then show ?thesis using nz q [of "2 ^ 10"] 2 divs
      by (intro exI [of _ "?n div 2 ^ 10"] exI [of _ "'' kiB''"])
        (simp add: bytesToHumanReadable_def less_mult_imp_div_less)
  next
    case 3
    then have "floor_log2 ?n div 10 = 2" using o by linarith
    then show ?thesis using nz q [of "2 ^ 20"] 3 divs
      by (intro exI [of _ "?n div 2 ^ 20"] exI [of _ "'' MiB''"])
        (simp add: bytesToHumanReadable_def less_mult_imp_div_less)
  next
    case 4
    then have "3 \<le> floor_log2 ?n div 10" using o by linarith
    then show ?thesis using nz q [of "2 ^ 30"] 4 divs
      by (intro exI [of _ "?n div 2 ^ 30"] exI [of _ "'' GiB''"])
        (simp add: bytesToHumanReadable_def)
  qed
qed

theorem bytesToHumanReadable_correct_witness:
  "\<exists>k u. bytesToHumanReadable (1024 * 1024 - 1) = Inr (show_nat k @ u) \<and> k * unit_size u \<le> 1048575"
proof -
  have n: "unat (1024 * 1024 - 1 :: size_t) = 1048575" "(1024 * 1024 - 1 :: size_t) \<noteq> 0" by simp_all
  from bytesToHumanReadable_correct [of "1024 * 1024 - 1"] n(2) obtain k u where
    "bytesToHumanReadable (1024 * 1024 - 1) = Inr (show_nat k @ u)"
    "k * unit_size u \<le> unat (1024 * 1024 - 1 :: size_t)" by blast
  then show ?thesis unfolding n(1) by blast
qed

lemma getRemainingBytes_ok:
  assumes "\<not> ifail s" and "ipos s \<le> length (ibuf s)" and "length (ibuf s) < 2 ^ 64"
  shows "getRemainingBytes s (of_nat (length (ibuf s))) = Inr (of_nat (length (unread s)))"
  using assms by (simp add: getRemainingBytes_def tellg_def unread_def of_nat_diff)

section \<open>Facts about random choice\<close>

lemma getRandom_range:
  assumes "a \<le> b"
  shows "\<exists>i. getRandom draw a b = Inr i \<and> a \<le> i \<and> i \<le> b"
proof -
  let ?v = "unat a + draw mod (unat b - unat a + 1)"
  have ab: "unat a \<le> unat b" using assms by (simp add: word_le_nat_alt)
  have "draw mod (unat b - unat a + 1) < unat b - unat a + 1" by (rule mod_less_divisor) simp
  then have v: "?v \<le> unat b" using ab by linarith
  also have "unat b < 2 ^ 64" using unsigned_less [of b, where ?'a = nat] by simp
  finally have "unat (of_nat ?v :: size_t) = ?v" by (intro unat_of_nat_size)
  with v ab show ?thesis using leD [OF assms]
    by (simp add: getRandom_def word_le_nat_alt del: of_nat_add)
qed

lemma pickRandom_member:
  assumes "elements \<noteq> []" and "length elements < 2 ^ 64"
  shows "\<exists>w. pickRandom draw elements = Inr w \<and> w \<in> set elements"
proof -
  let ?b = "of_nat (length elements) - 1 :: size_t"
  have "unat ?b = length elements - 1"
    using assms by (cases elements) (simp_all add: unat_of_nat_size)
  moreover obtain i where "getRandom draw 0 ?b = Inr i" "i \<le> ?b"
    using getRandom_range [of 0 ?b draw] by auto
  ultimately have "getRandom draw 0 ?b = Inr i" "unat i < length elements"
    using assms by (auto simp: word_le_nat_alt) (cases elements; simp)
  then show ?thesis by (simp add: pickRandom_def)
qed

end
