(* ===== verification/JsonApi.thy ===== *)
theory JsonApi
  imports Prelude
begin

text \<open>
  The interface of the JSON library.  The library is not part of the repository, so its functions
  are parameters, collected in a record over a type of JSON values; \<open>json_laws\<close> states the
  documented facts the program relies on, and the last section gives one implementation that
  satisfies them, for the concrete instances of the theorems.
\<close>

section \<open>Operations and their contract\<close>

datatype json_scalar = J_string string | J_number size_t | J_bool bool

text \<open>
  \<open>json_find\<close> is the member of an object; \<open>contains(key)\<close> is its being there, and the value of
  another kind has no members.  \<open>json_get_string\<close> succeeds just on strings, \<open>json_get_bool\<close> just on
  booleans; \<open>json_get_size\<close> is \<open>get<std::size_t>()\<close>.  Where an operation throws, it is \<open>None\<close>.
\<close>

record 'j json_api =
  json_parse :: "bytes \<Rightarrow> 'j option"
  json_dump :: "'j \<Rightarrow> bytes option"
  json_null :: 'j
  json_set :: "'j \<Rightarrow> string \<Rightarrow> json_scalar \<Rightarrow> 'j"
  json_find :: "'j \<Rightarrow> string \<Rightarrow> 'j option"
  json_get_string :: "'j \<Rightarrow> string option"
  json_get_size :: "'j \<Rightarrow> size_t option"
  json_is_number_unsigned :: "'j \<Rightarrow> bool"
  json_get_bool :: "'j \<Rightarrow> bool option"
  json_items :: "'j \<Rightarrow> 'j list option"

definition json_contains :: "'j json_api \<Rightarrow> 'j \<Rightarrow> string \<Rightarrow> bool" where
  "json_contains J j key \<longleftrightarrow> json_find J j key \<noteq> None"

text \<open>\<open>json[key]\<close> of a constant value: undefined if the key is missing.\<close>

definition json_at :: "'j json_api \<Rightarrow> 'j \<Rightarrow> string \<Rightarrow> error + 'j" where
  "json_at J j key =
     (case json_find J j key of None \<Rightarrow> Inl (Undefined_behaviour ''operator[] on a missing key'')
      | Some v \<Rightarrow> Inr v)"

text \<open>\<open>json[key].get<T>()\<close> of a value that may change: a missing key gives null, of which no \<open>get\<close>
  succeeds, and a value that is no object makes \<open>operator[]\<close> throw.\<close>

definition json_get :: "('j \<Rightarrow> 'a option) \<Rightarrow> 'j json_api \<Rightarrow> 'j \<Rightarrow> string \<Rightarrow> error + 'a" where
  "json_get get J j key =
     (case json_find J j key of None \<Rightarrow> Inl (Json_exception ''type_error'')
      | Some v \<Rightarrow> case get v of None \<Rightarrow> Inl (Json_exception ''type_error'') | Some x \<Rightarrow> Inr x)"

text \<open>An object built by assignments to a fresh value.\<close>

definition json_object :: "'j json_api \<Rightarrow> (string \<times> json_scalar) list \<Rightarrow> 'j" where
  "json_object J kvs = fold (\<lambda>(k, v) j. json_set J j k v) kvs (json_null J)"

fun reads_as :: "'j json_api \<Rightarrow> json_scalar \<Rightarrow> 'j \<Rightarrow> bool" where
  "reads_as J (J_string s) j \<longleftrightarrow>
     json_get_string J j = Some s \<and> \<not> json_is_number_unsigned J j \<and> json_get_bool J j = None"
| "reads_as J (J_number n) j \<longleftrightarrow>
     json_get_size J j = Some n \<and> json_is_number_unsigned J j \<and> json_get_string J j = None \<and> json_get_bool J j = None"
| "reads_as J (J_bool b) j \<longleftrightarrow>
     json_get_bool J j = Some b \<and> \<not> json_is_number_unsigned J j \<and> json_get_string J j = None"

text \<open>
  The contract.  An object has the members assigned to it; an unsigned number can be read as
  \<open>size_t\<close>; what \<open>parse\<close> returns can be dumped, and so can an object of texts (\<open>text\<close>: valid
  UTF-8, which ASCII is), numbers and booleans; the dump of either is not empty and parses to the
  same value.
\<close>

definition json_laws :: "'j json_api \<Rightarrow> (string \<Rightarrow> bool) \<Rightarrow> bool" where
  "json_laws J text \<longleftrightarrow>
     (\<forall>kvs k. distinct (map fst kvs) \<longrightarrow>
        (case map_of kvs k of
           None \<Rightarrow> json_find J (json_object J kvs) k = None
         | Some v \<Rightarrow> \<exists>x. json_find J (json_object J kvs) k = Some x \<and> reads_as J v x)) \<and>
     (\<forall>j. json_is_number_unsigned J j \<longrightarrow> json_get_size J j \<noteq> None) \<and>
     (\<forall>s. (\<forall>c \<in> set s. of_char c < (128 :: nat)) \<longrightarrow> text s) \<and>
     (\<forall>b j. json_parse J b = Some j \<longrightarrow>
        (\<exists>d. json_dump J j = Some d \<and> d \<noteq> [] \<and> json_parse J d = Some j)) \<and>
     (\<forall>kvs. distinct (map fst kvs) \<and> (\<forall>(k, v) \<in> set kvs. text k \<and> (\<forall>s. v = J_string s \<longrightarrow> text s)) \<longrightarrow>
        (\<exists>d. json_dump J (json_object J kvs) = Some d \<and> d \<noteq> [] \<and>
           json_parse J d = Some (json_object J kvs)))"

lemma json_laws_find:
  assumes "json_laws J text" and "distinct (map fst kvs)" and "map_of kvs k = Some v"
  shows "\<exists>x. json_find J (json_object J kvs) k = Some x \<and> reads_as J v x"
  using assms by (auto simp: json_laws_def dest!: spec [of _ kvs] spec [of _ k])

lemma json_laws_missing:
  assumes "json_laws J text" and "distinct (map fst kvs)" and "map_of kvs k = None"
  shows "json_find J (json_object J kvs) k = None"
  using assms by (auto simp: json_laws_def dest!: spec [of _ kvs] spec [of _ k])

lemma json_laws_unsigned:
  "json_laws J text \<Longrightarrow> json_is_number_unsigned J j \<Longrightarrow> \<exists>n. json_get_size J j = Some n"
  by (auto simp: json_laws_def)

lemma json_laws_ascii: "json_laws J text \<Longrightarrow> (\<And>c. c \<in> set s \<Longrightarrow> of_char c < (128 :: nat)) \<Longrightarrow> text s"
  unfolding json_laws_def by blast

lemma json_laws_dump:
  "json_laws J text \<Longrightarrow> json_parse J b = Some j \<Longrightarrow>
   \<exists>d. json_dump J j = Some d \<and> d \<noteq> [] \<and> json_parse J d = Some j"
  by (simp add: json_laws_def)

lemma json_laws_dump_object:
  "json_laws J text \<Longrightarrow> distinct (map fst kvs) \<Longrightarrow>
   (\<forall>(k, v) \<in> set kvs. text k \<and> (\<forall>s. v = J_string s \<longrightarrow> text s)) \<Longrightarrow>
   \<exists>d. json_dump J (json_object J kvs) = Some d \<and> d \<noteq> [] \<and> json_parse J d = Some (json_object J kvs)"
  by (simp add: json_laws_def)

section \<open>One implementation\<close>

text \<open>Objects of scalars and of word lists, written with unary lengths.\<close>

datatype flat_scalar = F_null | F_scalar json_scalar | F_words "string list"
datatype flat = Scalar flat_scalar | Obj "(string \<times> flat_scalar) list"

fun put_nat :: "nat \<Rightarrow> string" where
  "put_nat 0 = ''.''"
| "put_nat (Suc n) = CHR ''1'' # put_nat n"

fun get_nat :: "string \<Rightarrow> (nat \<times> string) option" where
  "get_nat [] = None"
| "get_nat (c # cs) =
     (if c = CHR ''1'' then map_option (\<lambda>(n, r). (Suc n, r)) (get_nat cs)
      else if c = CHR ''.'' then Some (0, cs) else None)"

lemma get_put_nat [simp]: "get_nat (put_nat n @ r) = Some (n, r)"
  by (induction n) auto

lemma length_put_nat [simp]: "length (put_nat n) = Suc n"
  by (induction n) auto

definition put_text :: "string \<Rightarrow> string" where
  "put_text s = put_nat (length s) @ s"

definition get_text :: "string \<Rightarrow> (string \<times> string) option" where
  "get_text r = (case get_nat r of None \<Rightarrow> None
     | Some (n, r') \<Rightarrow> if n \<le> length r' then Some (take n r', drop n r') else None)"

lemma get_put_text [simp]: "get_text (put_text s @ r) = Some (s, r)"
  by (simp add: get_text_def put_text_def)

fun get_texts :: "nat \<Rightarrow> string \<Rightarrow> (string list \<times> string) option" where
  "get_texts 0 r = Some ([], r)"
| "get_texts (Suc n) r =
     (case get_text r of None \<Rightarrow> None | Some (w, r1) \<Rightarrow>
      map_option (\<lambda>(ws, r2). (w # ws, r2)) (get_texts n r1))"

lemma get_put_texts [simp]: "get_texts (length ws) (concat (map put_text ws) @ r) = Some (ws, r)"
  by (induction ws) auto

fun put_scalar :: "flat_scalar \<Rightarrow> string" where
  "put_scalar F_null = ''n''"
| "put_scalar (F_scalar (J_string s)) = CHR ''s'' # put_text s"
| "put_scalar (F_scalar (J_number n)) = CHR ''u'' # put_text (size_bytes n)"
| "put_scalar (F_scalar (J_bool b)) = (if b then ''t'' else ''f'')"
| "put_scalar (F_words ws) = CHR ''w'' # put_nat (length ws) @ concat (map put_text ws)"

fun get_scalar :: "string \<Rightarrow> (flat_scalar \<times> string) option" where
  "get_scalar [] = None"
| "get_scalar (c # r) =
     (if c = CHR ''n'' then Some (F_null, r)
      else if c = CHR ''t'' then Some (F_scalar (J_bool True), r)
      else if c = CHR ''f'' then Some (F_scalar (J_bool False), r)
      else if c = CHR ''s'' then map_option (\<lambda>(s, r'). (F_scalar (J_string s), r')) (get_text r)
      else if c = CHR ''u'' then map_option (\<lambda>(s, r'). (F_scalar (J_number (bytes_size s)), r')) (get_text r)
      else if c = CHR ''w'' then
        (case get_nat r of None \<Rightarrow> None | Some (n, r1) \<Rightarrow>
         map_option (\<lambda>(ws, r2). (F_words ws, r2)) (get_texts n r1))
      else None)"

lemma get_put_scalar [simp]: "get_scalar (put_scalar v @ r) = Some (v, r)"
  by (cases v rule: put_scalar.cases) auto

fun put_pairs :: "(string \<times> flat_scalar) list \<Rightarrow> string" where
  "put_pairs [] = []"
| "put_pairs ((k, v) # kvs) = put_text k @ put_scalar v @ put_pairs kvs"

fun get_pairs :: "nat \<Rightarrow> string \<Rightarrow> ((string \<times> flat_scalar) list \<times> string) option" where
  "get_pairs 0 r = Some ([], r)"
| "get_pairs (Suc n) r =
     (case get_text r of None \<Rightarrow> None | Some (k, r1) \<Rightarrow>
      case get_scalar r1 of None \<Rightarrow> None | Some (v, r2) \<Rightarrow>
      map_option (\<lambda>(kvs, r3). ((k, v) # kvs, r3)) (get_pairs n r2))"

lemma get_put_pairs [simp]: "get_pairs (length kvs) (put_pairs kvs @ r) = Some (kvs, r)"
  by (induction kvs rule: put_pairs.induct) auto

fun put_flat :: "flat \<Rightarrow> string" where
  "put_flat (Scalar v) = CHR ''S'' # put_scalar v"
| "put_flat (Obj kvs) = CHR ''O'' # put_nat (length kvs) @ put_pairs kvs"

definition whole :: "('a \<times> string) option \<Rightarrow> 'a option" where
  "whole r = (case r of Some (x, []) \<Rightarrow> Some x | _ \<Rightarrow> None)"

fun get_flat :: "string \<Rightarrow> flat option" where
  "get_flat [] = None"
| "get_flat (c # r) =
     (if c = CHR ''S'' then map_option Scalar (whole (get_scalar r))
      else if c = CHR ''O'' then
        (case get_nat r of None \<Rightarrow> None | Some (n, r') \<Rightarrow> map_option Obj (whole (get_pairs n r')))
      else None)"

lemma get_put_flat [simp]: "get_flat (put_flat j) = Some j"
  using get_put_scalar [of _ "[]"] get_put_pairs [of _ "[]"]
  by (cases j) (simp_all add: whole_def)

lemma put_flat_nonempty [simp]: "put_flat j \<noteq> []"
  by (cases j) auto

fun flat_set :: "flat \<Rightarrow> string \<Rightarrow> json_scalar \<Rightarrow> flat" where
  "flat_set (Obj kvs) k v = Obj (filter (\<lambda>kv. fst kv \<noteq> k) kvs @ [(k, F_scalar v)])"
| "flat_set _ k v = Obj [(k, F_scalar v)]"

fun flat_find :: "flat \<Rightarrow> string \<Rightarrow> flat option" where
  "flat_find (Obj kvs) k = map_option Scalar (map_of kvs k)"
| "flat_find _ k = None"

definition flat_json :: "flat json_api" where
  "flat_json = \<lparr>json_parse = get_flat, json_dump = (\<lambda>j. Some (put_flat j)), json_null = Scalar F_null,
     json_set = flat_set, json_find = flat_find,
     json_get_string = (\<lambda>j. case j of Scalar (F_scalar (J_string s)) \<Rightarrow> Some s | _ \<Rightarrow> None),
     json_get_size = (\<lambda>j. case j of Scalar (F_scalar (J_number n)) \<Rightarrow> Some n | _ \<Rightarrow> None),
     json_is_number_unsigned = (\<lambda>j. case j of Scalar (F_scalar (J_number n)) \<Rightarrow> True | _ \<Rightarrow> False),
     json_get_bool = (\<lambda>j. case j of Scalar (F_scalar (J_bool b)) \<Rightarrow> Some b | _ \<Rightarrow> None),
     json_items = (\<lambda>j. case j of Scalar (F_words ws) \<Rightarrow>
       Some (map (\<lambda>w. Scalar (F_scalar (J_string w))) ws) | _ \<Rightarrow> None)\<rparr>"

lemma flat_json_sel [simp]:
  "json_parse flat_json = get_flat" "json_dump flat_json j = Some (put_flat j)"
  "json_null flat_json = Scalar F_null" "json_set flat_json = flat_set" "json_find flat_json = flat_find"
  "json_get_string flat_json (Scalar (F_scalar v)) = (case v of J_string s \<Rightarrow> Some s | _ \<Rightarrow> None)"
  "json_get_size flat_json (Scalar (F_scalar v)) = (case v of J_number n \<Rightarrow> Some n | _ \<Rightarrow> None)"
  "json_is_number_unsigned flat_json (Scalar (F_scalar v)) = (case v of J_number n \<Rightarrow> True | _ \<Rightarrow> False)"
  "json_get_bool flat_json (Scalar (F_scalar v)) = (case v of J_bool b \<Rightarrow> Some b | _ \<Rightarrow> None)"
  "json_items flat_json (Scalar (F_words ws)) = Some (map (\<lambda>w. Scalar (F_scalar (J_string w))) ws)"
  by (simp_all add: flat_json_def)

lemma flat_set_fold:
  "distinct (map fst kvs) \<Longrightarrow> fst ` set es \<inter> fst ` set kvs = {} \<Longrightarrow>
   fold (\<lambda>(k, v) j. flat_set j k v) kvs (Obj es) = Obj (es @ map (\<lambda>(k, v). (k, F_scalar v)) kvs)"
proof (induction kvs arbitrary: es)
  case Nil
  then show ?case by simp
next
  case (Cons kv kvs)
  obtain k v where kv: "kv = (k, v)" by (cases kv)
  with Cons.prems have "filter (\<lambda>kv. fst kv \<noteq> k) es = es"
    by (auto simp: filter_id_conv image_iff)
  with Cons kv show ?case by (auto simp: image_iff disjoint_iff)
qed

lemma flat_object:
  "distinct (map fst kvs) \<Longrightarrow> json_object flat_json kvs =
     (if kvs = [] then Scalar F_null else Obj (map (\<lambda>(k, v). (k, F_scalar v)) kvs))"
proof (cases kvs)
  case (Cons kv r)
  assume "distinct (map fst kvs)"
  with Cons show ?thesis
    using flat_set_fold [of r "[(fst kv, F_scalar (snd kv))]"]
    by (cases kv) (auto simp: json_object_def disjoint_iff image_iff)
qed (simp add: json_object_def)

lemma flat_reads_as: "reads_as flat_json v (Scalar (F_scalar v))"
  by (cases v) auto

lemma map_of_scalars: "map_of (map (\<lambda>(k, v). (k, F_scalar v)) kvs) k = map_option F_scalar (map_of kvs k)"
  by (induction kvs) auto

lemma flat_find_object:
  "distinct (map fst kvs) \<Longrightarrow>
   flat_find (json_object flat_json kvs) k = map_option (\<lambda>v. Scalar (F_scalar v)) (map_of kvs k)"
  by (cases "kvs = []") (simp_all add: flat_object map_of_scalars option.map_comp comp_def)

lemma flat_json_laws: "json_laws flat_json (\<lambda>_. True)"
proof -
  have "json_get_size flat_json j \<noteq> None" if "json_is_number_unsigned flat_json j" for j
    using that by (auto simp: flat_json_def split: flat.splits flat_scalar.splits json_scalar.splits)
  moreover have "case map_of kvs k of
           None \<Rightarrow> json_find flat_json (json_object flat_json kvs) k = None
         | Some v \<Rightarrow> \<exists>x. json_find flat_json (json_object flat_json kvs) k = Some x \<and> reads_as flat_json v x"
    if "distinct (map fst kvs)" for kvs k
    using that flat_reads_as by (auto simp: flat_find_object split: option.splits)
  ultimately show ?thesis unfolding json_laws_def by auto
qed

end
