(* ===== verification/InitSessionMessage.thy ===== *)
theory InitSessionMessage
  imports Utils JsonApi
begin

text \<open>
  \<open>src/InitSessionMessage.cpp\<close>: the first message of a session, as the two clients build it and as
  the server checks it.
\<close>

section \<open>Keys\<close>

definition FILENAME_KEY :: string where "FILENAME_KEY = ''filename''"
definition FILE_SIZE_KEY :: string where "FILE_SIZE_KEY = ''file_size''"
definition FILE_HASH_KEY :: string where "FILE_HASH_KEY = ''file_hash''"
definition IS_COMPRESSED_KEY :: string where "IS_COMPRESSED_KEY = ''is_compressed''"
definition CODE_WORDS_KEY :: string where "CODE_WORDS_KEY = ''code_words_key''"
definition ACTION_KEY :: string where "ACTION_KEY = ''action''"

lemmas key_defs = FILENAME_KEY_def FILE_SIZE_KEY_def FILE_HASH_KEY_def IS_COMPRESSED_KEY_def
  CODE_WORDS_KEY_def ACTION_KEY_def

section \<open>Building\<close>

definition createSendMessage ::
  "'c evp_api \<Rightarrow> 'j json_api \<Rightarrow> host \<Rightarrow> string \<Rightarrow> bool \<Rightarrow> error + 'j" where
  "createSendMessage E J h file_path is_compressed =
     (if \<not> fs_exists h file_path then
        Inl (InitSessionMessageException (''Given path '' @ file_path @ '' does not exist!''))
      else
        let json = json_null J;
            json = json_set J json ACTION_KEY (J_string ''send'');
            json = json_set J json FILENAME_KEY (J_string (filename file_path))
        in sum_bind (file_size h file_path) (\<lambda>fsize.
             let json = json_set J json FILE_SIZE_KEY (J_number fsize)
             in sum_bind (calculateFileHash E h file_path) (\<lambda>hash.
                  let json = json_set J json FILE_HASH_KEY (J_string hash);
                      json = json_set J json IS_COMPRESSED_KEY (J_bool is_compressed)
                  in Inr json)))"

definition createReceiveMessage :: "'j json_api \<Rightarrow> string \<Rightarrow> 'j" where
  "createReceiveMessage J code =
     (let json = json_null J;
          json = json_set J json ACTION_KEY (J_string ''receive'');
          json = json_set J json CODE_WORDS_KEY (J_string code)
      in json)"

section \<open>Checking\<close>

definition validateSingleKeyExists :: "'j json_api \<Rightarrow> 'j \<Rightarrow> string \<Rightarrow> error + unit" where
  "validateSingleKeyExists J json key =
     (if \<not> json_contains J json key
      then Inl (InitSessionMessageException (''InitSessionMessage json is missing '' @ key @ '' key.''))
      else Inr ())"

definition validateStringKey :: "'j json_api \<Rightarrow> 'j \<Rightarrow> string \<Rightarrow> error + unit" where
  "validateStringKey J json key = sum_bind (json_at J json key) (\<lambda>v.
     if json_get_string J v = None
     then Inl (InitSessionMessageException (''InitSessionMessage json key '' @ key @ '' should be a string.''))
     else Inr ())"

definition validateActionKey :: "'j json_api \<Rightarrow> 'j \<Rightarrow> error + unit" where
  "validateActionKey J json =
     sum_bind (validateSingleKeyExists J json ACTION_KEY) (\<lambda>_.
     sum_bind (validateStringKey J json ACTION_KEY) (\<lambda>_.
     sum_bind (json_at J json ACTION_KEY) (\<lambda>action.
       if json_get_string J action \<noteq> Some ''send'' \<and> json_get_string J action \<noteq> Some ''receive''
       then (case json_get_string J action of
            None \<Rightarrow> Inl (Json_exception ''type_error'')
          | Some value \<Rightarrow> Inl (InitSessionMessageException (''InitSessionMessage '' @ ACTION_KEY @
              '' key has unrecognized value: '' @ value @ ''.'')))
       else Inr ())))"

fun validateAll :: "('k \<Rightarrow> error + unit) \<Rightarrow> 'k list \<Rightarrow> error + unit" where
  "validateAll check [] = Inr ()"
| "validateAll check (key # keys) = sum_bind (check key) (\<lambda>_. validateAll check keys)"

definition validateKeysExist :: "'j json_api \<Rightarrow> 'j \<Rightarrow> error + unit" where
  "validateKeysExist J json =
     validateAll (validateSingleKeyExists J json)
       [FILENAME_KEY, FILE_SIZE_KEY, FILE_HASH_KEY, IS_COMPRESSED_KEY]"

definition validateKeysTypes :: "'j json_api \<Rightarrow> 'j \<Rightarrow> error + unit" where
  "validateKeysTypes J json =
     sum_bind (validateStringKey J json FILENAME_KEY) (\<lambda>_.
     sum_bind (validateStringKey J json FILE_HASH_KEY) (\<lambda>_.
     sum_bind (json_at J json FILE_SIZE_KEY) (\<lambda>fsize.
       if \<not> json_is_number_unsigned J fsize
       then Inl (InitSessionMessageException (''InitSessionMessage json key '' @ FILE_SIZE_KEY @
              '' should be a number.''))
       else sum_bind (json_at J json IS_COMPRESSED_KEY) (\<lambda>compressed.
         if json_get_bool J compressed = None
         then Inl (InitSessionMessageException (''InitSessionMessage json key '' @ IS_COMPRESSED_KEY @
                '' should be a boolean.''))
         else Inr ()))))"

definition validate :: "'j json_api \<Rightarrow> 'j \<Rightarrow> error + unit" where
  "validate J json =
     sum_bind (validateActionKey J json) (\<lambda>_.
     sum_bind (json_at J json ACTION_KEY) (\<lambda>action.
       if json_get_string J action = Some ''send'' then
         sum_bind (validateKeysExist J json) (\<lambda>_. validateKeysTypes J json)
       else
         sum_bind (validateSingleKeyExists J json CODE_WORDS_KEY) (\<lambda>_.
           validateStringKey J json CODE_WORDS_KEY)))"

definition create :: "'j json_api \<Rightarrow> bytes \<Rightarrow> error + 'j" where
  "create J str =
     (case (case json_parse J str of
              None \<Rightarrow> Inl (Json_exception ''parse_error'')
            | Some json \<Rightarrow> sum_bind (validate J json) (\<lambda>_. Inr json)) of
        Inl (Json_exception _) \<Rightarrow> Inl (InitSessionMessageException ''Could not parse to json.'')
      | r \<Rightarrow> r)"

section \<open>What is accepted\<close>

text \<open>The two kinds of first message.\<close>

definition has_string :: "'j json_api \<Rightarrow> 'j \<Rightarrow> string \<Rightarrow> bool" where
  "has_string J j key \<longleftrightarrow> (\<exists>v s. json_find J j key = Some v \<and> json_get_string J v = Some s)"

definition valid_send :: "'j json_api \<Rightarrow> 'j \<Rightarrow> bool" where
  "valid_send J j \<longleftrightarrow>
     (\<exists>a. json_find J j ACTION_KEY = Some a \<and> json_get_string J a = Some ''send'') \<and>
     has_string J j FILENAME_KEY \<and> has_string J j FILE_HASH_KEY \<and>
     (\<exists>n. json_find J j FILE_SIZE_KEY = Some n \<and> json_is_number_unsigned J n) \<and>
     (\<exists>c b. json_find J j IS_COMPRESSED_KEY = Some c \<and> json_get_bool J c = Some b)"

definition valid_receive :: "'j json_api \<Rightarrow> 'j \<Rightarrow> bool" where
  "valid_receive J j \<longleftrightarrow>
     (\<exists>a. json_find J j ACTION_KEY = Some a \<and> json_get_string J a = Some ''receive'') \<and>
     has_string J j CODE_WORDS_KEY"

lemma validateSingleKeyExists_iff:
  "validateSingleKeyExists J j k = Inr () \<longleftrightarrow> (\<exists>v. json_find J j k = Some v)"
  by (auto simp: validateSingleKeyExists_def json_contains_def)

lemma validateStringKey_iff: "validateStringKey J j k = Inr () \<longleftrightarrow> has_string J j k"
  by (auto simp: validateStringKey_def json_at_def has_string_def split: option.splits)

lemmas check_iffs = validateSingleKeyExists_iff validateStringKey_iff

lemma validateActionKey_iff:
  "validateActionKey J j = Inr () \<longleftrightarrow>
     (\<exists>a. json_find J j ACTION_KEY = Some a \<and>
        (json_get_string J a = Some ''send'' \<or> json_get_string J a = Some ''receive''))"
  by (auto simp: validateActionKey_def sum_bind_Inr_iff check_iffs has_string_def json_at_def
      split: if_splits option.splits)

lemma validateKeysExist_iff:
  "validateKeysExist J j = Inr () \<longleftrightarrow>
     (\<forall>k \<in> {FILENAME_KEY, FILE_SIZE_KEY, FILE_HASH_KEY, IS_COMPRESSED_KEY}. \<exists>v. json_find J j k = Some v)"
  by (auto simp: validateKeysExist_def sum_bind_Inr_iff check_iffs)

lemma validateKeysTypes_iff:
  "validateKeysTypes J j = Inr () \<longleftrightarrow>
     has_string J j FILENAME_KEY \<and> has_string J j FILE_HASH_KEY \<and>
     (\<exists>n. json_find J j FILE_SIZE_KEY = Some n \<and> json_is_number_unsigned J n) \<and>
     (\<exists>c b. json_find J j IS_COMPRESSED_KEY = Some c \<and> json_get_bool J c = Some b)"
  by (auto simp: validateKeysTypes_def sum_bind_Inr_iff check_iffs json_at_def
      split: if_splits option.splits)

lemma validate_iff: "validate J j = Inr () \<longleftrightarrow> valid_send J j \<or> valid_receive J j"
  by (auto simp: validate_def sum_bind_Inr_iff validateActionKey_iff validateKeysExist_iff
      validateKeysTypes_iff check_iffs json_at_def valid_send_def valid_receive_def has_string_def
      split: if_splits option.splits)

text \<open>Only errors of this class, and no missing key is ever indexed.\<close>

definition only_init_errors :: "error + 'a \<Rightarrow> bool" where
  "only_init_errors r \<longleftrightarrow> (\<forall>e. r = Inl e \<longrightarrow> (\<exists>m. e = InitSessionMessageException m))"

lemma only_init_bind:
  "only_init_errors r \<Longrightarrow> (\<And>x. r = Inr x \<Longrightarrow> only_init_errors (f x)) \<Longrightarrow> only_init_errors (sum_bind r f)"
  by (cases r) (auto simp: only_init_errors_def)

lemma only_init_leaf [simp]:
  "only_init_errors (Inr x)" "only_init_errors (Inl (InitSessionMessageException m))"
  by (simp_all add: only_init_errors_def)

lemma only_init_exists: "only_init_errors (validateSingleKeyExists J j k)"
  by (simp add: validateSingleKeyExists_def)

lemma only_init_string: "json_find J j k = Some v \<Longrightarrow> only_init_errors (validateStringKey J j k)"
  by (simp add: validateStringKey_def json_at_def)

lemma only_init_action: "only_init_errors (validateActionKey J j)"
  unfolding validateActionKey_def
proof (intro only_init_bind only_init_exists, goal_cases)
  case (1 u)
  then show ?case by (auto simp: check_iffs intro: only_init_string)
next
  case (2 u v)
  then show ?case by (auto simp: check_iffs json_at_def)
next
  case (3 u v a)
  then show ?case by (auto simp: check_iffs json_at_def has_string_def)
qed

lemma only_init_keys_exist: "only_init_errors (validateKeysExist J j)"
  unfolding validateKeysExist_def by (auto intro!: only_init_bind only_init_exists)

lemma only_init_types:
  assumes "validateKeysExist J j = Inr ()"
  shows "only_init_errors (validateKeysTypes J j)"
  using assms unfolding validateKeysTypes_def validateKeysExist_iff
  by (auto intro!: only_init_bind only_init_string simp: json_at_def)

lemma only_init_validate: "only_init_errors (validate J j)"
  unfolding validate_def
proof (intro only_init_bind only_init_action, goal_cases)
  case (1 u)
  then show ?case by (auto simp: validateActionKey_iff json_at_def)
next
  case (2 u a)
  then show ?case
    by (auto intro!: only_init_bind only_init_keys_exist only_init_types only_init_exists
        intro: only_init_string simp: check_iffs)
qed

lemma create_ok: "json_parse J str = Some j \<Longrightarrow> valid_send J j \<or> valid_receive J j \<Longrightarrow> create J str = Inr j"
  by (simp add: create_def validate_iff [symmetric])

lemma validate_outcome:
  "validate J x = Inr () \<or> (\<exists>m. validate J x = Inl (InitSessionMessageException m))"
  using only_init_validate [of J x] by (cases "validate J x") (auto simp: only_init_errors_def)

lemma create_Inr: "create J str = Inr j \<Longrightarrow> json_parse J str = Some j \<and> (valid_send J j \<or> valid_receive J j)"
  using validate_outcome [of J]
  by (auto simp: create_def validate_iff [symmetric] sum_bind_def split: option.splits sum.splits error.splits)

lemma create_safe: "only_init_errors (create J str)"
proof (cases "json_parse J str")
  case (Some x)
  with validate_outcome [of J x] show ?thesis by (auto simp: create_def)
qed (simp add: create_def)

text \<open>
  C29. The server accepts exactly the two kinds of first message: \<open>create\<close> returns the parsed value
  just when the text parses to an object that is a send request (file name and hash strings, an
  unsigned size, a boolean) or a receive request (a code string); every refusal, whatever the text,
  is an \<open>InitSessionMessageException\<close>, so no malformed message reaches undefined behaviour or another
  exception.
\<close>

theorem create_accepts:
  "(create J str = Inr j \<longleftrightarrow> json_parse J str = Some j \<and> (valid_send J j \<or> valid_receive J j)) \<and>
   only_init_errors (create J str)"
  using create_Inr [of J str j] create_ok [of J str j] create_safe [of J str] by blast

section \<open>What the clients build\<close>

text \<open>The fields of a send request as both ends read them.\<close>

definition announces :: "'j json_api \<Rightarrow> 'j \<Rightarrow> string \<Rightarrow> size_t \<Rightarrow> string \<Rightarrow> bool \<Rightarrow> bool" where
  "announces J j name fsize hash compressed \<longleftrightarrow>
     json_get (json_get_string J) J j FILENAME_KEY = Inr name \<and>
     json_get (json_get_size J) J j FILE_SIZE_KEY = Inr fsize \<and>
     json_get (json_get_string J) J j FILE_HASH_KEY = Inr hash \<and>
     json_get (json_get_bool J) J j IS_COMPRESSED_KEY = Inr compressed"

definition send_fields :: "string \<Rightarrow> size_t \<Rightarrow> string \<Rightarrow> bool \<Rightarrow> (string \<times> json_scalar) list" where
  "send_fields name fsize hash compressed =
     [(ACTION_KEY, J_string ''send''), (FILENAME_KEY, J_string name), (FILE_SIZE_KEY, J_number fsize),
      (FILE_HASH_KEY, J_string hash), (IS_COMPRESSED_KEY, J_bool compressed)]"

lemma send_fields_object:
  fixes name fsize hash compressed
  assumes "json_laws J text"
  defines "j \<equiv> json_object J (send_fields name fsize hash compressed)"
  shows "valid_send J j" and "announces J j name fsize hash compressed"
proof -
  have d: "distinct (map fst (send_fields name fsize hash compressed))"
    by (simp add: send_fields_def key_defs)
  note find = json_laws_find [OF assms(1) d, folded j_def]
  have "\<exists>x. json_find J j ACTION_KEY = Some x \<and> reads_as J (J_string ''send'') x"
    "\<exists>x. json_find J j FILENAME_KEY = Some x \<and> reads_as J (J_string name) x"
    "\<exists>x. json_find J j FILE_SIZE_KEY = Some x \<and> reads_as J (J_number fsize) x"
    "\<exists>x. json_find J j FILE_HASH_KEY = Some x \<and> reads_as J (J_string hash) x"
    "\<exists>x. json_find J j IS_COMPRESSED_KEY = Some x \<and> reads_as J (J_bool compressed) x"
    by (rule find; simp add: send_fields_def key_defs)+
  then show "valid_send J j" "announces J j name fsize hash compressed"
    by (auto simp: valid_send_def announces_def has_string_def json_get_def)
qed

lemma valid_send_announces:
  assumes "json_laws J text" and "valid_send J j"
  shows "\<exists>name fsize hash compressed. announces J j name fsize hash compressed"
  using assms json_laws_unsigned [OF assms(1)]
  by (fastforce simp: valid_send_def announces_def has_string_def json_get_def)

lemma createSendMessage_file:
  assumes "evp_laws E digest" and "open_in h path = Some content"
  shows "createSendMessage E J h path compressed =
    Inr (json_object J (send_fields (filename path) (of_nat (length content))
      (binaryToHumanReadable (digest content)) compressed))"
proof -
  have "stat h path = Some (File content)"
    using assms(2) by (auto simp: open_in_def split: option.splits node.splits)
  then have "fs_exists h path" "file_size h path = Inr (of_nat (length content))"
    by (simp_all add: fs_exists_def file_size_def)
  moreover have "calculateFileHash E h path = Inr (binaryToHumanReadable (digest content))"
    using calculateFileHash_ok [OF assms] .
  ultimately show ?thesis
    by (simp add: createSendMessage_def json_object_def send_fields_def Let_def)
qed

lemma ascii_constants:
  assumes "json_laws J text"
  shows "text ACTION_KEY" "text FILENAME_KEY" "text FILE_SIZE_KEY" "text FILE_HASH_KEY"
    "text IS_COMPRESSED_KEY" "text CODE_WORDS_KEY" "text ''send''" "text ''receive''"
    "text (binaryToHumanReadable d)"
proof -
  have "c \<in> set (binaryToHumanReadable d) \<Longrightarrow> of_char c < (128 :: nat)" for c
    using binaryToHumanReadable_ascii [of c d] by simp
  then show "text (binaryToHumanReadable d)" by (rule json_laws_ascii [OF assms])
qed (rule json_laws_ascii [OF assms]; auto simp: key_defs)+

text \<open>
  C30. What a sender announces is what the server and the receiver read: the message built for a
  regular file with a valid name is accepted by the server's check after a dump and a parse, is a
  send request, and carries the file's name, its size, the hex digest of its content and the
  compression flag.
\<close>

theorem send_message_roundtrip:
  assumes "json_laws J text" and "evp_laws E digest" and "open_in h path = Some content"
    and "text (filename path)"
  shows "\<exists>j d. createSendMessage E J h path compressed = Inr j \<and> json_dump J j = Some d \<and>
    create J d = Inr j \<and> valid_send J j \<and>
    announces J j (filename path) (of_nat (length content)) (binaryToHumanReadable (digest content)) compressed"
proof -
  let ?f = "send_fields (filename path) (of_nat (length content)) (binaryToHumanReadable (digest content)) compressed"
  let ?j = "json_object J ?f"
  have "distinct (map fst ?f)" by (simp add: send_fields_def key_defs)
  moreover have "\<forall>(k, v) \<in> set ?f. text k \<and> (\<forall>s. v = J_string s \<longrightarrow> text s)"
    using ascii_constants [OF assms(1)] assms(4) by (auto simp: send_fields_def)
  ultimately obtain d where "json_dump J ?j = Some d" "json_parse J d = Some ?j"
    using json_laws_dump_object [OF assms(1), of ?f] by blast
  moreover note createSendMessage_file [OF assms(2,3), of J compressed]
  moreover note send_fields_object [OF assms(1), of "filename path"]
  ultimately show ?thesis by (intro exI [of _ ?j] exI [of _ d]) (simp add: create_ok)
qed

theorem send_message_roundtrip_witness:
  "\<exists>j d. createSendMessage take4_evp flat_json sample_host ''f'' False = Inr j \<and>
    json_dump flat_json j = Some d \<and> create flat_json d = Inr j \<and>
    announces flat_json j ''f'' 4 (binaryToHumanReadable ''data'') False"
proof -
  have c: "open_in sample_host ''f'' = Some ''data''"
    by (simp add: sample_host_def open_in_def stat_def resolve_def is_absolute_def)
  have n: "filename ''f'' = ''f''" by (simp add: filename_def)
  show ?thesis
    using send_message_roundtrip [OF flat_json_laws take4_evp_laws c, of False]
    by (auto simp: n)
qed

lemma createReceiveMessage_object:
  "createReceiveMessage J code = json_object J [(ACTION_KEY, J_string ''receive''), (CODE_WORDS_KEY, J_string code)]"
  by (simp add: createReceiveMessage_def json_object_def Let_def)

lemma createReceiveMessage_valid:
  assumes "json_laws J text"
  shows "valid_receive J (createReceiveMessage J code)"
    and "json_get (json_get_string J) J (createReceiveMessage J code) CODE_WORDS_KEY = Inr code"
proof -
  let ?f = "[(ACTION_KEY, J_string ''receive''), (CODE_WORDS_KEY, J_string code)]"
  have d: "distinct (map fst ?f)" by (simp add: key_defs)
  have "\<exists>x. json_find J (json_object J ?f) ACTION_KEY = Some x \<and> reads_as J (J_string ''receive'') x"
    "\<exists>x. json_find J (json_object J ?f) CODE_WORDS_KEY = Some x \<and> reads_as J (J_string code) x"
    by (rule json_laws_find [OF assms d]; simp add: key_defs)+
  then show "valid_receive J (createReceiveMessage J code)"
    "json_get (json_get_string J) J (createReceiveMessage J code) CODE_WORDS_KEY = Inr code"
    by (auto simp: createReceiveMessage_object valid_receive_def has_string_def json_get_def)
qed

lemma createReceiveMessage_dump:
  assumes "json_laws J text" and "text code"
  shows "\<exists>d. json_dump J (createReceiveMessage J code) = Some d \<and> d \<noteq> [] \<and>
    create J d = Inr (createReceiveMessage J code)"
proof -
  let ?f = "[(ACTION_KEY, J_string ''receive''), (CODE_WORDS_KEY, J_string code)]"
  have "distinct (map fst ?f)" by (simp add: key_defs)
  moreover have "\<forall>(k, v) \<in> set ?f. text k \<and> (\<forall>s. v = J_string s \<longrightarrow> text s)"
    using ascii_constants [OF assms(1)] assms(2) by auto
  ultimately obtain d where "json_dump J (json_object J ?f) = Some d" "d \<noteq> []"
    "json_parse J d = Some (json_object J ?f)"
    using json_laws_dump_object [OF assms(1), of ?f] by blast
  with createReceiveMessage_valid [OF assms(1), of code] show ?thesis
    by (intro exI [of _ d]) (simp add: createReceiveMessage_object [symmetric] create_ok)
qed

end
