(* ===== verification/FSEntryInfo.thy ===== *)
theory FSEntryInfo
  imports Utils
begin

text \<open>
  \<open>src/client/FSEntryInfo.cpp\<close>: the header of an archive entry, its writing with a length that is
  filled in afterwards, and its checked reading.
\<close>

section \<open>The header\<close>

record fs_entry =
  is_directory :: bool
  relative_path :: string
  compressed_length :: size_t

definition PATH_MAX_LEN :: nat where
  "PATH_MAX_LEN = 4096"

text \<open>The constructor.\<close>

definition FSEntryInfo_init :: "bool \<Rightarrow> string \<Rightarrow> error + fs_entry" where
  "FSEntryInfo_init isdir path_str =
     (if PATH_MAX_LEN < length path_str then
        Inl (FSEntryInfoException (path_str @ '' path is longer than allowed ('' @
          show_nat (length path_str) @ ''>'' @ show_nat PATH_MAX_LEN @ '')''))
      else Inr \<lparr>is_directory = isdir, relative_path = path_str, compressed_length = 0\<rparr>)"

text \<open>\<open>read\<close> of \<open>n\<close> bytes, with the exception thrown when \<open>gcount\<close> is not \<open>n\<close>.\<close>

definition read_part :: "nat \<Rightarrow> string \<Rightarrow> (istream, bytes) prog" where
  "read_part n complaint s =
     (case istream_read n s of (got, s') \<Rightarrow>
        if length got \<noteq> n then (Inl (FSEntryInfoException complaint), s') else (Inr got, s'))"

text \<open>A byte other than 0 and 1 in a \<open>bool\<close> makes its use undefined.\<close>

definition bool_of_byte :: "bytes \<Rightarrow> error + bool" where
  "bool_of_byte b =
     (if b = [CHR 0x00] then Inr False
      else if b = [CHR 0x01] then Inr True
      else Inl (Undefined_behaviour ''invalid bool''))"

definition byte_of_bool :: "bool \<Rightarrow> bytes" where
  "byte_of_bool b = (if b then [CHR 0x01] else [CHR 0x00])"

definition read_path :: "(istream, string) prog" where
  "read_path = andthen (read_part 8 ''Could not read path length.'') (\<lambda>len.
     if of_nat PATH_MAX_LEN < bytes_size len then
       throw (FSEntryInfoException (''Path length exceeds maximum available value ('' @
         show_nat (unat (bytes_size len)) @ '' > '' @ show_nat PATH_MAX_LEN @ '')''))
     else read_part (unat (bytes_size len)) ''Could not read whole path.'')"

definition read_compressed_length :: "size_t \<Rightarrow> (istream, size_t) prog" where
  "read_compressed_length total_stream_size =
     andthen (read_part 8 ''Could not read compressed length.'') (\<lambda>clen.
     andthen (\<lambda>s. (getRemainingBytes s total_stream_size, s)) (\<lambda>left_size.
       if left_size < bytes_size clen then
         throw (FSEntryInfoException (''Entry'' @ CHR 0x27 # ''s size exceeds remaining data'' @ CHR 0x27 #
           ''s size ('' @ show_nat (unat (bytes_size clen)) @ '' > '' @ show_nat (unat left_size) @ '')''))
       else ret (bytes_size clen)))"

definition readFromStream :: "size_t \<Rightarrow> (istream, fs_entry) prog" where
  "readFromStream total_stream_size =
     andthen (read_part 1 ''Could not read type of dir entry.'') (\<lambda>flag.
     andthen read_path (\<lambda>path.
     andthen (read_compressed_length total_stream_size) (\<lambda>clen.
     andthen (of_sum (bool_of_byte flag)) (\<lambda>isdir.
       ret \<lparr>is_directory = isdir, relative_path = path, compressed_length = clen\<rparr>))))"

definition writeToStream :: "fs_entry \<Rightarrow> (ostream, nat) prog" where
  "writeToStream e s =
     (let s1 = ostream_write (byte_of_bool (is_directory e)) s;
          path_len = length (relative_path e)
      in if PATH_MAX_LEN < path_len then
           (Inl (FSEntryInfoException (''Cannot write path to stream (too long! '' @ show_nat path_len @
              '' > '' @ show_nat PATH_MAX_LEN @ '')'')), s1)
         else
           let s2 = ostream_write (size_bytes (of_nat path_len)) s1;
               s3 = ostream_write (relative_path e) s2;
               pos_to_write_compressed_size = tellp s3;
               s4 = ostream_write (size_bytes (compressed_length e)) s3
           in (Inr pos_to_write_compressed_size, s4))"

definition writeCompressedLength :: "nat \<Rightarrow> size_t \<Rightarrow> ostream \<Rightarrow> ostream" where
  "writeCompressedLength pos total_written s =
     seekp_end (ostream_write (size_bytes total_written) (seekp pos s))"

section \<open>The bytes of a header\<close>

definition header :: "fs_entry \<Rightarrow> bytes" where
  "header e = byte_of_bool (is_directory e) @ size_bytes (of_nat (length (relative_path e))) @
     relative_path e @ size_bytes (compressed_length e)"

definition entry_ok :: "fs_entry \<Rightarrow> bool" where
  "entry_ok e \<longleftrightarrow> length (relative_path e) \<le> PATH_MAX_LEN"

lemma length_byte_of_bool [simp]: "length (byte_of_bool b) = 1"
  by (simp add: byte_of_bool_def)

lemma bool_of_byte_of_bool [simp]: "bool_of_byte (byte_of_bool b) = Inr b"
  by (simp add: bool_of_byte_def byte_of_bool_def)

lemma bool_of_byte_Inr: "bool_of_byte b = Inr x \<Longrightarrow> b = byte_of_bool x"
  by (auto simp: bool_of_byte_def byte_of_bool_def split: if_splits)

lemma length_header: "length (header e) = 17 + length (relative_path e)"
  by (simp add: header_def)

text \<open>Writing at the end of a stream appends the header and returns the place of its length field.\<close>

lemma at_end_write [simp]: "at_end s \<Longrightarrow> at_end (ostream_write d s)"
  "at_end s \<Longrightarrow> obuf (ostream_write d s) = obuf s @ d" "at_end s \<Longrightarrow> opos (ostream_write d s) = length (obuf s @ d)"
  by (simp_all add: ostream_write_def at_end_def)

lemma writeToStream_header:
  assumes "at_end s" and "entry_ok e"
  shows "\<exists>s'. writeToStream e s = (Inr (length (obuf s) + 9 + length (relative_path e)), s') \<and>
    at_end s' \<and> obuf s' = obuf s @ header e"
  using assms by (simp add: writeToStream_def Let_def entry_ok_def header_def tellp_def)

text \<open>Filling the length in changes exactly the length field of the header written before.\<close>

lemma writeCompressedLength_header:
  assumes "obuf s = old @ header e @ body"
  shows "at_end (writeCompressedLength (length old + 9 + length (relative_path e)) n s) \<and>
    obuf (writeCompressedLength (length old + 9 + length (relative_path e)) n s) =
      old @ header (e\<lparr>compressed_length := n\<rparr>) @ body"
  using assms
  by (simp add: writeCompressedLength_def seekp_def seekp_end_def at_end_def ostream_write_def header_def)

section \<open>Reading\<close>

lemma read_part_full:
  "\<not> ifail s \<Longrightarrow> unread s = d @ rest \<Longrightarrow> n = length d \<Longrightarrow>
   read_part n c s = (Inr d, s\<lparr>ipos := ipos s + length d\<rparr>)"
  by (simp add: read_part_def istream_read_full)

lemma read_part_at:
  assumes "\<not> ifail s" and "unread s = pre @ d @ rest"
  shows "read_part (length d) c (s\<lparr>ipos := ipos s + length pre\<rparr>) = (Inr d, s\<lparr>ipos := ipos s + length (pre @ d)\<rparr>)"
proof -
  have "unread (s\<lparr>ipos := ipos s + length pre\<rparr>) = d @ rest" using assms(2) by simp
  from read_part_full [OF _ this refl, of c] assms(1) show ?thesis by (simp add: add.assoc)
qed

lemma read_part_cases:
  assumes "\<not> ifail s"
  obtains (full) d rest where "unread s = d @ rest" "length d = n" "read_part n c s = (Inr d, s\<lparr>ipos := ipos s + n\<rparr>)"
    | (short) s' where "length (unread s) < n" "read_part n c s = (Inl (FSEntryInfoException c), s')"
proof (cases "n \<le> length (unread s)")
  case True
  then show thesis using assms
    by (intro full [of "take n (unread s)" "drop n (unread s)"]) (simp_all add: read_part_def istream_read_full)
next
  case False
  then show thesis using assms
    by (intro short) (auto simp: read_part_def istream_read_short)
qed

lemma getRemainingBytes_at: "\<not> ifail s \<Longrightarrow> getRemainingBytes s total_length = Inr (total_length - of_nat (ipos s))"
  by (simp add: getRemainingBytes_def tellg_def)

lemma PATH_MAX_LEN_word: "unat (of_nat PATH_MAX_LEN :: size_t) = 4096"
  by (simp add: PATH_MAX_LEN_def)

lemma readFromStream_header:
  assumes "\<not> ifail s" and "unread s = header e @ rest" and "entry_ok e"
    and "compressed_length e \<le> total_length - of_nat (ipos s + length (header e))"
  shows "readFromStream total_length s = (Inr e, s\<lparr>ipos := ipos s + length (header e)\<rparr>)"
proof -
  let ?p = "relative_path e"
  let ?s1 = "s\<lparr>ipos := ipos s + 1\<rparr>" and ?s2 = "s\<lparr>ipos := ipos s + 9\<rparr>"
    and ?s3 = "s\<lparr>ipos := ipos s + 9 + length ?p\<rparr>" and ?s4 = "s\<lparr>ipos := ipos s + length (header e)\<rparr>"
  have l: "length ?p \<le> 4096" using assms(3) by (simp add: entry_ok_def PATH_MAX_LEN_def)
  then have u: "unat (of_nat (length ?p) :: size_t) = length ?p" by (intro unat_of_nat_size) simp
  let ?f = "byte_of_bool (is_directory e)" and ?n = "size_bytes (of_nat (length ?p))"
    and ?c = "size_bytes (compressed_length e)"
  have un: "unread s = ?f @ ?n @ ?p @ ?c @ rest" using assms(2) by (simp add: header_def)
  have r1: "read_part 1 c s = (Inr ?f, ?s1)" for c
    using read_part_at [OF assms(1), of "[]" ?f "?n @ ?p @ ?c @ rest" c] un by simp
  have r2: "read_part 8 c ?s1 = (Inr ?n, ?s2)" for c
    using read_part_at [OF assms(1), of ?f ?n "?p @ ?c @ rest" c] un by simp
  have r3: "read_part (length ?p) c ?s2 = (Inr ?p, ?s3)" for c
    using read_part_at [OF assms(1), of "?f @ ?n" ?p "?c @ rest" c] un by (simp add: add.assoc)
  have r4: "read_part 8 c ?s3 = (Inr ?c, ?s4)" for c
    using read_part_at [OF assms(1), of "?f @ ?n @ ?p" ?c rest c] un by (simp add: add.assoc header_def)
  have g: "getRemainingBytes ?s4 total_length = Inr (total_length - of_nat (ipos s + length (header e)))"
    using assms(1) getRemainingBytes_at [of ?s4 total_length] by simp
  have "\<not> of_nat PATH_MAX_LEN < (of_nat (length ?p) :: size_t)"
    using l u PATH_MAX_LEN_word by (simp add: word_less_nat_alt)
  then show ?thesis using assms(4) u
    by (simp add: readFromStream_def read_path_def read_compressed_length_def andthen_def r1 r2 r3 r4 g not_less
        del: One_nat_def)
qed

text \<open>Whatever is in the stream: an entry, or an exception that says what is missing.\<close>

definition header_error :: "error \<Rightarrow> bool" where
  "header_error e \<longleftrightarrow> (\<exists>m. e = FSEntryInfoException m)"

text \<open>A header that is good but for its type byte.\<close>

definition bad_type :: "char \<Rightarrow> bool" where
  "bad_type b \<longleftrightarrow> b \<noteq> CHR 0x00 \<and> b \<noteq> CHR 0x01"

definition typed_header :: "char \<Rightarrow> fs_entry \<Rightarrow> bytes" where
  "typed_header b e = b # size_bytes (of_nat (length (relative_path e))) @ relative_path e @ size_bytes (compressed_length e)"

lemma header_typed: "header e = typed_header (if is_directory e then CHR 0x01 else CHR 0x00) e"
  by (simp add: header_def typed_header_def byte_of_bool_def)

text \<open>What a successful read of the bytes \<open>d\<close> leaves behind.\<close>

definition consumed :: "bytes \<Rightarrow> istream \<Rightarrow> istream \<Rightarrow> bool" where
  "consumed d s s' \<longleftrightarrow> unread s = d @ unread s' \<and> s' = s\<lparr>ipos := ipos s + length d\<rparr> \<and> \<not> ifail s'"

lemma consumed_good: "consumed d s s' \<Longrightarrow> \<not> ifail s'"
  by (unfold consumed_def) blast

lemma consumed_trans:
  assumes "consumed c s s1" and "consumed d s1 s2"
  shows "consumed (c @ d) s s2"
proof -
  have 1: "unread s = c @ unread s1" "s1 = s\<lparr>ipos := ipos s + length c\<rparr>"
    using assms(1) by (unfold consumed_def) blast+
  have 2: "unread s1 = d @ unread s2" "s2 = s1\<lparr>ipos := ipos s1 + length d\<rparr>" "\<not> ifail s2"
    using assms(2) by (unfold consumed_def) blast+
  have "unread s = (c @ d) @ unread s2" by (simp only: 1(1) 2(1) append_assoc)
  moreover have "s2 = s\<lparr>ipos := ipos s + length (c @ d)\<rparr>" unfolding 2(2) 1(2) by simp
  ultimately show ?thesis using 2(3) by (unfold consumed_def) blast
qed

lemma read_part_outcome:
  assumes "\<not> ifail s" and "read_part n c s = (r, s')"
  shows "(\<exists>e. r = Inl e \<and> header_error e) \<or> (\<exists>d. r = Inr d \<and> length d = n \<and> consumed d s s')"
  using assms(1)
proof (cases rule: read_part_cases [where n = n and c = c])
  case (full d rest)
  then show ?thesis using assms by (auto simp: consumed_def)
next
  case short
  then show ?thesis using assms by (simp add: header_error_def)
qed

lemma read_path_outcome:
  assumes "\<not> ifail s" and "read_path s = (r, s')"
  shows "(\<exists>e. r = Inl e \<and> header_error e) \<or>
    (\<exists>p. r = Inr p \<and> length p \<le> PATH_MAX_LEN \<and> consumed (size_bytes (of_nat (length p)) @ p) s s')"
  using assms(2) unfolding read_path_def
proof (cases rule: andthen_cases)
  case (error e)
  then show ?thesis using read_part_outcome [OF assms(1) error(1)] by auto
next
  case (ok n s1)
  from read_part_outcome [OF assms(1) ok(1)] have n: "length n = 8" "consumed n s s1" by auto
  show ?thesis
  proof (cases "of_nat PATH_MAX_LEN < bytes_size n")
    case True
    then show ?thesis using ok(2) by (auto simp: header_error_def)
  next
    case False
    then have l: "unat (bytes_size n) \<le> PATH_MAX_LEN"
      using PATH_MAX_LEN_word by (simp add: word_less_nat_alt PATH_MAX_LEN_def)
    have "\<not> ifail s1" by (rule consumed_good [OF n(2)])
    from read_part_outcome [OF this] ok(2) False
    have "(\<exists>e. r = Inl e \<and> header_error e) \<or> (\<exists>p. r = Inr p \<and> length p = unat (bytes_size n) \<and> consumed p s1 s')"
      by simp
    then show ?thesis
    proof (elim disjE exE conjE)
      fix p assume p: "r = Inr p" "length p = unat (bytes_size n)" "consumed p s1 s'"
      have "size_bytes (of_nat (length p)) = n" using p(2) n(1) by (simp add: size_bytes_size)
      then show ?thesis using p l consumed_trans [OF n(2) p(3)] by simp
    qed auto
  qed
qed

lemma read_compressed_length_outcome:
  assumes "\<not> ifail s" and "read_compressed_length total_length s = (r, s')"
  shows "(\<exists>e. r = Inl e \<and> header_error e) \<or>
    (\<exists>c. r = Inr c \<and> c \<le> total_length - of_nat (ipos s') \<and> consumed (size_bytes c) s s')"
  using assms(2) unfolding read_compressed_length_def
proof (cases rule: andthen_cases)
  case (error e)
  then show ?thesis using read_part_outcome [OF assms(1) error(1)] by auto
next
  case (ok c s1)
  from read_part_outcome [OF assms(1) ok(1)] have c: "length c = 8" "consumed c s s1" by auto
  then have "getRemainingBytes s1 total_length = Inr (total_length - of_nat (ipos s1))"
    by (intro getRemainingBytes_at consumed_good)
  with ok(2) c show ?thesis
    by (auto simp: andthen_def header_error_def size_bytes_size not_less split: if_splits)
qed

lemma readFromStream_outcome:
  assumes "\<not> ifail s" and "readFromStream total_length s = (r, s')"
  shows "(\<exists>e. r = Inl e \<and> header_error e) \<or>
    (\<exists>b e. r = Inl (Undefined_behaviour ''invalid bool'') \<and> bad_type b \<and> entry_ok e \<and> consumed (typed_header b e) s s' \<and>
      compressed_length e \<le> total_length - of_nat (ipos s')) \<or>
    (\<exists>e. r = Inr e \<and> entry_ok e \<and> consumed (header e) s s' \<and>
      compressed_length e \<le> total_length - of_nat (ipos s'))"
  using assms(2) unfolding readFromStream_def
proof (cases rule: andthen_cases)
  case (error e)
  then show ?thesis using read_part_outcome [OF assms(1) error(1)] by auto
next
  case f: (ok f s1)
  from read_part_outcome [OF assms(1) f(1)] have f': "length f = 1" "consumed f s s1" "\<not> ifail s1" using consumed_good by auto
  from f(2) show ?thesis
  proof (cases rule: andthen_cases)
    case (error e)
    then show ?thesis using read_path_outcome [OF f'(3) error(1)] by auto
  next
    case p: (ok p s2)
    from read_path_outcome [OF f'(3) p(1)] have p': "length p \<le> PATH_MAX_LEN"
      "consumed (size_bytes (of_nat (length p)) @ p) s1 s2" "\<not> ifail s2" using consumed_good by auto
    from p(2) show ?thesis
    proof (cases rule: andthen_cases)
      case (error e)
      then show ?thesis using read_compressed_length_outcome [OF p'(3) error(1)] by auto
    next
      case c: (ok c s3)
      from read_compressed_length_outcome [OF p'(3) c(1)] have c': "c \<le> total_length - of_nat (ipos s3)"
        "consumed (size_bytes c) s2 s3" by auto
      have all: "consumed (f @ (size_bytes (of_nat (length p)) @ p) @ size_bytes c) s s3"
        using consumed_trans [OF f'(2) consumed_trans [OF p'(2) c'(2)]] by simp
      show ?thesis
      proof (cases "bool_of_byte f")
        case (Inl e)
        obtain b where b: "f = [b]" using f'(1) by (cases f) auto
        with Inl c(2) have bad: "bad_type b" "r = Inl (Undefined_behaviour ''invalid bool'')" "s' = s3"
          by (auto simp: andthen_def bool_of_byte_def bad_type_def split: if_splits)
        then show ?thesis using c'(1) p'(1) all b
          by (intro disjI2 disjI1 exI [of _ b] exI [of _ "\<lparr>is_directory = True, relative_path = p, compressed_length = c\<rparr>"])
            (simp add: typed_header_def entry_ok_def)
      next
        case (Inr b)
        with bool_of_byte_Inr [OF Inr] c(2) c' p'(1) all show ?thesis
          by (intro disjI2 exI [of _ "\<lparr>is_directory = b, relative_path = p, compressed_length = c\<rparr>"])
            (simp add: andthen_def header_def entry_ok_def)
      qed
    qed
  qed
qed

section \<open>Properties\<close>

text \<open>Headers are a self-delimiting code; the stream is taken to be as long as a stream can be.\<close>

definition read_header :: "bytes \<Rightarrow> (error + fs_entry) \<times> bytes" where
  "read_header bs = (case readFromStream (- 1) (istream_of bs) of (r, s) \<Rightarrow> (r, unread s))"

interpretation header_codec: framed_codec header read_header
    "\<lambda>e. entry_ok e \<and> compressed_length e \<le> 2 ^ 63"
proof unfold_locales
  fix e rest assume e: "entry_ok e \<and> compressed_length e \<le> 2 ^ 63"
  then have "length (header e) \<le> 4113" by (simp add: length_header entry_ok_def PATH_MAX_LEN_def)
  then have "unat (of_nat (length (header e)) :: size_t) = length (header e)"
    by (intro unat_of_nat_size) simp
  then have "unat (- 1 - of_nat (length (header e)) :: size_t) = unat (- 1 :: size_t) - length (header e)"
    by (subst unat_sub) simp_all
  with \<open>length (header e) \<le> 4113\<close> have "(2 :: size_t) ^ 63 \<le> - 1 - of_nat (length (header e))"
    by (simp add: word_le_nat_alt unsigned_minus_1_eq_mask mask_eq_exp_minus_1)
  moreover from e have "compressed_length e \<le> 2 ^ 63" by (rule conjunct2)
  ultimately have "compressed_length e \<le> - 1 - of_nat (length (header e))" by (rule order_trans [rotated])
  then have "readFromStream (- 1) (istream_of (header e @ rest)) =
      (Inr e, (istream_of (header e @ rest))\<lparr>ipos := length (header e)\<rparr>)"
    using e readFromStream_header [of "istream_of (header e @ rest)" e rest "- 1"] by simp
  then show "read_header (header e @ rest) = (Inr e, rest)"
    by (simp add: read_header_def unread_def)
next
  fix e show "header e \<noteq> []" by (simp add: header_def byte_of_bool_def)
qed

text \<open>
  C34. An archive entry's header survives the round trip: written at the end of a stream and read at
  the same place of the finished file, it gives the same entry and leaves the reader at the entry's
  content, as long as the declared length of the content is not more than what follows.
\<close>

theorem header_roundtrip:
  assumes "at_end out" and "entry_ok e" and "unat (compressed_length e) \<le> length rest"
    and "length (obuf out @ header e @ rest) < 2 ^ 64"
  shows "\<exists>pos out'. writeToStream e out = (Inr pos, out') \<and>
    readFromStream (of_nat (length (obuf out' @ rest)))
      \<lparr>ibuf = obuf out' @ rest, ipos = length (obuf out), ifail = False\<rparr> =
    (Inr e, \<lparr>ibuf = obuf out' @ rest, ipos = length (obuf out'), ifail = False\<rparr>)"
proof -
  obtain pos out' where w: "writeToStream e out = (Inr pos, out')" "obuf out' = obuf out @ header e"
    using writeToStream_header [OF assms(1,2)] by blast
  let ?s = "\<lparr>ibuf = obuf out' @ rest, ipos = length (obuf out), ifail = False\<rparr>"
  have "of_nat (length (obuf out' @ rest)) - of_nat (length (obuf out')) = (of_nat (length rest) :: size_t)"
    by simp
  moreover have "unat (of_nat (length rest) :: size_t) = length rest"
    using assms(4) by (intro unat_of_nat_size) simp
  ultimately have "compressed_length e \<le> of_nat (length (obuf out' @ rest)) - of_nat (ipos ?s + length (header e))"
    using assms(3) w(2) by (simp add: word_le_nat_alt)
  moreover have "unread ?s = header e @ rest" by (simp add: unread_def w(2))
  ultimately have "readFromStream (of_nat (length (obuf out' @ rest))) ?s =
      (Inr e, ?s\<lparr>ipos := ipos ?s + length (header e)\<rparr>)"
    using assms(2) by (intro readFromStream_header) simp_all
  then show ?thesis using w by (simp add: add.assoc)
qed

definition sample_entry :: fs_entry where
  "sample_entry = \<lparr>is_directory = False, relative_path = ''d/f'', compressed_length = 2\<rparr>"

theorem header_roundtrip_witness:
  "\<exists>pos out'. writeToStream sample_entry ostream_empty = (Inr pos, out') \<and>
    fst (readFromStream (of_nat (length (obuf out' @ ''xyz'')))
      \<lparr>ibuf = obuf out' @ ''xyz'', ipos = 0, ifail = False\<rparr>) = Inr sample_entry"
  using header_roundtrip [of ostream_empty sample_entry "''xyz''"]
  by (auto simp: sample_entry_def entry_ok_def PATH_MAX_LEN_def length_header)

text \<open>What a declared length within bounds means for what is left.\<close>

lemma consumed_left:
  assumes "consumed d s s'" and "ipos s \<le> length (ibuf s)" and "length (ibuf s) < 2 ^ 64"
    and "c \<le> of_nat (length (ibuf s)) - of_nat (ipos s')"
  shows "unread s = d @ unread s' \<and> unat (c :: size_t) \<le> length (unread s')"
proof -
  have u: "unread s = d @ unread s'" and s': "s' = s\<lparr>ipos := ipos s + length d\<rparr>"
    using assms(1) by (unfold consumed_def) blast+
  have "length (unread s) = length (ibuf s) - ipos s" by (simp add: unread_def)
  moreover have "length (unread s) = length d + length (unread s')" by (subst u) simp
  moreover have "ipos s' = ipos s + length d" using s' by (cases s; cases s') auto
  ultimately have len: "length (ibuf s) = ipos s' + length (unread s')" using assms(2) by linarith
  then have "of_nat (length (ibuf s)) - of_nat (ipos s') = (of_nat (length (unread s')) :: size_t)" by simp
  moreover have "unat (of_nat (length (unread s')) :: size_t) = length (unread s')"
    using assms(3) len by (intro unat_of_nat_size) simp
  ultimately show ?thesis using assms(4) u by (simp add: word_le_nat_alt)
qed

lemma readFromStream_safe_cases:
  assumes "\<not> ifail s" and "ipos s \<le> length (ibuf s)" and "length (ibuf s) < 2 ^ 64"
    and "readFromStream (of_nat (length (ibuf s))) s = (r, s')"
  shows "(\<exists>e. r = Inl e \<and> header_error e) \<or>
    (\<exists>b e. r = Inl (Undefined_behaviour ''invalid bool'') \<and> bad_type b \<and> entry_ok e \<and>
      unread s = typed_header b e @ unread s' \<and> unat (compressed_length e) \<le> length (unread s')) \<or>
    (\<exists>e. r = Inr e \<and> entry_ok e \<and> unread s = header e @ unread s' \<and>
      unat (compressed_length e) \<le> length (unread s'))"
  using readFromStream_outcome [OF assms(1,4)] consumed_left [OF _ assms(2,3)] by blast

lemma typed_header_tl: "typed_header b e = b # tl (header e)"
  by (simp add: header_typed) (simp add: typed_header_def)

text \<open>
  C35. Reading a header of any bytes: an entry that is returned has a path within the limit
  and a declared length within what is left of the file, and the bytes read are exactly its header; a
  truncated header, or a path or a length out of bounds, is an \<open>FSEntryInfoException\<close>; and exactly
  one thing is not caught: a header that is good but for a type byte that is neither 0 nor 1, whose
  use as a \<open>bool\<close> is undefined.
\<close>

theorem readFromStream_safe:
  assumes "\<not> ifail s" and "ipos s \<le> length (ibuf s)" and "length (ibuf s) < 2 ^ 64"
    and "readFromStream (of_nat (length (ibuf s))) s = (r, s')"
  shows "(\<exists>m. r = Inl (FSEntryInfoException m)) \<or>
    (\<exists>e. r = Inr e \<and> entry_ok e \<and> unread s = header e @ unread s' \<and>
       unat (compressed_length e) \<le> length (unread s')) \<or>
    (\<exists>b e. r = Inl (Undefined_behaviour ''invalid bool'') \<and> b \<noteq> CHR 0x00 \<and> b \<noteq> CHR 0x01 \<and> entry_ok e \<and>
       unread s = b # tl (header e) @ unread s' \<and> unat (compressed_length e) \<le> length (unread s'))"
  using readFromStream_safe_cases [OF assms] unfolding typed_header_tl bad_type_def header_error_def append_Cons by blast

theorem readFromStream_safe_witness:
  "\<exists>m. fst (readFromStream 3 (istream_of ''abc'')) = Inl (FSEntryInfoException m)"
proof -
  have "\<not> (\<exists>e s'. ''abc'' = header e @ unread s')"
  proof (intro notI, elim exE)
    fix e s' assume "''abc'' = header e @ unread s'"
    then have "length ''abc'' = length (header e @ unread s')" by simp
    then show False by (simp add: length_header)
  qed
  moreover have "fst (readFromStream 3 (istream_of ''abc'')) \<noteq> Inl (Undefined_behaviour ''invalid bool'')"
    by (simp add: readFromStream_def read_path_def read_part_def istream_read_def istream_of_def andthen_def Let_def)
  ultimately show ?thesis
    using readFromStream_safe [of "istream_of ''abc''", OF _ _ _ surjective_pairing]
    by (auto split: sum.splits)
qed

text \<open>
  The length that is not known when the header is written ends up in the header: after the
  content has been written behind it, \<open>writeCompressedLength\<close> at the position \<open>writeToStream\<close>
  returned changes the header's length field and nothing else, and leaves the stream at its end.
\<close>

theorem writeCompressedLength_patches:
  assumes "at_end out" and "entry_ok e" and "writeToStream e out = (Inr pos, out1)"
  shows "at_end (writeCompressedLength pos n (ostream_write body out1)) \<and>
    obuf (writeCompressedLength pos n (ostream_write body out1)) =
      obuf out @ header (e\<lparr>compressed_length := n\<rparr>) @ body"
proof -
  have p: "pos = length (obuf out) + 9 + length (relative_path e)" "at_end out1" "obuf out1 = obuf out @ header e"
    using writeToStream_header [OF assms(1,2)] assms(3) by auto
  then have "obuf (ostream_write body out1) = obuf out @ header e @ body" by simp
  from writeCompressedLength_header [OF this, of n] show ?thesis by (simp add: p(1))
qed

theorem writeCompressedLength_patches_witness:
  "\<exists>pos out1. writeToStream sample_entry ostream_empty = (Inr pos, out1) \<and>
     obuf (writeCompressedLength pos 5 (ostream_write ''12345'' out1)) =
       header (sample_entry\<lparr>compressed_length := 5\<rparr>) @ ''12345''"
proof -
  have ok: "entry_ok sample_entry" by (simp add: sample_entry_def entry_ok_def PATH_MAX_LEN_def)
  obtain pos out1 where w: "writeToStream sample_entry ostream_empty = (Inr pos, out1)"
    using writeToStream_header [of ostream_empty sample_entry] ok by auto
  from writeCompressedLength_patches [OF _ ok w, of 5 "''12345''"] w show ?thesis by simp
qed

text \<open>
  A path longer than \<open>PATH_MAX_LEN\<close> gets into no archive: the constructor refuses it, and
  \<open>writeToStream\<close> throws after the type byte alone has been written; paths up to the limit are
  accepted with length 0.
\<close>

theorem long_path_refused:
  "(length p \<le> PATH_MAX_LEN \<longrightarrow>
      FSEntryInfo_init d p = Inr \<lparr>is_directory = d, relative_path = p, compressed_length = 0\<rparr>) \<and>
   (PATH_MAX_LEN < length p \<longrightarrow>
      (\<exists>m. FSEntryInfo_init d p = Inl (FSEntryInfoException m)) \<and>
      (\<exists>m. writeToStream \<lparr>is_directory = d, relative_path = p, compressed_length = n\<rparr> out =
         (Inl (FSEntryInfoException m), ostream_write (byte_of_bool d) out)))"
  by (simp add: FSEntryInfo_init_def writeToStream_def Let_def)

theorem long_path_refused_witness:
  "FSEntryInfo_init True ''d'' = Inr \<lparr>is_directory = True, relative_path = ''d'', compressed_length = 0\<rparr>"
  using long_path_refused [of "''d''" True] by (simp add: PATH_MAX_LEN_def)

end
