(* ===== verification/Zstd.thy ===== *)
theory Zstd
  imports Streams
begin

text \<open>
  \<open>src/client/zstd.cpp\<close>: stream compression and decompression over the Zstandard library.  The
  library's functions are parameters, and \<open>zstd_laws\<close> states what their documentation promises; one
  implementation that satisfies it closes the theory.  The inner loops end only because the library
  makes progress, so they are partial functions: a loop that does not end has the value \<open>None\<close>.
\<close>

section \<open>The library\<close>

datatype ZSTD_EndDirective = ZSTD_e_continue | ZSTD_e_end

text \<open>
  A failing call gives the name of its error.  A successful \<open>compressStream2\<close> returns what remains
  to be flushed, the bytes put into the output buffer of the given size, the number of input bytes
  consumed and the new context; \<open>decompressStream\<close> likewise.
\<close>

record ('c, 'd) zstd_api =
  in_size :: nat
  out_size :: nat
  createCCtx :: "'c option"
  setParameter :: "'c \<Rightarrow> string \<Rightarrow> int \<Rightarrow> string + 'c"
  resetSession :: "'c \<Rightarrow> string + 'c"
  compressStream2 :: "'c \<Rightarrow> nat \<Rightarrow> bytes \<Rightarrow> ZSTD_EndDirective \<Rightarrow> string + (nat \<times> bytes \<times> nat \<times> 'c)"
  createDCtx :: "'d option"
  decompressStream :: "'d \<Rightarrow> nat \<Rightarrow> bytes \<Rightarrow> string + (nat \<times> bytes \<times> nat \<times> 'd)"

definition assertOk :: "string + 'a \<Rightarrow> error + 'a" where
  "assertOk r = (case r of Inl m \<Rightarrow> Inl (ZSTDException m) | Inr x \<Rightarrow> Inr x)"

lemma assertOk_simps [simp]: "assertOk (Inl m) = Inl (ZSTDException m)" "assertOk (Inr x) = Inr x"
  by (simp_all add: assertOk_def)

section \<open>Compression\<close>

text \<open>The \<open>do\<close> loop over one chunk: \<open>pos\<close> is \<open>input.pos\<close>.\<close>

partial_function (option) compress_chunk ::
  "('c, 'd) zstd_api \<Rightarrow> bool \<Rightarrow> bytes \<Rightarrow> nat \<Rightarrow> 'c \<Rightarrow> size_t \<Rightarrow> ostream \<Rightarrow>
     ((error + 'c \<times> nat \<times> size_t) \<times> ostream) option" where
  "compress_chunk Z is_last_chunk input pos cctx bytes_written output_stream =
     (case assertOk (compressStream2 Z cctx (out_size Z) (drop pos input)
              (if is_last_chunk then ZSTD_e_end else ZSTD_e_continue)) of
        Inl e \<Rightarrow> Some (Inl e, output_stream)
      | Inr (remaining, produced, used, cctx') \<Rightarrow>
          if (if is_last_chunk then remaining = 0 else pos + used = length input)
          then Some (Inr (cctx', pos + used, bytes_written + of_nat (length produced)),
                     ostream_write produced output_stream)
          else compress_chunk Z is_last_chunk input (pos + used) cctx'
                 (bytes_written + of_nat (length produced)) (ostream_write produced output_stream))"

text \<open>Reading brings the end of a stream nearer.\<close>

lemma reads_left_got:
  assumes "istream_read n s = (got, s')" and "got \<noteq> []"
  shows "reads_left s' < reads_left s"
proof -
  have "\<not> ifail s" using assms by (cases "ifail s") (auto simp: istream_read_failed)
  moreover have "0 < n" using assms by (cases n) (auto simp: istream_read_def Let_def split: if_splits)
  ultimately show ?thesis using reads_left_decreases [of n s] assms(1) by simp
qed

text \<open>
  The input may be the very file that the output goes to (\<open>shared\<close>); then each read finds what has been
  written so far, and compressing need not end.  What is written is in the file at once.
\<close>

definition found_by :: "bool \<Rightarrow> ostream \<Rightarrow> istream \<Rightarrow> istream" where
  "found_by shared out ins = (if shared then ins\<lparr>ibuf := obuf out\<rparr> else ins)"

partial_function (option) compress_loop ::
  "('c, 'd) zstd_api \<Rightarrow> bool \<Rightarrow> 'c \<Rightarrow> size_t \<Rightarrow> istream \<Rightarrow> ostream \<Rightarrow> ((error + size_t) \<times> ostream) option" where
  "compress_loop Z shared cctx bytes_written input_stream output_stream =
     (case istream_read (in_size Z) (found_by shared output_stream input_stream) of (got, input_stream') \<Rightarrow>
        if got = [] then Some (Inr bytes_written, output_stream)
        else
          (case compress_chunk Z (length got < in_size Z) got 0 cctx bytes_written output_stream of
             None \<Rightarrow> None
           | Some (Inl e, output_stream') \<Rightarrow> Some (Inl e, output_stream')
           | Some (Inr (cctx', pos, bytes_written'), output_stream') \<Rightarrow>
               if pos \<noteq> length got
               then Some (Inl (ZSTDException
                 ''Impossible: zstd only returns 0 when the input is completely consumed!''), output_stream')
               else compress_loop Z shared cctx' bytes_written' input_stream' output_stream'))"

definition compress_shared ::
  "('c, 'd) zstd_api \<Rightarrow> bool \<Rightarrow> istream \<Rightarrow> ostream \<Rightarrow> ((error + size_t) \<times> ostream) option" where
  "compress_shared Z shared input_stream output_stream =
     (case createCCtx Z of
        None \<Rightarrow> Some (Inl (ZSTDException ''ZSTD_createCCtx() failed!''), output_stream)
      | Some cctx \<Rightarrow>
          case sum_bind (assertOk (setParameter Z cctx ''ZSTD_c_compressionLevel'' 6)) (\<lambda>cctx.
               sum_bind (assertOk (setParameter Z cctx ''ZSTD_c_checksumFlag'' 1)) (\<lambda>cctx.
               assertOk (resetSession Z cctx))) of
            Inl e \<Rightarrow> Some (Inl e, output_stream)
          | Inr cctx \<Rightarrow> compress_loop Z shared cctx 0 input_stream output_stream)"

text \<open>Streams of different files.\<close>

definition compress :: "('c, 'd) zstd_api \<Rightarrow> istream \<Rightarrow> ostream \<Rightarrow> ((error + size_t) \<times> ostream) option" where
  "compress Z input_stream output_stream = compress_shared Z False input_stream output_stream"

lemma found_by_other [simp]: "found_by False out ins = ins"
  by (simp add: found_by_def)

section \<open>Decompression\<close>

partial_function (option) decompress_chunk ::
  "('c, 'd) zstd_api \<Rightarrow> bytes \<Rightarrow> nat \<Rightarrow> 'd \<Rightarrow> size_t \<Rightarrow> ostream \<Rightarrow> ((error + 'd \<times> size_t) \<times> ostream) option" where
  "decompress_chunk Z input pos dctx bytes_written out_stream =
     (if pos < length input then
        (case assertOk (decompressStream Z dctx (out_size Z) (drop pos input)) of
           Inl e \<Rightarrow> Some (Inl e, out_stream)
         | Inr (r, produced, used, dctx') \<Rightarrow>
             decompress_chunk Z input (pos + used) dctx' (bytes_written + of_nat (length produced))
               (ostream_write produced out_stream))
      else Some (Inr (dctx, bytes_written), out_stream))"

partial_function (option) decompress_loop ::
  "('c, 'd) zstd_api \<Rightarrow> bool \<Rightarrow> 'd \<Rightarrow> size_t \<Rightarrow> size_t \<Rightarrow> size_t \<Rightarrow> size_t \<Rightarrow> istream \<Rightarrow> ostream \<Rightarrow>
     ((error + size_t) \<times> istream \<times> ostream) option" where
  "decompress_loop Z shared dctx total_read compressed_length this_chunk_size bytes_written in_stream out_stream =
     (case istream_read (unat this_chunk_size) (found_by shared out_stream in_stream) of (got, in_stream') \<Rightarrow>
        if got = [] then Some (Inr bytes_written, in_stream', out_stream)
        else
          let total_read' = total_read + of_nat (length got);
              left_to_read = compressed_length - total_read';
              this_chunk_size' = min (of_nat (in_size Z)) left_to_read
          in (case decompress_chunk Z got 0 dctx bytes_written out_stream of
                None \<Rightarrow> None
              | Some (Inl e, out_stream') \<Rightarrow> Some (Inl e, in_stream', out_stream')
              | Some (Inr (dctx', bytes_written'), out_stream') \<Rightarrow>
                  decompress_loop Z shared dctx' total_read' compressed_length this_chunk_size' bytes_written'
                    in_stream' out_stream'))"

definition decompress_shared ::
  "('c, 'd) zstd_api \<Rightarrow> bool \<Rightarrow> size_t \<Rightarrow> istream \<Rightarrow> ostream \<Rightarrow> ((error + size_t) \<times> istream \<times> ostream) option" where
  "decompress_shared Z shared compressed_length in_stream out_stream =
     (case createDCtx Z of
        None \<Rightarrow> Some (Inl (ZSTDException ''ZSTD_createDCtx() failed!''), in_stream, out_stream)
      | Some dctx \<Rightarrow>
          decompress_loop Z shared dctx 0 compressed_length (min (of_nat (in_size Z)) compressed_length) 0
            in_stream out_stream)"

definition decompress ::
  "('c, 'd) zstd_api \<Rightarrow> size_t \<Rightarrow> istream \<Rightarrow> ostream \<Rightarrow> ((error + size_t) \<times> istream \<times> ostream) option" where
  "decompress Z compressed_length in_stream out_stream = decompress_shared Z False compressed_length in_stream out_stream"

section \<open>What the library promises\<close>

text \<open>
  \<open>fed_in c x y\<close>: in the current frame the context has taken the input \<open>x\<close> and given the output \<open>y\<close>.
  Each call takes a part of its input and gives some output; with \<open>ZSTD_e_end\<close> the result 0 means
  that all input is taken and the output is a complete frame of it.  \<open>fed_out d y x\<close>: the context has
  taken \<open>y\<close> and given \<open>x\<close>; the last byte of a frame is not taken before all of its content has been
  given.  A call that leaves something to do leaves less to do (\<open>todo\<close>), which is the documented
  forward progress.
\<close>

definition compress_laws ::
  "('c, 'd) zstd_api \<Rightarrow> (bytes \<Rightarrow> bytes \<Rightarrow> bool) \<Rightarrow> ('c \<Rightarrow> bytes \<Rightarrow> bytes \<Rightarrow> bool) \<Rightarrow> ('c \<Rightarrow> bytes \<Rightarrow> nat) \<Rightarrow> bool" where
  "compress_laws Z is_frame fed_in todo \<longleftrightarrow>
     (\<exists>c0 c1 c2 c3. createCCtx Z = Some c0 \<and> setParameter Z c0 ''ZSTD_c_compressionLevel'' 6 = Inr c1 \<and>
        setParameter Z c1 ''ZSTD_c_checksumFlag'' 1 = Inr c2 \<and> resetSession Z c2 = Inr c3 \<and> fed_in c3 [] []) \<and>
     (\<forall>c x y input. fed_in c x y \<longrightarrow>
        (\<exists>r out used c'. compressStream2 Z c (out_size Z) input ZSTD_e_continue = Inr (r, out, used, c') \<and>
           used \<le> length input \<and> fed_in c' (x @ take used input) (y @ out) \<and>
           (used < length input \<longrightarrow> todo c' (drop used input) < todo c input))) \<and>
     (\<forall>c x y input. fed_in c x y \<longrightarrow>
        (\<exists>r out used c'. compressStream2 Z c (out_size Z) input ZSTD_e_end = Inr (r, out, used, c') \<and>
           (if r = 0 then used = length input \<and> is_frame (y @ out) (x @ input)
            else used \<le> length input \<and> fed_in c' (x @ take used input) (y @ out) \<and>
              todo c' (drop used input) < todo c input)))"

definition decompress_laws ::
  "('c, 'd) zstd_api \<Rightarrow> (bytes \<Rightarrow> bytes \<Rightarrow> bool) \<Rightarrow> ('d \<Rightarrow> bytes \<Rightarrow> bytes \<Rightarrow> bool) \<Rightarrow> ('d \<Rightarrow> bytes \<Rightarrow> nat) \<Rightarrow> bool" where
  "decompress_laws Z is_frame fed_out todo \<longleftrightarrow>
     (\<exists>d0. createDCtx Z = Some d0 \<and> fed_out d0 [] []) \<and>
     (\<forall>d y0 x0 input rest x. fed_out d y0 x0 \<and> is_frame (y0 @ input @ rest) x \<and> input \<noteq> [] \<longrightarrow>
        (\<exists>r out used d'. decompressStream Z d (out_size Z) input = Inr (r, out, used, d') \<and>
           used \<le> length input \<and> fed_out d' (y0 @ take used input) (x0 @ out) \<and>
           (used < length input \<longrightarrow> todo d' (drop used input) < todo d input) \<and>
           (drop used input @ rest = [] \<longrightarrow> x0 @ out = x)))"

definition zstd_laws :: "('c, 'd) zstd_api \<Rightarrow> (bytes \<Rightarrow> bytes \<Rightarrow> bool) \<Rightarrow> bool" where
  "zstd_laws Z is_frame \<longleftrightarrow> 0 < in_size Z \<and> in_size Z < 2 ^ 64 \<and> (\<forall>x. \<not> is_frame [] x) \<and>
     (\<exists>fed_in todo. compress_laws Z is_frame fed_in todo) \<and>
     (\<exists>fed_out todo. decompress_laws Z is_frame fed_out todo)"

section \<open>One chunk\<close>

lemma out_extends: "at_end out \<Longrightarrow> at_end (ostream_write d out) \<and> obuf (ostream_write d out) = obuf out @ d"
  by (simp add: ostream_write_def at_end_def)

lemma compress_chunk_continue:
  assumes laws: "compress_laws Z is_frame fed_in todo"
  shows "fed_in c (x @ take p input) y \<Longrightarrow> p \<le> length input \<Longrightarrow> at_end out \<Longrightarrow>
    \<exists>c' out' y'. compress_chunk Z False input p c w out =
        Some (Inr (c', length input, w + of_nat (length y')), out') \<and>
      fed_in c' (x @ input) (y @ y') \<and> at_end out' \<and> obuf out' = obuf out @ y'"
proof (induction "todo c (drop p input)" arbitrary: c p y w out rule: less_induct)
  case less
  obtain r o1 used c1 where step: "compressStream2 Z c (out_size Z) (drop p input) ZSTD_e_continue = Inr (r, o1, used, c1)"
    and used: "used \<le> length (drop p input)" and f: "fed_in c1 ((x @ take p input) @ take used (drop p input)) (y @ o1)"
    and prog: "used < length (drop p input) \<longrightarrow> todo c1 (drop used (drop p input)) < todo c (drop p input)"
    using laws less.prems(1) unfolding compress_laws_def by blast
  have f': "fed_in c1 (x @ take (p + used) input) (y @ o1)" using f by (simp add: take_add)
  have e1: "at_end (ostream_write o1 out)" "obuf (ostream_write o1 out) = obuf out @ o1"
    using out_extends [OF less.prems(3)] by auto
  show ?case
  proof (cases "p + used = length input")
    case True
    have "compress_chunk Z False input p c w out =
        Some (Inr (c1, length input, w + of_nat (length o1)), ostream_write o1 out)"
      by (subst compress_chunk.simps) (simp add: step True)
    then show ?thesis using f' e1 True
      by (intro exI [of _ c1] exI [of _ "ostream_write o1 out"] exI [of _ o1]) simp
  next
    case False
    then have lt: "p + used < length input" using used less.prems(2) by simp
    then have "todo c1 (drop (p + used) input) < todo c (drop p input)" using prog by (simp add: add.commute)
    from less.hyps [OF this f' _ e1(1), of "w + of_nat (length o1)"] lt
    obtain c' out' y' where rec: "compress_chunk Z False input (p + used) c1 (w + of_nat (length o1)) (ostream_write o1 out) =
        Some (Inr (c', length input, w + of_nat (length o1) + of_nat (length y')), out')"
      and "fed_in c' (x @ input) ((y @ o1) @ y')" "at_end out'" "obuf out' = obuf (ostream_write o1 out) @ y'"
      by auto
    moreover have "compress_chunk Z False input p c w out =
        compress_chunk Z False input (p + used) c1 (w + of_nat (length o1)) (ostream_write o1 out)"
      by (subst compress_chunk.simps) (simp add: step False)
    ultimately show ?thesis using e1
      by (intro exI [of _ c'] exI [of _ out'] exI [of _ "o1 @ y'"]) (simp add: add.assoc)
  qed
qed

lemma compress_chunk_end:
  assumes laws: "compress_laws Z is_frame fed_in todo"
  shows "fed_in c (x @ take p input) y \<Longrightarrow> p \<le> length input \<Longrightarrow> at_end out \<Longrightarrow>
    \<exists>c' out' y'. compress_chunk Z True input p c w out =
        Some (Inr (c', length input, w + of_nat (length y')), out') \<and>
      is_frame (y @ y') (x @ input) \<and> at_end out' \<and> obuf out' = obuf out @ y'"
proof (induction "todo c (drop p input)" arbitrary: c p y w out rule: less_induct)
  case less
  obtain r o1 used c1 where step: "compressStream2 Z c (out_size Z) (drop p input) ZSTD_e_end = Inr (r, o1, used, c1)"
    and res: "if r = 0 then used = length (drop p input) \<and> is_frame (y @ o1) ((x @ take p input) @ drop p input)
       else used \<le> length (drop p input) \<and> fed_in c1 ((x @ take p input) @ take used (drop p input)) (y @ o1) \<and>
         todo c1 (drop used (drop p input)) < todo c (drop p input)"
    using laws less.prems(1) unfolding compress_laws_def by blast
  have e1: "at_end (ostream_write o1 out)" "obuf (ostream_write o1 out) = obuf out @ o1"
    using out_extends [OF less.prems(3)] by auto
  show ?case
  proof (cases "r = 0")
    case True
    then have u: "p + used = length input" "is_frame (y @ o1) (x @ input)" using res less.prems(2) by simp_all
    have "compress_chunk Z True input p c w out =
        Some (Inr (c1, length input, w + of_nat (length o1)), ostream_write o1 out)"
      by (subst compress_chunk.simps) (simp add: step True u)
    then show ?thesis using u e1
      by (intro exI [of _ c1] exI [of _ "ostream_write o1 out"] exI [of _ o1]) simp
  next
    case False
    with res less.prems(2) have le: "p + used \<le> length input"
      and f': "fed_in c1 (x @ take (p + used) input) (y @ o1)"
      and "todo c1 (drop (p + used) input) < todo c (drop p input)" by (auto simp: take_add add.commute)
    from less.hyps [OF this(3) f' le e1(1), of "w + of_nat (length o1)"]
    obtain c' out' y' where rec: "compress_chunk Z True input (p + used) c1 (w + of_nat (length o1)) (ostream_write o1 out) =
        Some (Inr (c', length input, w + of_nat (length o1) + of_nat (length y')), out')"
      and "is_frame ((y @ o1) @ y') (x @ input)" "at_end out'" "obuf out' = obuf (ostream_write o1 out) @ y'"
      by auto
    moreover have "compress_chunk Z True input p c w out =
        compress_chunk Z True input (p + used) c1 (w + of_nat (length o1)) (ostream_write o1 out)"
      by (subst compress_chunk.simps) (simp add: step False)
    ultimately show ?thesis using e1
      by (intro exI [of _ c'] exI [of _ out'] exI [of _ "o1 @ y'"]) (simp add: add.assoc)
  qed
qed

lemma decompress_chunk_frame:
  assumes laws: "decompress_laws Z is_frame fed_out todo" and frame: "is_frame (y @ input @ rest) x"
  shows "fed_out d (y @ take p input) x0 \<Longrightarrow> p < length input \<Longrightarrow> at_end out \<Longrightarrow>
    \<exists>d' out' o1. decompress_chunk Z input p d w out = Some (Inr (d', w + of_nat (length o1)), out') \<and>
      fed_out d' (y @ input) (x0 @ o1) \<and> at_end out' \<and> obuf out' = obuf out @ o1 \<and>
      (rest = [] \<longrightarrow> x0 @ o1 = x)"
proof (induction "todo d (drop p input)" arbitrary: d p x0 w out rule: less_induct)
  case less
  have "is_frame ((y @ take p input) @ drop p input @ rest) x"
    using frame by (metis append.assoc append_take_drop_id)
  moreover have "drop p input \<noteq> []" using less.prems(2) by simp
  ultimately obtain r o1 used d1 where
    step: "decompressStream Z d (out_size Z) (drop p input) = Inr (r, o1, used, d1)"
    and used: "used \<le> length (drop p input)"
    and f: "fed_out d1 ((y @ take p input) @ take used (drop p input)) (x0 @ o1)"
    and prog: "used < length (drop p input) \<longrightarrow> todo d1 (drop used (drop p input)) < todo d (drop p input)"
    and fin: "drop used (drop p input) @ rest = [] \<longrightarrow> x0 @ o1 = x"
    using laws less.prems(1) unfolding decompress_laws_def by blast
  have f': "fed_out d1 (y @ take (p + used) input) (x0 @ o1)" using f by (simp add: take_add)
  have e1: "at_end (ostream_write o1 out)" "obuf (ostream_write o1 out) = obuf out @ o1"
    using out_extends [OF less.prems(3)] by auto
  have go: "decompress_chunk Z input p d w out =
      decompress_chunk Z input (p + used) d1 (w + of_nat (length o1)) (ostream_write o1 out)"
    using less.prems(2) by (subst decompress_chunk.simps) (simp add: step)
  show ?case
  proof (cases "p + used < length input")
    case False
    then have all: "p + used = length input" using used less.prems(2) by simp
    have "decompress_chunk Z input p d w out = Some (Inr (d1, w + of_nat (length o1)), ostream_write o1 out)"
      unfolding go using False by (subst decompress_chunk.simps) simp
    then show ?thesis using f' fin e1 all
      by (intro exI [of _ d1] exI [of _ "ostream_write o1 out"] exI [of _ o1]) (simp add: add.commute)
  next
    case True
    then have "todo d1 (drop (p + used) input) < todo d (drop p input)" using prog by (simp add: add.commute)
    from less.hyps [OF this f' True e1(1), of "w + of_nat (length o1)"]
    obtain d' out' o2 where "decompress_chunk Z input (p + used) d1 (w + of_nat (length o1)) (ostream_write o1 out) =
        Some (Inr (d', w + of_nat (length o1) + of_nat (length o2)), out')"
      "fed_out d' (y @ input) ((x0 @ o1) @ o2)" "at_end out'" "obuf out' = obuf (ostream_write o1 out) @ o2"
      "rest = [] \<longrightarrow> (x0 @ o1) @ o2 = x"
      by auto
    then show ?thesis unfolding go using e1
      by (intro exI [of _ d'] exI [of _ out'] exI [of _ "o1 @ o2"]) (simp add: add.assoc)
  qed
qed

section \<open>Whole streams\<close>

lemma istream_read_cases:
  assumes "\<not> ifail s" and "0 < n"
  obtains (full) "n \<le> length (unread s)" "istream_read n s = (take n (unread s), s\<lparr>ipos := ipos s + n\<rparr>)"
    | (short) s' where "length (unread s) < n" "istream_read n s = (unread s, s')" "ifail s'"
  using assms istream_read_full [of s n] istream_read_short [of s n]
  by (cases "n \<le> length (unread s)") auto

text \<open>What the compressor makes of a stream: a frame when the last read is short, and otherwise an
  output to which the end of the frame is still missing.\<close>

lemma compress_loop_outcome:
  assumes laws: "compress_laws Z is_frame fed_in todo" and "0 < in_size Z"
  shows "fed_in c x y \<Longrightarrow> \<not> ifail ins \<Longrightarrow> at_end out \<Longrightarrow>
    \<exists>out' y'. compress_loop Z False c w ins out = Some (Inr (w + of_nat (length y')), out') \<and>
      at_end out' \<and> obuf out' = obuf out @ y' \<and>
      (length (unread ins) mod in_size Z \<noteq> 0 \<longrightarrow> is_frame (y @ y') (x @ unread ins)) \<and>
      (length (unread ins) mod in_size Z = 0 \<longrightarrow> (\<exists>c'. fed_in c' (x @ unread ins) (y @ y')))"
proof (induction "length (unread ins)" arbitrary: c x y w ins out rule: less_induct)
  case less
  show ?case
    using less.prems(2) assms(2)
  proof (cases rule: istream_read_cases)
    case full
    let ?got = "take (in_size Z) (unread ins)" and ?ins = "ins\<lparr>ipos := ipos ins + in_size Z\<rparr>"
    have got: "length ?got = in_size Z" "?got \<noteq> []" using full(1) assms(2) by auto
    obtain c1 o1 y1 where ch: "compress_chunk Z False ?got 0 c w out =
        Some (Inr (c1, length ?got, w + of_nat (length y1)), o1)"
      and f: "fed_in c1 (x @ ?got) (y @ y1)" "at_end o1" "obuf o1 = obuf out @ y1"
      using compress_chunk_continue [OF laws, of c x 0 ?got y out w] less.prems by auto
    have md: "length (unread ?ins) mod in_size Z = length (unread ins) mod in_size Z"
      using full(1) by (simp add: le_mod_geq)
    have "length (unread ?ins) < length (unread ins)" using full(1) assms(2) by simp
    from less.hyps [OF this f(1) _ f(2), of "w + of_nat (length y1)"] less.prems(2)
    obtain o2 y2 where
      rec: "compress_loop Z False c1 (w + of_nat (length y1)) ?ins o1 = Some (Inr (w + of_nat (length y1) + of_nat (length y2)), o2)"
      and fr: "at_end o2" "obuf o2 = obuf o1 @ y2"
        "length (unread ?ins) mod in_size Z \<noteq> 0 \<longrightarrow> is_frame ((y @ y1) @ y2) ((x @ ?got) @ unread ?ins)"
        "length (unread ?ins) mod in_size Z = 0 \<longrightarrow> (\<exists>c'. fed_in c' ((x @ ?got) @ unread ?ins) ((y @ y1) @ y2))"
      by fastforce
    have "compress_loop Z False c w ins out = compress_loop Z False c1 (w + of_nat (length y1)) ?ins o1"
      using full got ch by (subst compress_loop.simps) auto
    moreover have all: "(x @ ?got) @ unread ?ins = x @ unread ins" "(y @ y1) @ y2 = y @ y1 @ y2" by simp_all
    note fr(3,4) [unfolded md all]
    ultimately show ?thesis using rec fr(1,2) f(3)
      by (intro exI [of _ o2] exI [of _ "y1 @ y2"]) (simp add: add.assoc)
  next
    case (short ins')
    have stop: "compress_loop Z False c1 w' ins' o1 = Some (Inr w', o1)" for c1 w' o1
      using short(3) by (subst compress_loop.simps) (simp add: istream_read_failed)
    show ?thesis
    proof (cases "unread ins = []")
      case True
      then have "compress_loop Z False c w ins out = Some (Inr w, out)"
        using short by (subst compress_loop.simps) simp
      then show ?thesis using True less.prems
        by (intro exI [of _ out] exI [of _ "[]"]) auto
    next
      case ne: False
      obtain c1 o1 y1 where ch: "compress_chunk Z True (unread ins) 0 c w out =
          Some (Inr (c1, length (unread ins), w + of_nat (length y1)), o1)"
        and fr: "is_frame (y @ y1) (x @ unread ins)" "at_end o1" "obuf o1 = obuf out @ y1"
        using compress_chunk_end [OF laws, of c x 0 "unread ins" y out w] less.prems by auto
      have "compress_loop Z False c w ins out = Some (Inr (w + of_nat (length y1)), o1)"
        using short ne ch stop by (subst compress_loop.simps) simp
      then show ?thesis using fr short(1) ne
        by (intro exI [of _ o1] exI [of _ y1]) simp
    qed
  qed
qed

lemma compress_start:
  assumes "compress_laws Z is_frame fed_in todo"
  shows "\<exists>c. fed_in c [] [] \<and> compress Z ins out = compress_loop Z False c 0 ins out"
  using assms unfolding compress_laws_def by (auto simp: compress_def compress_shared_def)

text \<open>The decompressor reads a frame of the declared length and nothing after it.\<close>

lemma decompress_loop_frame:
  assumes laws: "decompress_laws Z is_frame fed_out todo" and "is_frame (y @ z) x"
    and n: "0 < in_size Z" "in_size Z < 2 ^ 64" and total: "length (y @ z) < 2 ^ 64"
  shows "fed_out d y x0 \<Longrightarrow> \<not> ifail ins \<Longrightarrow> unread ins = z @ rest \<Longrightarrow> at_end out \<Longrightarrow> z \<noteq> [] \<Longrightarrow>
    \<exists>o1 out'. decompress_loop Z False d (of_nat (length y)) (of_nat (length (y @ z)))
        (min (of_nat (in_size Z)) (of_nat (length z))) w ins out =
        Some (Inr (w + of_nat (length o1)), ins\<lparr>ipos := ipos ins + length z\<rparr>, out') \<and>
      x0 @ o1 = x \<and> at_end out' \<and> obuf out' = obuf out @ o1"
  using assms(2) total
proof (induction "length z" arbitrary: z y d x0 w ins out rule: less_induct)
  case less
  let ?k = "min (in_size Z) (length z)"
  have k: "unat (min (of_nat (in_size Z)) (of_nat (length z)) :: size_t) = ?k"
    using n less.prems(7) by (auto simp: min_def word_le_nat_alt unat_of_nat_size)
  have k0: "0 < ?k" using n less.prems(5) by simp
  let ?got = "take ?k z" and ?ins = "ins\<lparr>ipos := ipos ins + ?k\<rparr>"
  have rd: "istream_read ?k ins = (?got, ?ins)"
    using istream_read_full [of ins ?k] less.prems(2,3) by simp
  have ne: "?got \<noteq> []" "length ?got = ?k" using k0 less.prems(5) by auto
  have "is_frame (y @ ?got @ drop ?k z) x" using less.prems(6) by simp
  then obtain d1 o1 out1 where ch: "decompress_chunk Z ?got 0 d w out = Some (Inr (d1, w + of_nat (length o1)), out1)"
    and f: "fed_out d1 (y @ ?got) (x0 @ o1)" "at_end out1" "obuf out1 = obuf out @ o1"
    and fin: "drop ?k z = [] \<longrightarrow> x0 @ o1 = x"
    using decompress_chunk_frame [OF laws, of y ?got "drop ?k z" x d 0 x0 out w] less.prems(1,4) ne by auto
  have left: "of_nat (length (y @ z)) - (of_nat (length y) + of_nat (length ?got)) = (of_nat (length (drop ?k z)) :: size_t)"
  proof -
    have "(of_nat (length (y @ z)) :: size_t) = of_nat (length y) + of_nat (length (?got @ drop ?k z))" by simp
    then show ?thesis by (simp only: length_append of_nat_add) simp
  qed
  have go: "decompress_loop Z False d (of_nat (length y)) (of_nat (length (y @ z)))
        (min (of_nat (in_size Z)) (of_nat (length z))) w ins out =
      decompress_loop Z False d1 (of_nat (length (y @ ?got))) (of_nat (length ((y @ ?got) @ drop ?k z)))
        (min (of_nat (in_size Z)) (of_nat (length (drop ?k z)))) (w + of_nat (length o1)) ?ins out1"
    by (subst decompress_loop.simps)
      (simp only: found_by_other k rd prod.case ne(1) if_False Let_def ch left [unfolded length_append of_nat_add] option.case sum.case length_append of_nat_add
        append_assoc append_take_drop_id)
  show ?case
  proof (cases "drop ?k z = []")
    case True
    then have kz: "?k = length z" by simp
    have "istream_read 0 ?ins = ([], ?ins)" using less.prems(2) by (simp add: istream_read_def)
    then have "decompress_loop Z False d1 t l (min (of_nat (in_size Z)) (of_nat (length (drop ?k z)))) w' ?ins out1 =
        Some (Inr w', ?ins, out1)" for t l w'
      using True by (subst decompress_loop.simps) simp
    then show ?thesis unfolding go using fin True f kz by (intro exI [of _ o1] exI [of _ out1]) simp
  next
    case False
    have "length (drop ?k z) < length z" using k0 less.prems(5) by simp
    moreover have "unread ?ins = drop ?k z @ rest" using less.prems(3) by simp
    moreover have "is_frame ((y @ ?got) @ drop ?k z) x" "length ((y @ ?got) @ drop ?k z) < 2 ^ 64"
      using less.prems(6,7) by simp_all
    ultimately obtain o2 out' where "decompress_loop Z False d1 (of_nat (length (y @ ?got))) (of_nat (length ((y @ ?got) @ drop ?k z)))
        (min (of_nat (in_size Z)) (of_nat (length (drop ?k z)))) (w + of_nat (length o1)) ?ins out1 =
        Some (Inr (w + of_nat (length o1) + of_nat (length o2)), ?ins\<lparr>ipos := ipos ?ins + length (drop ?k z)\<rparr>, out')"
      "(x0 @ o1) @ o2 = x" "at_end out'" "obuf out' = obuf out1 @ o2"
      using less.hyps [of "drop ?k z" d1 "y @ ?got" "x0 @ o1" ?ins out1 "w + of_nat (length o1)"]
        f(1,2) less.prems(2) False by auto
    then show ?thesis unfolding go using f(3)
      by (intro exI [of _ "o1 @ o2"] exI [of _ out']) (simp add: add.assoc)
  qed
qed

section \<open>Properties\<close>

text \<open>A stream that \<open>compress\<close> ends with a complete frame, or that has no content.\<close>

definition compressible :: "('c, 'd) zstd_api \<Rightarrow> bytes \<Rightarrow> bool" where
  "compressible Z d \<longleftrightarrow> d = [] \<or> length d mod in_size Z \<noteq> 0"

lemma compress_returns:
  assumes "zstd_laws Z is_frame" and "at_end out"
  shows "\<exists>out' y. compress Z (istream_of d) out = Some (Inr (of_nat (length y)), out') \<and> at_end out' \<and>
    obuf out' = obuf out @ y \<and> (d = [] \<longrightarrow> y = []) \<and> (d \<noteq> [] \<and> compressible Z d \<longrightarrow> is_frame y d)"
proof -
  obtain fed_in todo where laws: "compress_laws Z is_frame fed_in todo" and n: "0 < in_size Z"
    using assms(1) by (auto simp: zstd_laws_def)
  obtain c where c: "fed_in c [] []" "compress Z (istream_of d) out = compress_loop Z False c 0 (istream_of d) out"
    using compress_start [OF laws] by blast
  from compress_loop_outcome [OF laws n c(1), of "istream_of d" out 0] assms(2)
  obtain out' y where o: "compress_loop Z False c 0 (istream_of d) out = Some (Inr (of_nat (length y)), out')"
    "at_end out'" "obuf out' = obuf out @ y"
    "length d mod in_size Z \<noteq> 0 \<longrightarrow> is_frame y d" by auto
  show ?thesis
  proof (cases "d = []")
    case True
    obtain s' where "istream_read (in_size Z) (istream_of []) = ([], s')"
      by (simp add: istream_read_def istream_of_def)
    then have "compress_loop Z False c 0 (istream_of []) out = Some (Inr 0, out)"
      by (subst compress_loop.simps) simp
    with True c(2) assms(2) show ?thesis by (intro exI [of _ out] exI [of _ "[]"]) simp
  next
    case False
    with o c(2) show ?thesis by (intro exI [of _ out'] exI [of _ y]) (simp add: compressible_def)
  qed
qed

lemma decompress_frame:
  assumes "zstd_laws Z is_frame" and "is_frame z x" and "length z < 2 ^ 64"
    and "\<not> ifail ins" and "unread ins = z @ rest" and "at_end out"
  shows "\<exists>out'. decompress Z (of_nat (length z)) ins out =
      Some (Inr (of_nat (length x)), ins\<lparr>ipos := ipos ins + length z\<rparr>, out') \<and> at_end out' \<and> obuf out' = obuf out @ x"
proof -
  obtain fed_out todo where laws: "decompress_laws Z is_frame fed_out todo"
    and n: "0 < in_size Z" "in_size Z < 2 ^ 64" and ne: "z \<noteq> []"
    using assms(1,2) unfolding zstd_laws_def by blast
  obtain d0 where d0: "createDCtx Z = Some d0" "fed_out d0 [] []"
    using laws by (auto simp: decompress_laws_def)
  have "is_frame ([] @ z) x" "length ([] @ z) < 2 ^ 64" using assms(2,3) by simp_all
  from decompress_loop_frame [OF laws this(1) n this(2) d0(2) assms(4,5,6) ne, of 0] d0(1)
  show ?thesis by (auto simp: decompress_def decompress_shared_def)
qed

lemma decompress_nothing:
  assumes "zstd_laws Z is_frame" and "\<not> ifail ins"
  shows "decompress Z 0 ins out = Some (Inr 0, ins, out)"
proof -
  obtain d0 where "createDCtx Z = Some d0" using assms(1) by (auto simp: zstd_laws_def decompress_laws_def)
  moreover have "istream_read 0 ins = ([], ins)" using assms(2) by (simp add: istream_read_def)
  ultimately show ?thesis by (simp add: decompress_def decompress_shared_def decompress_loop.simps)
qed

text \<open>
  C11. Compression is undone by decompression, for every file whose size is not a positive multiple
  of the read buffer's: the bytes \<open>compress\<close> appends and counts are decompressed, whatever follows
  them, to the original content, and the reader is left exactly behind them.
\<close>

theorem zstd_roundtrip:
  assumes "zstd_laws Z is_frame" and "compressible Z d" and "at_end out" and "at_end out2"
  shows "\<exists>y out'. compress Z (istream_of d) out = Some (Inr (of_nat (length y)), out') \<and>
    at_end out' \<and> obuf out' = obuf out @ y \<and>
    (length y < 2 ^ 64 \<and> \<not> ifail ins \<and> unread ins = y @ rest \<longrightarrow>
      (\<exists>out2'. decompress Z (of_nat (length y)) ins out2 =
         Some (Inr (of_nat (length d)), ins\<lparr>ipos := ipos ins + length y\<rparr>, out2') \<and>
         at_end out2' \<and> obuf out2' = obuf out2 @ d))"
proof -
  obtain out' y where c: "compress Z (istream_of d) out = Some (Inr (of_nat (length y)), out')"
    "at_end out'" "obuf out' = obuf out @ y" "d = [] \<longrightarrow> y = []" "d \<noteq> [] \<and> compressible Z d \<longrightarrow> is_frame y d"
    using compress_returns [OF assms(1,3)] by blast
  have "\<exists>out2'. decompress Z (of_nat (length y)) ins out2 =
         Some (Inr (of_nat (length d)), ins\<lparr>ipos := ipos ins + length y\<rparr>, out2') \<and>
         at_end out2' \<and> obuf out2' = obuf out2 @ d"
    if "length y < 2 ^ 64" "\<not> ifail ins" "unread ins = y @ rest"
  proof (cases "d = []")
    case True
    with c(4) decompress_nothing [OF assms(1) that(2), of out2] assms(4) show ?thesis by simp
  next
    case False
    with c(5) assms(2) decompress_frame [OF assms(1) _ that assms(4)] show ?thesis by blast
  qed
  with c(1-3) show ?thesis by blast
qed

section \<open>A library that keeps everything until the end\<close>

text \<open>The encoder may decide when to give output, so it may collect the whole frame.\<close>

definition held_zstd :: "(bytes, bool) zstd_api" where
  "held_zstd = \<lparr>in_size = 4, out_size = 4, createCCtx = Some [], setParameter = (\<lambda>c p v. Inr c),
     resetSession = Inr,
     compressStream2 = (\<lambda>c cap input m. case m of
        ZSTD_e_continue \<Rightarrow> Inr (1, [], length input, c @ input)
      | ZSTD_e_end \<Rightarrow> Inr (0, CHR ''F'' # c @ input, length input, [])),
     createDCtx = Some False,
     decompressStream = (\<lambda>d cap input. Inr (1, if d then input else tl input, length input, True))\<rparr>"

lemma held_in_size [simp]: "in_size held_zstd = 4"
  by (simp add: held_zstd_def)

definition held_frame :: "bytes \<Rightarrow> bytes \<Rightarrow> bool" where
  "held_frame y x \<longleftrightarrow> y = CHR ''F'' # x"

lemma held_zstd_laws: "zstd_laws held_zstd held_frame"
proof -
  have "compress_laws held_zstd held_frame (\<lambda>c x y. c = x \<and> y = []) (\<lambda>_ _. 0)"
    by (simp add: compress_laws_def held_zstd_def held_frame_def)
  moreover have "decompress_laws held_zstd held_frame
      (\<lambda>d y x. if d then y = CHR ''F'' # x else y = [] \<and> x = []) (\<lambda>_ _. 0)"
    unfolding decompress_laws_def
  proof (intro conjI allI impI)
    fix d and y0 x0 input rest x :: bytes
    assume "(if d then y0 = CHR ''F'' # x0 else y0 = [] \<and> x0 = []) \<and> held_frame (y0 @ input @ rest) x \<and> input \<noteq> []"
    then show "\<exists>r out used d'. decompressStream held_zstd d (out_size held_zstd) input = Inr (r, out, used, d') \<and>
        used \<le> length input \<and>
        (if d' then y0 @ take used input = CHR ''F'' # (x0 @ out) else y0 @ take used input = [] \<and> x0 @ out = []) \<and>
        (used < length input \<longrightarrow> (0 :: nat) < 0) \<and> (drop used input @ rest = [] \<longrightarrow> x0 @ out = x)"
      by (cases d; cases input) (auto simp: held_zstd_def held_frame_def intro!: exI [of _ True])
  qed (auto simp: held_zstd_def)
  moreover have "0 < in_size held_zstd" "in_size held_zstd < 2 ^ 64" by (simp_all add: held_zstd_def)
  ultimately show ?thesis unfolding zstd_laws_def held_frame_def by blast
qed

theorem zstd_roundtrip_witness:
  "\<exists>y out' ins' out2. compress held_zstd (istream_of ''hello'') ostream_empty = Some (Inr (of_nat (length y)), out') \<and>
    obuf out' = y \<and> decompress held_zstd (of_nat (length y)) (istream_of (y @ ''more'')) ostream_empty = Some (Inr 5, ins', out2) \<and>
    obuf out2 = ''hello'' \<and> unread ins' = ''more''"
proof -
  obtain out y where y: "compress held_zstd (istream_of ''hello'') ostream_empty = Some (Inr (of_nat (length y)), out)"
    "obuf out = y" "held_frame y ''hello''"
    using compress_returns [OF held_zstd_laws, of ostream_empty "''hello''"] by (auto simp: compressible_def)
  have l: "length y < 2 ^ 64" using y(3) by (simp add: held_frame_def)
  let ?ins = "istream_of (y @ ''more'')"
  have "compressible held_zstd ''hello''" "at_end ostream_empty" by (simp_all add: compressible_def)
  from zstd_roundtrip [OF held_zstd_laws this this(2), of ?ins "''more''"] obtain y' out' where
    y': "compress held_zstd (istream_of ''hello'') ostream_empty = Some (Inr (of_nat (length y')), out')"
    "obuf out' = obuf ostream_empty @ y'"
    and dec: "length y' < 2 ^ 64 \<and> \<not> ifail ?ins \<and> unread ?ins = y' @ ''more'' \<longrightarrow>
      (\<exists>out2'. decompress held_zstd (of_nat (length y')) ?ins ostream_empty =
         Some (Inr (of_nat (length ''hello'')), ?ins\<lparr>ipos := ipos ?ins + length y'\<rparr>, out2') \<and>
         at_end out2' \<and> obuf out2' = obuf ostream_empty @ ''hello'')" by blast
  have "y' = y" using y(1,2) y' by simp
  with dec l obtain out2 where out2: "decompress held_zstd (of_nat (length y)) ?ins ostream_empty =
      Some (Inr 5, ?ins\<lparr>ipos := ipos ?ins + length y\<rparr>, out2)" "obuf out2 = ''hello''" by auto
  have "unread (?ins\<lparr>ipos := ipos ?ins + length y\<rparr>) = ''more''" by (simp add: unread_def istream_of_def)
  with y(1,2) out2 show ?thesis by blast
qed

section \<open>Full chunks\<close>

text \<open>Two libraries that agree on everything but what ending a frame does.\<close>

definition same_until_end :: "('c, 'd) zstd_api \<Rightarrow> ('c, 'd) zstd_api \<Rightarrow> bool" where
  "same_until_end Z Z' \<longleftrightarrow> in_size Z' = in_size Z \<and> out_size Z' = out_size Z \<and> createCCtx Z' = createCCtx Z \<and>
     setParameter Z' = setParameter Z \<and> resetSession Z' = resetSession Z \<and>
     (\<forall>c n input. compressStream2 Z' c n input ZSTD_e_continue = compressStream2 Z c n input ZSTD_e_continue)"

lemma same_until_end_sym: "same_until_end Z Z' \<Longrightarrow> same_until_end Z' Z"
  by (simp add: same_until_end_def)

lemma compress_chunk_same_Some:
  assumes "compress_chunk Z False input pos c w out = Some y" and "same_until_end Z Z'"
  shows "compress_chunk Z' False input pos c w out = Some y"
proof -
  have "\<not> False \<longrightarrow> same_until_end Z Z' \<longrightarrow> compress_chunk Z' False input pos c w out = Some y"
  proof (rule compress_chunk.raw_induct [where P = "\<lambda>Z l input pos c w out y.
        \<not> l \<longrightarrow> same_until_end Z Z' \<longrightarrow> compress_chunk Z' False input pos c w out = Some y", OF _ assms(1)], intro impI)
    fix rec :: "('a, 'b) zstd_api \<Rightarrow> bool \<Rightarrow> bytes \<Rightarrow> nat \<Rightarrow> 'a \<Rightarrow> size_t \<Rightarrow> ostream \<Rightarrow> ((error + 'a \<times> nat \<times> size_t) \<times> ostream) option"
      and Z :: "('a, 'b) zstd_api" and l input pos c w out y
    assume IH: "\<And>Z l input pos c w out y. rec Z l input pos c w out = Some y \<Longrightarrow>
        \<not> l \<longrightarrow> same_until_end Z Z' \<longrightarrow> compress_chunk Z' False input pos c w out = Some y"
      and run: "(case assertOk (compressStream2 Z c (out_size Z) (drop pos input) (if l then ZSTD_e_end else ZSTD_e_continue)) of
          Inl e \<Rightarrow> Some (Inl e, out)
        | Inr (remaining, produced, used, cctx') \<Rightarrow>
            if if l then remaining = 0 else pos + used = length input
            then Some (Inr (cctx', pos + used, w + of_nat (length produced)), ostream_write produced out)
            else rec Z l input (pos + used) cctx' (w + of_nat (length produced)) (ostream_write produced out)) = Some y"
      and l: "\<not> l" and same: "same_until_end Z Z'"
    have "compressStream2 Z' c (out_size Z') (drop pos input) ZSTD_e_continue =
        compressStream2 Z c (out_size Z) (drop pos input) ZSTD_e_continue"
      using same by (simp add: same_until_end_def)
    with run l same show "compress_chunk Z' False input pos c w out = Some y"
      by (subst compress_chunk.simps) (auto split: sum.splits prod.splits if_splits dest: IH)
  qed
  then show ?thesis using assms(2) by blast
qed

lemma compress_chunk_same:
  "same_until_end Z Z' \<Longrightarrow> compress_chunk Z' False input pos c w out = compress_chunk Z False input pos c w out"
  using compress_chunk_same_Some same_until_end_sym by (metis not_Some_eq)

lemma compress_loop_same:
  assumes "same_until_end Z Z'" and "\<not> ifail ins" and "length (unread ins) = k * in_size Z"
  shows "compress_loop Z' False c w ins out = compress_loop Z False c w ins out"
  using assms(2,3)
proof (induction k arbitrary: c w ins out)
  case 0
  then obtain s' where "istream_read (in_size Z) ins = ([], s')"
    by (simp add: istream_read_def unread_def)
  moreover have "in_size Z' = in_size Z" using assms(1) by (simp add: same_until_end_def)
  ultimately show ?case
    by (subst compress_loop.simps [of Z'], subst compress_loop.simps [of Z]) simp
next
  case (Suc k)
  let ?n = "in_size Z" and ?ins = "ins\<lparr>ipos := ipos ins + in_size Z\<rparr>"
  have n: "in_size Z' = ?n" using assms(1) by (simp add: same_until_end_def)
  have read: "istream_read ?n ins = (take ?n (unread ins), ?ins)"
    using Suc.prems by (intro istream_read_full) simp_all
  have full: "length (take ?n (unread ins)) = ?n" using Suc.prems(2) by simp
  have rest: "compress_loop Z' False c' w' ?ins out' = compress_loop Z False c' w' ?ins out'" for c' w' out'
    using Suc.prems by (intro Suc.IH) simp_all
  show ?case
    by (subst compress_loop.simps [of Z'], subst compress_loop.simps [of Z])
      (simp add: n read full rest compress_chunk_same [OF assms(1)] del: length_take cong: sum.case_cong split: option.split sum.split prod.split)
qed

lemma compress_same:
  assumes "same_until_end Z Z'" and "length d = k * in_size Z"
  shows "compress Z' (istream_of d) out = compress Z (istream_of d) out"
proof -
  have "compress_loop Z' False c 0 (istream_of d) out = compress_loop Z False c 0 (istream_of d) out" for c
    using assms by (intro compress_loop_same [where k = k]) simp_all
  moreover have "createCCtx Z' = createCCtx Z" "setParameter Z' = setParameter Z" "resetSession Z' = resetSession Z"
    using assms(1) by (simp_all add: same_until_end_def)
  ultimately show ?thesis by (simp only: compress_def compress_shared_def)
qed

lemma held_keeps_chunks:
  "\<not> ifail ins \<Longrightarrow> length (unread ins) = k * 4 \<Longrightarrow> compress_loop held_zstd False c w ins out = Some (Inr w, out)"
proof (induction k arbitrary: c ins)
  case 0
  then obtain s' where "istream_read 4 ins = ([], s')" by (simp add: istream_read_def unread_def)
  then show ?case by (subst compress_loop.simps) simp
next
  case (Suc k)
  have "istream_read 4 ins = (take 4 (unread ins), ins\<lparr>ipos := ipos ins + 4\<rparr>)"
    using Suc.prems by (intro istream_read_full) simp_all
  moreover have "length (take 4 (unread ins)) = 4" "take 4 (unread ins) \<noteq> []"
    using Suc.prems(2) by auto
  moreover have "compress_loop held_zstd False (c @ take 4 (unread ins)) w (ins\<lparr>ipos := ipos ins + 4\<rparr>) out = Some (Inr w, out)"
    using Suc.prems by (intro Suc.IH) simp_all
  moreover have "compress_chunk held_zstd False input 0 c w u = Some (Inr (c @ input, length input, w), u)" for input c w u
    by (subst compress_chunk.simps) (simp add: held_zstd_def ostream_write_def)
  ultimately show ?case by (subst compress_loop.simps) simp
qed

text \<open>
  C31. A file whose size is a multiple of the read buffer's is not compressed completely: its last
  chunk fills the buffer, so no call ends the frame, and with every library the result does not depend
  on what ending a frame does.  With a library that keeps its output until the frame is ended, which
  the contract allows, such a file is packed into no bytes at all, without an error, and unpacking
  them gives an empty file.
\<close>

theorem compress_full_chunks_lost:
  "(length d = k * in_size Z \<and> same_until_end Z Z' \<longrightarrow>
      compress Z' (istream_of d) out = compress Z (istream_of d) out) \<and>
    zstd_laws held_zstd held_frame \<and>
    (length d = k * in_size held_zstd \<longrightarrow> compress held_zstd (istream_of d) out = Some (Inr 0, out) \<and>
      (\<not> ifail ins \<longrightarrow> decompress held_zstd 0 ins out2 = Some (Inr 0, ins, out2)))"
proof -
  have "compress_loop held_zstd False c 0 (istream_of d) out = Some (Inr 0, out)" if "length d = k * 4" for c
    using that by (intro held_keeps_chunks) simp_all
  then have "compress held_zstd (istream_of d) out = Some (Inr 0, out)" if "length d = k * 4"
    using that by (simp add: compress_def compress_shared_def) (simp add: held_zstd_def)
  moreover have "length d = k * in_size Z \<and> same_until_end Z Z' \<longrightarrow>
      compress Z' (istream_of d) out = compress Z (istream_of d) out"
    using compress_same by blast
  ultimately show ?thesis using decompress_nothing [OF held_zstd_laws] held_zstd_laws by simp
qed

theorem compress_full_chunks_lost_witness:
  "compress held_zstd (istream_of ''data'') ostream_empty = Some (Inr 0, ostream_empty)"
  using compress_full_chunks_lost [of "''data''" 1 held_zstd held_zstd ostream_empty] by simp

end
