(* ===== verification/ArchiveManager.thy ===== *)
theory ArchiveManager
  imports FSEntryInfo Zstd "HOL-Library.Sublist"
begin

text \<open>
  \<open>src/client/ArchiveManager.cpp\<close>: packing a directory into one archive file and unpacking it.  The
  walk over the directory follows the tree of the host; a file is read through its path, as in the
  code, while the archive is being written: what has been written is in the archive's file at once (the
  code flushes after every entry), so a directory that contains the archive shows what the archive holds
  so far.  Likewise an entry that is unpacked over the archive replaces what is read next.  A compression call that does not end makes the whole operation \<open>None\<close>.
\<close>

section \<open>Packing\<close>

definition addDirectory :: "string \<Rightarrow> ostream \<Rightarrow> (error + unit) \<times> ostream" where
  "addDirectory relative new_archive =
     (case FSEntryInfo_init True relative of
        Inl e \<Rightarrow> (Inl e, new_archive)
      | Inr info \<Rightarrow>
          case writeToStream info new_archive of
            (Inl e, new_archive') \<Rightarrow> (Inl e, new_archive')
          | (Inr pos, new_archive') \<Rightarrow> (Inr (), new_archive'))"

text \<open>The host while the archive is open at the path \<open>archive\<close> of the tree; \<open>None\<close> if it could not be opened.\<close>

definition while_writing :: "string list option \<Rightarrow> ostream \<Rightarrow> host \<Rightarrow> host" where
  "while_writing archive new_archive h =
     (case archive of None \<Rightarrow> h | Some q \<Rightarrow> write_file q (obuf new_archive) h)"

definition addFile ::
  "('c, 'd) zstd_api \<Rightarrow> string list option \<Rightarrow> host \<Rightarrow> string \<Rightarrow> string \<Rightarrow> ostream \<Rightarrow>
     ((error + unit) \<times> ostream) option" where
  "addFile Z archive h file_path relative compressed_archive =
     (case FSEntryInfo_init False relative of
        Inl e \<Rightarrow> Some (Inl e, compressed_archive)
      | Inr file_info \<Rightarrow>
          case writeToStream file_info compressed_archive of
            (Inl e, out1) \<Rightarrow> Some (Inl e, out1)
          | (Inr pos_to_write_compressed_size, out1) \<Rightarrow>
              case open_in (while_writing archive out1 h) file_path of
                None \<Rightarrow> Some (Inl (ArchiveManagerException (''Failed to open input file: '' @ file_path)), out1)
              | Some content \<Rightarrow>
                  case compress_shared Z (resolve h file_path = archive) (istream_of content) out1 of
                    None \<Rightarrow> None
                  | Some (Inl e, out2) \<Rightarrow> Some (Inl e, out2)
                  | Some (Inr bytes_written, out2) \<Rightarrow>
                      Some (Inr (), writeCompressedLength pos_to_write_compressed_size bytes_written out2))"

text \<open>\<open>packDirectory\<close> with its loop; what is neither a directory nor a regular file is skipped.\<close>

function packDirectory ::
  "('c, 'd) zstd_api \<Rightarrow> string list option \<Rightarrow> host \<Rightarrow> string \<Rightarrow> (string \<times> node) list \<Rightarrow> string \<Rightarrow> ostream \<Rightarrow>
     ((error + unit) \<times> ostream) option"
and pack_entries ::
  "('c, 'd) zstd_api \<Rightarrow> string list option \<Rightarrow> host \<Rightarrow> string \<Rightarrow> (string \<times> node) list \<Rightarrow> string \<Rightarrow> ostream \<Rightarrow>
     ((error + unit) \<times> ostream) option" where
  "packDirectory Z archive h dir_to_compress es relative new_archive =
     (case addDirectory relative new_archive of
        (Inl e, out1) \<Rightarrow> Some (Inl e, out1)
      | (Inr _, out1) \<Rightarrow> pack_entries Z archive h dir_to_compress es relative out1)"
| "pack_entries Z archive h dir_to_compress [] relative new_archive = Some (Inr (), new_archive)"
| "pack_entries Z archive h dir_to_compress ((name, n) # rest) relative new_archive =
     (let current = path_append dir_to_compress name;
          new_relative = path_append relative name;
          r = (case n of
                 Dir es \<Rightarrow> packDirectory Z archive h current es new_relative new_archive
               | File d \<Rightarrow> addFile Z archive h current new_relative new_archive
               | Special \<Rightarrow> Some (Inr (), new_archive))
      in (case r of
            None \<Rightarrow> None
          | Some (Inl e, out1) \<Rightarrow> Some (Inl e, out1)
          | Some (Inr _, out1) \<Rightarrow> pack_entries Z archive h dir_to_compress rest relative out1))"
  by pat_completeness auto
termination
  by (relation "measure (\<lambda>x. case x of
      Inl (Z, a, h, d, es, r, out) \<Rightarrow> 2 * size_list (size_prod (\<lambda>_. 0) size) es + 1
    | Inr (Z, a, h, d, es, r, out) \<Rightarrow> 2 * size_list (size_prod (\<lambda>_. 0) size) es)")
    (auto simp: size_list_def)

declare packDirectory.simps [simp del]

text \<open>
  The archive is made before the walk, so a directory that contains it lists it.  What has been
  written stays when the walk ends with an exception.  If the archive cannot be opened, the stream
  swallows what is written.  Iterating over what is not a directory throws.
\<close>

definition createArchive ::
  "('c, 'd) zstd_api \<Rightarrow> string \<Rightarrow> string \<Rightarrow> host \<Rightarrow> ((error + unit) \<times> host) option" where
  "createArchive Z directory new_archive_path h =
     (if fs_exists h new_archive_path then
        Some (Inl (ArchiveManagerException (''File that you try to unpackArchive to ('' @ new_archive_path @
          '') already exists!'')), h)
      else
        let opened = open_out new_archive_path h;
            archive = map_option snd opened;
            h1 = (case opened of None \<Rightarrow> h | Some (h', q) \<Rightarrow> h');
            packed = (case stat h1 directory of
                Some (Dir es) \<Rightarrow> packDirectory Z archive h1 directory es (filename directory) ostream_empty
              | _ \<Rightarrow> Some (case addDirectory (filename directory) ostream_empty of
                    (Inl e, out) \<Rightarrow> (Inl e, out)
                  | (Inr _, out) \<Rightarrow> (Inl (Filesystem_error ''directory iterator cannot open directory''), out)))
        in map_option (\<lambda>(r, out). (r, while_writing archive out h1)) packed)"

section \<open>Unpacking\<close>

text \<open>The archive is read from the path \<open>archive\<close> of the tree; an entry that is unpacked there replaces what is read.\<close>

definition unpackFile ::
  "('c, 'd) zstd_api \<Rightarrow> string list option \<Rightarrow> string \<Rightarrow> fs_entry \<Rightarrow> istream \<Rightarrow> host \<Rightarrow> ((error + unit) \<times> istream \<times> host) option" where
  "unpackFile Z archive directory entry_info compressed_archive h =
     (let file_path = path_append directory (relative_path entry_info) in
      case open_out file_path h of
        None \<Rightarrow> Some (Inl (ArchiveManagerException (''Failed to open output decompressed_file: '' @ file_path)),
                  compressed_archive, h)
      | Some (h1, q) \<Rightarrow>
          case decompress_shared Z (archive = Some q) (compressed_length entry_info) compressed_archive ostream_empty of
            None \<Rightarrow> None
          | Some (Inl e, archive', out) \<Rightarrow> Some (Inl e, archive', write_file q (obuf out) h1)
          | Some (Inr _, archive', out) \<Rightarrow> Some (Inr (), archive', write_file q (obuf out) h1))"

partial_function (option) unpack_loop ::
  "('c, 'd) zstd_api \<Rightarrow> string list option \<Rightarrow> string \<Rightarrow> size_t \<Rightarrow> istream \<Rightarrow> host \<Rightarrow> ((error + unit) \<times> host) option" where
  "unpack_loop Z archive directory archive_size compressed_archive h =
     (case getRemainingBytes compressed_archive archive_size of
        Inl e \<Rightarrow> Some (Inl e, h)
      | Inr remaining \<Rightarrow>
          if 0 < remaining then
            (case readFromStream archive_size compressed_archive of
               (Inl e, archive') \<Rightarrow> Some (Inl e, h)
             | (Inr entry_info, archive') \<Rightarrow>
                 if is_directory entry_info then
                   (case create_directories (path_append directory (relative_path entry_info)) h of
                      (Inl e, h') \<Rightarrow> Some (Inl e, h')
                    | (Inr _, h') \<Rightarrow> unpack_loop Z archive directory archive_size archive' h')
                 else
                   (case unpackFile Z archive directory entry_info archive' h of
                      None \<Rightarrow> None
                    | Some (Inl e, archive'', h') \<Rightarrow> Some (Inl e, h')
                    | Some (Inr _, archive'', h') \<Rightarrow> unpack_loop Z archive directory archive_size archive'' h'))
          else Some (Inr (), h))"

text \<open>What is no regular file has no size; a stream that could not be opened would have none to read.\<close>

definition unpackArchive ::
  "('c, 'd) zstd_api \<Rightarrow> string \<Rightarrow> string \<Rightarrow> host \<Rightarrow> ((error + unit) \<times> host) option" where
  "unpackArchive Z directory archive_path h =
     (if \<not> fs_exists h directory then
        Some (Inl (ArchiveManagerException (''Directory that you try to unpack archive into ('' @ archive_path @
          '') does not exists!'')), h)
      else if \<not> fs_exists h archive_path then
        Some (Inl (ArchiveManagerException (''Given archive '' @ archive_path @ '' does not exists!'')), h)
      else case file_size h archive_path of
          Inl e \<Rightarrow> Some (Inl e, h)
        | Inr archive_size \<Rightarrow>
            case open_in h archive_path of
              None \<Rightarrow> Some (Inl (UtilsException ''Could not retrieve stream's current position''), h)
            | Some content \<Rightarrow> unpack_loop Z (resolve h archive_path) directory archive_size (istream_of content) h)"

section \<open>What an archive says\<close>

text \<open>The entries of an archive in order, and the bytes that stand for an entry.\<close>

datatype archive_item = Dir_item string | File_item string bytes

function flatten_entries :: "string \<Rightarrow> (string \<times> node) list \<Rightarrow> archive_item list" where
  "flatten_entries relative [] = []"
| "flatten_entries relative ((name, n) # rest) =
     (case n of
        Dir es \<Rightarrow> Dir_item (path_append relative name) # flatten_entries (path_append relative name) es
      | File d \<Rightarrow> [File_item (path_append relative name) d]
      | Special \<Rightarrow> []) @ flatten_entries relative rest"
  by pat_completeness auto
termination
  by (relation "measure (\<lambda>(r, es). size_list (size_prod (\<lambda>_. 0) size) es)") (auto simp: size_list_def)

text \<open>Unpacking gives back everything but what packing skips.\<close>

function prune :: "(string \<times> node) list \<Rightarrow> (string \<times> node) list" where
  "prune [] = []"
| "prune ((name, n) # rest) =
     (case n of Dir es \<Rightarrow> [(name, Dir (prune es))] | File d \<Rightarrow> [(name, File d)] | Special \<Rightarrow> []) @ prune rest"
  by pat_completeness auto
termination
  by (relation "measure (size_list (size_prod (\<lambda>_. 0) size))") (auto simp: size_list_def)

text \<open>A directory that can be packed: proper names, no path too long, and no file whose size is a
  positive multiple of the compressor's read buffer.\<close>

function packable :: "('c, 'd) zstd_api \<Rightarrow> string \<Rightarrow> (string \<times> node) list \<Rightarrow> bool" where
  "packable Z relative [] = True"
| "packable Z relative ((name, n) # rest) \<longleftrightarrow>
     valid_name name \<and> name \<notin> fst ` set rest \<and> length (path_append relative name) \<le> PATH_MAX_LEN \<and>
     (case n of
        Dir es \<Rightarrow> packable Z (path_append relative name) es
      | File d \<Rightarrow> compressible Z d
      | Special \<Rightarrow> True) \<and>
     packable Z relative rest"
  by pat_completeness auto
termination
  by (relation "measure (\<lambda>(Z, r, es). size_list (size_prod (\<lambda>_. 0) size) es)") (auto simp: size_list_def)

fun encodes :: "(bytes \<Rightarrow> bytes \<Rightarrow> bool) \<Rightarrow> archive_item \<Rightarrow> bytes \<Rightarrow> bool" where
  "encodes F (Dir_item p) b \<longleftrightarrow> b = header \<lparr>is_directory = True, relative_path = p, compressed_length = 0\<rparr>"
| "encodes F (File_item p d) b \<longleftrightarrow>
     (\<exists>y. b = header \<lparr>is_directory = False, relative_path = p, compressed_length = of_nat (length y)\<rparr> @ y \<and>
        (if d = [] then y = [] else F y d))"

subsection \<open>Packing a directory that can be packed\<close>

lemma addDirectory_ok:
  assumes "at_end out" and "length p \<le> PATH_MAX_LEN"
  shows "\<exists>out'. addDirectory p out = (Inr (), out') \<and> at_end out' \<and>
    (\<exists>b. obuf out' = obuf out @ b \<and> encodes F (Dir_item p) b)"
proof -
  let ?e = "\<lparr>is_directory = True, relative_path = p, compressed_length = 0\<rparr>"
  have "FSEntryInfo_init True p = Inr ?e" using assms(2) by (simp add: FSEntryInfo_init_def)
  moreover obtain pos out' where "writeToStream ?e out = (Inr pos, out')" "at_end out'" "obuf out' = obuf out @ header ?e"
    using writeToStream_header [OF assms(1), of ?e] assms(2) by (auto simp: entry_ok_def)
  ultimately show ?thesis by (simp add: addDirectory_def)
qed

lemma addFile_ok:
  assumes "zstd_laws Z F" and "at_end out" and "length p \<le> PATH_MAX_LEN"
    and "\<And>out. open_in (while_writing archive out h) path = Some d" and "resolve h path \<noteq> archive" and "compressible Z d"
  shows "\<exists>out'. addFile Z archive h path p out = Some (Inr (), out') \<and> at_end out' \<and>
    (\<exists>b. obuf out' = obuf out @ b \<and> encodes F (File_item p d) b)"
proof -
  let ?e = "\<lparr>is_directory = False, relative_path = p, compressed_length = 0\<rparr>"
  have i: "FSEntryInfo_init False p = Inr ?e" using assms(3) by (simp add: FSEntryInfo_init_def)
  obtain out1 where w: "writeToStream ?e out = (Inr (length (obuf out) + 9 + length p), out1)"
    "at_end out1" "obuf out1 = obuf out @ header ?e"
    using writeToStream_header [OF assms(2), of ?e] assms(3) by (auto simp: entry_ok_def)
  obtain out2 y where c: "compress Z (istream_of d) out1 = Some (Inr (of_nat (length y)), out2)"
    "at_end out2" "obuf out2 = obuf out1 @ y" "d = [] \<longrightarrow> y = []" "d \<noteq> [] \<and> compressible Z d \<longrightarrow> F y d"
    using compress_returns [OF assms(1) w(2)] by blast
  let ?out = "writeCompressedLength (length (obuf out) + 9 + length p) (of_nat (length y)) out2"
  have "obuf out2 = obuf out @ header ?e @ y" using c(3) w(3) by simp
  from writeCompressedLength_header [OF this, of "of_nat (length y)"]
  have "at_end ?out" "obuf ?out = obuf out @
      header \<lparr>is_directory = False, relative_path = p, compressed_length = of_nat (length y)\<rparr> @ y" by simp_all
  moreover have "addFile Z archive h path p out = Some (Inr (), ?out)"
    using i w(1) assms(4,5) c(1) by (simp add: addFile_def compress_def)
  moreover have "encodes F (File_item p d)
      (header \<lparr>is_directory = False, relative_path = p, compressed_length = of_nat (length y)\<rparr> @ y)"
    unfolding encodes.simps using c(4,5) assms(6) by (intro exI [of _ y]) simp
  ultimately show ?thesis by blast
qed

text \<open>What a path in a listed directory leads to.\<close>

lemma stat_child:
  assumes "resolve h dir = Some q" and "lookup (root h) q = Some (Dir (pre @ (name, n) # rest))"
    and "valid_name name" and "name \<notin> fst ` set pre"
  shows "resolve h (path_append dir name) = Some (q @ [name]) \<and> lookup (root h) (q @ [name]) = Some n"
proof -
  have "map_of pre name = None" using assms(4) by (rule map_of_new)
  then have "map_of (pre @ (name, n) # rest) name = Some n" by (simp add: map_add_def)
  then show ?thesis using assms by (simp add: resolve_append lookup_append del: map_of_append)
qed

text \<open>The archive is a file; the directories and all other files are as if it were not being written.\<close>

definition being_written :: "host \<Rightarrow> string list \<Rightarrow> bool" where
  "being_written h q \<longleftrightarrow> is_dir (lookup (root h) (butlast q)) \<and> is_file (lookup (root h) q)"

lemma being_written_dirs:
  assumes "being_written h q"
  shows "is_dir (lookup (put q (File d) (root h)) x) = is_dir (lookup (root h) x)"
proof -
  obtain b where q: "lookup (root h) q = Some (File b)" and up: "is_dir (lookup (root h) (butlast q))"
    using assms by (auto simp: being_written_def elim: is_file.elims)
  have ne: "q \<noteq> []" using q up by (cases "root h") auto
  have new: "lookup (put q (File d) (root h)) q = Some (File d)" using q by (simp add: lookup_put)
  show ?thesis
  proof (cases rule: path_cases [of q x])
    case (above y ys)
    have "x = [] \<or> lookup (root h) x \<noteq> None" using q unfolding above by (auto simp: lookup_append split: option.splits)
    moreover have "is_dir (lookup (root h) x)"
    proof -
      obtain n where n: "lookup (root h) x = Some n" "lookup n (y # ys) = Some (File b)"
        using q unfolding above by (auto simp: lookup_append split: option.splits)
      then show ?thesis by (cases n) auto
    qed
    ultimately show ?thesis using lookup_put_prefix [of "root h" x y ys "File d"] unfolding above by simp
  next
    case apart
    then show ?thesis using up by (simp add: lookup_put_other)
  next
    case (below z)
    show ?thesis unfolding below using q new by (cases z) (simp_all add: lookup_append)
  qed
qed

lemma open_in_meanwhile:
  assumes "being_written h qa" and "resolve h p = Some r" and "lookup (root h) r = Some (File d)" and "r \<noteq> qa"
  shows "open_in (while_writing (Some qa) out h) p = Some d"
proof -
  let ?t = "put qa (File (obuf out)) (root h)"
  have "resolve (while_writing (Some qa) out h) p = Some r"
    using assms(2) walk_mono [of "root h" ?t] being_written_dirs [OF assms(1)]
    by (auto simp: resolve_def while_writing_def write_file_def split: if_splits)
  moreover have "lookup ?t r = Some (File d)"
  proof -
    obtain b where q: "lookup (root h) qa = Some (File b)" and up: "is_dir (lookup (root h) (butlast qa))"
      using assms(1) by (auto simp: being_written_def elim: is_file.elims)
    have "diverge qa r"
    proof (cases rule: path_cases [of qa r])
      case (above y ys)
      then show ?thesis using q assms(3) by (simp add: lookup_append)
    next
      case (below z)
      then show ?thesis using q assms(3,4) by (cases z) (simp_all add: lookup_append)
    qed
    then show ?thesis using up assms(3) by (simp add: lookup_put_other)
  qed
  ultimately show ?thesis by (simp add: open_in_def stat_def while_writing_def write_file_def)
qed

lemma pack_entries_ok:
  assumes "zstd_laws Z F" and "being_written h qa"
  shows "resolve h dir = Some q \<Longrightarrow> lookup (root h) q = Some (Dir (pre @ es)) \<Longrightarrow>
    fst ` set pre \<inter> fst ` set es = {} \<Longrightarrow> packable Z rel es \<Longrightarrow> at_end out \<Longrightarrow>
    \<not> prefix q qa \<Longrightarrow> \<exists>out' bs. pack_entries Z (Some qa) h dir es rel out = Some (Inr (), out') \<and> at_end out' \<and>
      obuf out' = obuf out @ concat bs \<and> list_all2 (encodes F) (flatten_entries rel es) bs"
proof (induction rel es arbitrary: dir q pre out rule: flatten_entries.induct)
  case (1 rel)
  then show ?case by (intro exI [of _ out] exI [of _ "[]"]) simp
next
  case (2 rel name n rest)
  let ?cur = "path_append dir name" and ?rel = "path_append rel name"
  have v: "valid_name name" "length ?rel \<le> PATH_MAX_LEN" "packable Z rel rest" and np: "name \<notin> fst ` set pre"
    using "2.prems"(3,4) by auto
  have child: "resolve h ?cur = Some (q @ [name])" "lookup (root h) (q @ [name]) = Some n"
    using stat_child [OF "2.prems"(1,2) v(1) np] by auto
  have one: "\<exists>out1 bs. (case n of
                 Dir es \<Rightarrow> packDirectory Z (Some qa) h ?cur es ?rel out
               | File d \<Rightarrow> addFile Z (Some qa) h ?cur ?rel out
               | Special \<Rightarrow> Some (Inr (), out)) = Some (Inr (), out1) \<and> at_end out1 \<and> obuf out1 = obuf out @ concat bs \<and>
      list_all2 (encodes F) (case n of Dir es \<Rightarrow> Dir_item ?rel # flatten_entries ?rel es
        | File d \<Rightarrow> [File_item ?rel d] | Special \<Rightarrow> []) bs"
  proof (cases n)
    case (File d)
    have "q @ [name] \<noteq> qa" using "2.prems"(6) by auto
    with child File have "open_in (while_writing (Some qa) o1 h) ?cur = Some d" "resolve h ?cur \<noteq> Some qa" for o1
      using open_in_meanwhile [OF assms(2)] by auto
    then obtain out1 b where "addFile Z (Some qa) h ?cur ?rel out = Some (Inr (), out1)" "at_end out1"
      "obuf out1 = obuf out @ b" "encodes F (File_item ?rel d) b"
      using addFile_ok [OF assms(1) "2.prems"(5) v(2)] "2.prems"(4) File by fastforce
    then show ?thesis using File by (intro exI [of _ out1] exI [of _ "[b]"]) simp
  next
    case (Dir es)
    obtain out1 b where d: "addDirectory ?rel out = (Inr (), out1)" "at_end out1"
      "obuf out1 = obuf out @ b" "encodes F (Dir_item ?rel) b"
      using addDirectory_ok [OF "2.prems"(5) v(2)] by blast
    have "packable Z ?rel es" using "2.prems"(4) Dir by simp
    then obtain out2 bs where "pack_entries Z (Some qa) h ?cur es ?rel out1 = Some (Inr (), out2)" "at_end out2"
      "obuf out2 = obuf out1 @ concat bs" "list_all2 (encodes F) (flatten_entries ?rel es) bs"
      using "2.IH"(1) [OF Dir child(1), of "[]" out1] child(2) Dir d(2) "2.prems"(6) append_prefixD by (metis (no_types, lifting) append_Nil inf_bot_left list.set(1) image_empty)
    then show ?thesis using Dir d
      by (intro exI [of _ out2] exI [of _ "b # bs"]) (simp add: packDirectory.simps)
  next
    case Special
    then show ?thesis using "2.prems"(5) by (intro exI [of _ out] exI [of _ "[]"]) simp
  qed
  then obtain out1 bs1 where o1: "(case n of
                 Dir es \<Rightarrow> packDirectory Z (Some qa) h ?cur es ?rel out
               | File d \<Rightarrow> addFile Z (Some qa) h ?cur ?rel out
               | Special \<Rightarrow> Some (Inr (), out)) = Some (Inr (), out1)" "at_end out1" "obuf out1 = obuf out @ concat bs1"
      "list_all2 (encodes F) (case n of Dir es \<Rightarrow> Dir_item ?rel # flatten_entries ?rel es
        | File d \<Rightarrow> [File_item ?rel d] | Special \<Rightarrow> []) bs1" by blast
  have "lookup (root h) q = Some (Dir ((pre @ [(name, n)]) @ rest))" using "2.prems"(2) by simp
  moreover have "fst ` set (pre @ [(name, n)]) \<inter> fst ` set rest = {}" using "2.prems"(3,4) by auto
  ultimately obtain out2 bs2 where "pack_entries Z (Some qa) h dir rest rel out1 = Some (Inr (), out2)" "at_end out2"
    "obuf out2 = obuf out1 @ concat bs2" "list_all2 (encodes F) (flatten_entries rel rest) bs2"
    using "2.IH"(2) [OF "2.prems"(1), of "pre @ [(name, n)]" out1] v(3) o1(2) "2.prems"(6) by blast
  then show ?case using o1
    by (intro exI [of _ out2] exI [of _ "bs1 @ bs2"]) (simp add: Let_def list_all2_appendI)
qed

subsection \<open>Unpacking entry by entry\<close>

fun item_path :: "archive_item \<Rightarrow> string" where
  "item_path (Dir_item p) = p"
| "item_path (File_item p d) = p"

fun unpack_item :: "string \<Rightarrow> archive_item \<Rightarrow> (host, unit) prog" where
  "unpack_item directory (Dir_item p) h = create_directories (path_append directory p) h"
| "unpack_item directory (File_item p d) h =
     (case open_out (path_append directory p) h of
        None \<Rightarrow> (Inl (ArchiveManagerException (''Failed to open output decompressed_file: '' @
                  path_append directory p)), h)
      | Some (h1, q) \<Rightarrow> (Inr (), write_file q d h1))"

fun unpack_items :: "string \<Rightarrow> archive_item list \<Rightarrow> (host, unit) prog" where
  "unpack_items directory [] = ret ()"
| "unpack_items directory (i # is) = andthen (unpack_item directory i) (\<lambda>_. unpack_items directory is)"

lemma unpack_items_append:
  "unpack_items directory (is @ js) = andthen (unpack_items directory is) (\<lambda>_. unpack_items directory js)"
  by (induction "is") (auto simp: andthen_def fun_eq_iff split: prod.splits sum.splits)

text \<open>No file is unpacked to the path \<open>archive\<close>.\<close>

primrec spares :: "string list option \<Rightarrow> string \<Rightarrow> archive_item list \<Rightarrow> host \<Rightarrow> bool" where
  "spares archive directory [] h = True"
| "spares archive directory (i # is) h \<longleftrightarrow>
     (case i of Dir_item p \<Rightarrow> True
      | File_item p d \<Rightarrow> (case open_out (path_append directory p) h of None \<Rightarrow> True | Some (h1, q) \<Rightarrow> archive \<noteq> Some q)) \<and>
     spares archive directory is (snd (unpack_item directory i h))"

lemma spares_append:
  "unpack_items directory is h = (Inr (), h1) \<Longrightarrow>
   spares archive directory (is @ js) h \<longleftrightarrow> spares archive directory is h \<and> spares archive directory js h1"
proof (induction "is" arbitrary: h)
  case (Cons i "is")
  then obtain h2 where "unpack_item directory i h = (Inr (), h2)" "unpack_items directory is h2 = (Inr (), h1)"
    by (auto elim: andthen_InrE)
  then show ?case using Cons.IH by simp
qed (simp add: ret_def)

lemma packable_paths:
  "packable Z rel es \<Longrightarrow> i \<in> set (flatten_entries rel es) \<Longrightarrow> length (item_path i) \<le> PATH_MAX_LEN"
proof (induction rel es rule: flatten_entries.induct)
  case (2 rel name n rest)
  then show ?case by (cases n) auto
qed simp

text \<open>What is left of a file, as the code computes it.\<close>

definition at_file :: "size_t \<Rightarrow> istream \<Rightarrow> bool" where
  "at_file total_length s \<longleftrightarrow> \<not> ifail s \<and> ipos s + length (unread s) < 2 ^ 64 \<and>
     total_length = of_nat (ipos s + length (unread s))"

lemma at_file_left:
  assumes "at_file total_length s" and "unread s = d @ rest"
  shows "total_length - of_nat (ipos s + length d) = of_nat (length rest)"
    and "at_file total_length (s\<lparr>ipos := ipos s + length d\<rparr>)"
  using assms by (simp_all add: at_file_def)

lemma at_file_remaining:
  assumes "at_file total_length s"
  shows "getRemainingBytes s total_length = Inr (of_nat (length (unread s)))"
    and "(0 :: size_t) < of_nat (length (unread s)) \<longleftrightarrow> unread s \<noteq> []"
proof -
  show "getRemainingBytes s total_length = Inr (of_nat (length (unread s)))"
    using assms by (simp add: at_file_def getRemainingBytes_at)
  have "unat (of_nat (length (unread s)) :: size_t) = length (unread s)"
    using assms by (intro unat_of_nat_size) (simp add: at_file_def)
  then show "(0 :: size_t) < of_nat (length (unread s)) \<longleftrightarrow> unread s \<noteq> []"
    by (simp add: word_less_nat_alt)
qed

lemma at_file_entry:
  assumes "at_file total_length s" and "unread s = header e @ rest" and "entry_ok e"
    and "unat (compressed_length e) \<le> length rest"
  shows "readFromStream total_length s = (Inr e, s\<lparr>ipos := ipos s + length (header e)\<rparr>)"
proof -
  have "unat (of_nat (length rest) :: size_t) = length rest"
    using assms(1,2) by (intro unat_of_nat_size) (simp add: at_file_def)
  then have "compressed_length e \<le> total_length - of_nat (ipos s + length (header e))"
    using at_file_left(1) [OF assms(1,2)] assms(4) by (simp add: word_le_nat_alt)
  then show ?thesis using assms by (intro readFromStream_header) (simp_all add: at_file_def)
qed

lemma decompress_body:
  assumes "zstd_laws Z F" and "if d = [] then y = [] else F y d" and "at_file total_length s"
    and "unread s = y @ rest"
  shows "\<exists>out. decompress Z (of_nat (length y)) s ostream_empty =
      Some (Inr (of_nat (length d)), s\<lparr>ipos := ipos s + length y\<rparr>, out) \<and> obuf out = d"
proof (cases "d = []")
  case True
  then show ?thesis using assms decompress_nothing [OF assms(1), of s ostream_empty] by (simp add: at_file_def)
next
  case False
  have "length y < 2 ^ 64" using assms(3,4) by (simp add: at_file_def)
  then obtain out where "decompress Z (of_nat (length y)) s ostream_empty =
      Some (Inr (of_nat (length d)), s\<lparr>ipos := ipos s + length y\<rparr>, out)" "obuf out = obuf ostream_empty @ d"
    using decompress_frame [OF assms(1) _ _ _ assms(4), of d ostream_empty] assms(2,3) False
    by (auto simp: at_file_def)
  then show ?thesis by simp
qed

lemma unpack_loop_items:
  assumes "zstd_laws Z F"
  shows "at_file total_length s \<Longrightarrow> unread s = concat bs @ rest \<Longrightarrow> list_all2 (encodes F) items bs \<Longrightarrow>
    list_all (\<lambda>i. length (item_path i) \<le> PATH_MAX_LEN) items \<Longrightarrow> unpack_items directory items h = (Inr (), h') \<Longrightarrow>
    spares archive directory items h \<Longrightarrow>
    \<exists>s'. at_file total_length s' \<and> unread s' = rest \<and>
      unpack_loop Z archive directory total_length s h = unpack_loop Z archive directory total_length s' h'"
proof (induction items arbitrary: s bs h)
  case Nil
  then show ?case by (intro exI [of _ s]) simp
next
  case (Cons i items)
  then obtain b bs' where bs: "bs = b # bs'" "encodes F i b" "list_all2 (encodes F) items bs'"
    by (auto simp: list_all2_Cons1)
  from Cons.prems(5) obtain h1 where h1: "unpack_item directory i h = (Inr (), h1)"
    "unpack_items directory items h1 = (Inr (), h')"
    by (auto elim: andthen_InrE)
  show ?case
  proof (cases i)
    case (Dir_item p)
    let ?e = "\<lparr>is_directory = True, relative_path = p, compressed_length = 0\<rparr>"
    have u: "unread s = header ?e @ concat bs' @ rest" using Cons.prems(2) bs Dir_item by simp
    have rd: "readFromStream total_length s = (Inr ?e, s\<lparr>ipos := ipos s + length (header ?e)\<rparr>)"
      using Cons.prems(4) Dir_item by (intro at_file_entry [OF Cons.prems(1) u]) (simp_all add: entry_ok_def)
    have "unread s \<noteq> []" using u by (simp add: header_def byte_of_bool_def)
    then have go: "unpack_loop Z archive directory total_length s h =
        unpack_loop Z archive directory total_length (s\<lparr>ipos := ipos s + length (header ?e)\<rparr>) h1"
      using at_file_remaining [OF Cons.prems(1)] rd h1(1) Dir_item
      by (subst unpack_loop.simps) simp
    have "unread (s\<lparr>ipos := ipos s + length (header ?e)\<rparr>) = concat bs' @ rest" using u by simp
    from Cons.IH [OF at_file_left(2) [OF Cons.prems(1) u] this bs(3) _ h1(2)] Cons.prems(4,6) h1(1)
    show ?thesis unfolding go by simp
  next
    case (File_item p d)
    then obtain y where y: "b = header \<lparr>is_directory = False, relative_path = p, compressed_length = of_nat (length y)\<rparr> @ y"
      "if d = [] then y = [] else F y d" using bs(2) by auto
    let ?e = "\<lparr>is_directory = False, relative_path = p, compressed_length = of_nat (length y)\<rparr>"
    have u: "unread s = header ?e @ y @ concat bs' @ rest" using Cons.prems(2) bs(1) y by simp
    have "length y < 2 ^ 64" using Cons.prems(1) u by (simp add: at_file_def)
    then have "unat (compressed_length ?e) = length y" by (simp add: unat_of_nat_size)
    then have rd: "readFromStream total_length s = (Inr ?e, s\<lparr>ipos := ipos s + length (header ?e)\<rparr>)"
      using Cons.prems(4) File_item by (intro at_file_entry [OF Cons.prems(1) u]) (simp_all add: entry_ok_def)
    let ?s = "s\<lparr>ipos := ipos s + length (header ?e)\<rparr>"
    have f1: "at_file total_length ?s" "unread ?s = y @ concat bs' @ rest"
      using at_file_left(2) [OF Cons.prems(1) u] u by simp_all
    have unr: "unread (?s\<lparr>ipos := ipos ?s + length y\<rparr>) = concat bs' @ rest"
      unfolding unread_advance [of ?s "length y"] f1(2) by simp
    obtain out where dc: "decompress Z (of_nat (length y)) ?s ostream_empty =
      Some (Inr (of_nat (length d)), ?s\<lparr>ipos := ipos ?s + length y\<rparr>, out)" "obuf out = d"
      using decompress_body [OF assms y(2) f1] by blast
    have "unread s \<noteq> []" using u by (simp add: header_def byte_of_bool_def)
    moreover have "unpackFile Z archive directory ?e ?s h = Some (Inr (), ?s\<lparr>ipos := ipos ?s + length y\<rparr>, h1)"
      using h1(1) File_item dc(1) [unfolded decompress_def] dc(2) Cons.prems(6) by (auto simp: unpackFile_def split: option.splits)
    ultimately have go: "unpack_loop Z archive directory total_length s h =
        unpack_loop Z archive directory total_length (?s\<lparr>ipos := ipos ?s + length y\<rparr>) h1"
      using at_file_remaining [OF Cons.prems(1)] rd by (subst unpack_loop.simps) simp
    from Cons.IH [OF at_file_left(2) [OF f1] unr bs(3) _ h1(2)] Cons.prems(4,6) h1(1)
    show ?thesis unfolding go by simp
  qed
qed

lemma unpack_loop_done: "at_file total_length s \<Longrightarrow> unread s = [] \<Longrightarrow> unpack_loop Z archive directory total_length s h = Some (Inr (), h)"
  using at_file_remaining [of total_length s] by (subst unpack_loop.simps) simp

subsection \<open>Rebuilding the tree\<close>

lemma unpack_items_tree:
  "packable Z rel es \<Longrightarrow> relative_to rel \<Longrightarrow> resolve h (path_append directory rel) = Some q \<Longrightarrow>
   lookup (root h) q = Some (Dir pre) \<Longrightarrow> fst ` set pre \<inter> fst ` set es = {} \<Longrightarrow> \<forall>a. archive = Some a \<longrightarrow> \<not> prefix q a \<Longrightarrow>
   unpack_items directory (flatten_entries rel es) h =
     (Inr (), h\<lparr>root := put q (Dir (pre @ prune es)) (root h)\<rparr>) \<and>
   spares archive directory (flatten_entries rel es) h"
proof (induction rel es arbitrary: h q pre rule: flatten_entries.induct)
  case (1 rel)
  then show ?case by (simp add: put_lookup)
next
  case (2 rel name n rest)
  let ?dir = "path_append directory rel" and ?rel = "path_append rel name"
  have v: "valid_name name" "packable Z rel rest" and np: "name \<notin> fst ` set pre" "name \<notin> fst ` set rest"
    using "2.prems"(1,5) by auto
  have rel: "relative_to ?rel" "path_append directory ?rel = path_append ?dir name"
    using relative_to_append "2.prems"(2) v(1) by blast+
  have ac: "put (q @ [name]) x (root h) = put q (Dir (pre @ [(name, x)])) (root h)"
    "lookup (put (q @ [name]) x (root h)) q = Some (Dir (pre @ [(name, x)]))"
    "resolve (h\<lparr>root := put (q @ [name]) x (root h)\<rparr>) ?dir = Some q" for x
    using add_child [OF "2.prems"(3,4) np(1)] by blast+
  text \<open>What the first entry leaves, and what the others add to it.\<close>
  have rest: "unpack_items directory (flatten_entries rel rest) (h\<lparr>root := put (q @ [name]) x (root h)\<rparr>) =
      (Inr (), h\<lparr>root := put q (Dir ((pre @ [(name, x)]) @ prune rest)) (root h)\<rparr>)"
    "spares archive directory (flatten_entries rel rest) (h\<lparr>root := put (q @ [name]) x (root h)\<rparr>)" for x
  proof -
    have "fst ` set (pre @ [(name, x)]) \<inter> fst ` set rest = {}" using "2.prems"(5) np(2) by auto
    from "2.IH"(2) [OF v(2) "2.prems"(2) ac(3) _ this "2.prems"(6)] ac(2)
    show "unpack_items directory (flatten_entries rel rest) (h\<lparr>root := put (q @ [name]) x (root h)\<rparr>) =
      (Inr (), h\<lparr>root := put q (Dir ((pre @ [(name, x)]) @ prune rest)) (root h)\<rparr>)"
      "spares archive directory (flatten_entries rel rest) (h\<lparr>root := put (q @ [name]) x (root h)\<rparr>)"
      by (simp_all add: ac(1) put_put)
  qed
  have below: "\<forall>a. archive = Some a \<longrightarrow> \<not> prefix (q @ [name]) a" using "2.prems"(6) by (auto simp: prefix_def)
  show ?case
  proof (cases n)
    case (File d)
    have "is_dir (lookup (root h) q)" using "2.prems"(4) by simp
    then have "unpack_item directory (File_item ?rel d) h = (Inr (), h\<lparr>root := put (q @ [name]) (File d) (root h)\<rparr>)"
      using open_out_child [OF v(1) "2.prems"(3,4) np(1)] rel(2) by (simp add: write_file_def put_same)
    moreover have "\<exists>h1. open_out (path_append directory ?rel) h = Some (h1, q @ [name])"
      using open_out_child [OF v(1) "2.prems"(3,4) np(1)] rel(2) by auto
    moreover have "archive \<noteq> Some (q @ [name])" using "2.prems"(6) by (auto simp: prefix_def)
    ultimately show ?thesis using rest File by (auto simp: andthen_def)
  next
    case Special
    then show ?thesis using "2.IH"(2) [OF v(2) "2.prems"(2,3,4) _ "2.prems"(6)] "2.prems"(5) by simp
  next
    case (Dir es)
    let ?h1 = "h\<lparr>root := put (q @ [name]) (Dir []) (root h)\<rparr>"
    have dir: "is_dir (lookup (root h) q)" using "2.prems"(4) by simp
    have mk: "unpack_item directory (Dir_item ?rel) h = (Inr (), ?h1)"
      using create_child [OF v(1) "2.prems"(3,4) np(1)] rel(2) by simp
    have "resolve ?h1 (path_append directory ?rel) = Some (q @ [name])"
      unfolding rel(2) using ac(2) [of "Dir []"] by (intro resolve_append [OF v(1) ac(3)]) simp
    moreover have "lookup (root ?h1) (q @ [name]) = Some (Dir [])" using dir by (simp add: lookup_put_same)
    ultimately have "unpack_items directory (flatten_entries ?rel es) ?h1 =
        (Inr (), ?h1\<lparr>root := put (q @ [name]) (Dir ([] @ prune es)) (root ?h1)\<rparr>) \<and>
        spares archive directory (flatten_entries ?rel es) ?h1"
      using "2.IH"(1) [OF Dir _ rel(1) _ _ _ below] "2.prems"(1) Dir by simp
    then have un: "unpack_items directory (flatten_entries ?rel es) ?h1 =
        (Inr (), h\<lparr>root := put (q @ [name]) (Dir (prune es)) (root h)\<rparr>)"
      "spares archive directory (flatten_entries ?rel es) ?h1"
      using dir by (simp_all add: put_same)
    then have "spares archive directory (flatten_entries ?rel es @ flatten_entries rel rest) ?h1"
      using spares_append [OF un(1)] rest(2) by simp
    then show ?thesis using mk rest(1) un(1) Dir by (simp add: andthen_def unpack_items_append)
  qed
qed

text \<open>
  The archive of a directory, and what becomes of it elsewhere: packed on one machine under the name
  of the directory and unpacked on another one.
\<close>

lemma createArchive_ok:
  assumes "zstd_laws Z F" and "new_file h new_path qa"
    and "resolve h dir = Some q" and "lookup (root h) q = Some (Dir es)" and "\<not> prefix q qa"
    and "length (filename dir) \<le> PATH_MAX_LEN" and "packable Z (filename dir) es"
  shows "\<exists>bs. createArchive Z dir new_path h = Some (Inr (), h\<lparr>root := put qa (File (concat bs)) (root h)\<rparr>) \<and>
    list_all2 (encodes F) (Dir_item (filename dir) # flatten_entries (filename dir) es) bs"
proof -
  let ?h = "h\<lparr>root := put qa (File []) (root h)\<rparr>"
  note nf = new_file_facts [OF assms(2)]
  have qa: "butlast qa @ [last qa] = qa" "is_dir (lookup (root h) (butlast qa))" "lookup (root h) (butlast qa @ [last qa]) = None"
    using assms(2) by (auto simp: new_file_def)
  have "diverge qa q"
  proof (cases rule: path_cases [of qa q])
    case (above y ys)
    then show ?thesis using assms(5) by simp
  next
    case (below z)
    then show ?thesis using assms(4) qa(1,3) by (simp add: lookup_append)
  qed
  then have at: "lookup (root ?h) q = Some (Dir es)" using qa(2) assms(4) by (simp add: lookup_put_other)
  have rs: "resolve ?h dir = Some q" using resolve_put [OF assms(3) qa(2,3), of "File []"] by (simp add: qa(1))
  have bw: "being_written ?h qa"
    using nf(3) [of "File []"] lookup_put_prefix [OF qa(2), of "last qa" "[]" "File []"] by (simp add: being_written_def qa(1))
  obtain out1 b where d: "addDirectory (filename dir) ostream_empty = (Inr (), out1)" "at_end out1"
    "obuf out1 = b" "encodes F (Dir_item (filename dir)) b"
    using addDirectory_ok [OF at_end_empty(1) assms(6)] by fastforce
  from pack_entries_ok [OF assms(1) bw rs, of "[]" es] at assms(5,7) d(2)
  obtain out2 bs where "pack_entries Z (Some qa) ?h dir es (filename dir) out1 = Some (Inr (), out2)"
    "obuf out2 = obuf out1 @ concat bs" "list_all2 (encodes F) (flatten_entries (filename dir) es) bs"
    by fastforce
  moreover have "stat ?h dir = Some (Dir es)" using at rs by (simp add: stat_def)
  ultimately show ?thesis using nf(1,2) d
    by (intro exI [of _ "b # bs"])
      (simp add: createArchive_def packDirectory.simps Let_def while_writing_def write_file_def put_put)
qed

lemma unpackArchive_ok:
  assumes "zstd_laws Z F" and "open_in h archive_path = Some (concat bs)" and "length (concat bs) < 2 ^ 64"
    and "list_all2 (encodes F) (Dir_item name # flatten_entries name es) bs"
    and "valid_name name" and "length name \<le> PATH_MAX_LEN" and "packable Z name es"
    and "resolve h dest = Some q" and "lookup (root h) q = Some (Dir old)" and "name \<notin> fst ` set old"
  shows "unpackArchive Z dest archive_path h =
    Some (Inr (), h\<lparr>root := put (q @ [name]) (Dir (prune es)) (root h)\<rparr>)"
proof -
  let ?h1 = "h\<lparr>root := put (q @ [name]) (Dir []) (root h)\<rparr>"
  note ac = add_child [OF assms(8,9,10), of "Dir []"]
  have st: "stat h archive_path = Some (File (concat bs))"
    using assms(2) by (auto simp: open_in_def split: option.splits node.splits)
  have "resolve ?h1 (path_append dest name) = Some (q @ [name])"
    using ac(2) by (intro resolve_append [OF assms(5) ac(3)]) simp
  moreover have "lookup (root ?h1) (q @ [name]) = Some (Dir [])"
    using assms(9) by (simp add: lookup_put_same)
  moreover have "\<forall>a. resolve h archive_path = Some a \<longrightarrow> \<not> prefix (q @ [name]) a"
  proof (intro allI impI notI)
    fix a assume a: "resolve h archive_path = Some a" "prefix (q @ [name]) a"
    obtain x where x: "a = (q @ [name]) @ x" using a(2) by (auto simp: prefix_def)
    have "lookup (root h) (q @ [name]) = None" using assms(9,10) by (simp add: lookup_append map_of_new)
    then have "lookup (root h) a = None" unfolding x by (simp only: lookup_append [of _ "q @ [name]" x] option.case)
    then show False using st a(1) by (simp add: stat_def)
  qed
  ultimately have tree: "unpack_items dest (flatten_entries name es) ?h1 =
      (Inr (), ?h1\<lparr>root := put (q @ [name]) (Dir ([] @ prune es)) (root ?h1)\<rparr>)"
    "spares (resolve h archive_path) dest (flatten_entries name es) ?h1"
    using unpack_items_tree [OF assms(7) relative_to_name [OF assms(5)], of ?h1 dest "q @ [name]" "[]" "resolve h archive_path"]
    by simp_all
  then have items: "unpack_items dest (Dir_item name # flatten_entries name es) h =
      (Inr (), h\<lparr>root := put (q @ [name]) (Dir (prune es)) (root h)\<rparr>)"
    using create_child [OF assms(5,8,9,10)] assms(9) by (simp add: andthen_def put_same)
  have short: "list_all (\<lambda>i. length (item_path i) \<le> PATH_MAX_LEN) (Dir_item name # flatten_entries name es)"
    using assms(6) packable_paths [OF assms(7)] by (simp add: list_all_iff)
  have "at_file (of_nat (length (concat bs))) (istream_of (concat bs))"
    using assms(3) by (simp add: at_file_def)
  from unpack_loop_items [OF assms(1) this _ assms(4) short items, of "[]" "resolve h archive_path"]
  have "unpack_loop Z (resolve h archive_path) dest (of_nat (length (concat bs))) (istream_of (concat bs)) h =
      Some (Inr (), h\<lparr>root := put (q @ [name]) (Dir (prune es)) (root h)\<rparr>)"
    using tree(2) create_child [OF assms(5,8,9,10)] by (auto simp: unpack_loop_done)
  moreover have "fs_exists h dest" using assms(8,9) by (simp add: fs_exists_def stat_def)
  ultimately show ?thesis using st assms(2) by (simp add: unpackArchive_def fs_exists_def file_size_def)
qed

section \<open>Properties\<close>

text \<open>
  C10. A directory arrives as it was sent: when the archive can be written outside the directory and
  everything in the directory can be packed (no path too long, no file whose size is a positive multiple
  of the compressor's read buffer), \<open>createArchive\<close> succeeds and adds one file to the host; unpacked from
  any path of any host into an existing directory without an entry of that name, that file rebuilds
  the directory with all its files and subdirectories under the same name and changes nothing else.
\<close>

theorem archive_roundtrip:
  assumes "zstd_laws Z F" and "\<not> fs_exists h new_path" and "open_out new_path h = Some (h1, qa)"
    and "resolve h dir = Some qd" and "lookup (root h) qd = Some (Dir es)" and "\<not> prefix qd qa"
    and "valid_name (filename dir)" and "length (filename dir) \<le> PATH_MAX_LEN" and "packable Z (filename dir) es"
  shows "\<exists>a. createArchive Z dir new_path h = Some (Inr (), h\<lparr>root := put qa (File a) (root h)\<rparr>) \<and>
    open_in (h\<lparr>root := put qa (File a) (root h)\<rparr>) new_path = Some a \<and>
    (\<forall>h' archive_path dest q old.
       length a < 2 ^ 64 \<and> open_in h' archive_path = Some a \<and>
       resolve h' dest = Some q \<and> lookup (root h') q = Some (Dir old) \<and> filename dir \<notin> fst ` set old \<longrightarrow>
       unpackArchive Z dest archive_path h' =
         Some (Inr (), h'\<lparr>root := put (q @ [filename dir]) (Dir (prune es)) (root h')\<rparr>))"
proof -
  have nf: "new_file h new_path qa" using assms(2,3) by (rule new_fileI)
  obtain bs where bs: "createArchive Z dir new_path h = Some (Inr (), h\<lparr>root := put qa (File (concat bs)) (root h)\<rparr>)"
    "list_all2 (encodes F) (Dir_item (filename dir) # flatten_entries (filename dir) es) bs"
    using createArchive_ok [OF assms(1) nf assms(4-6,8,9)] by blast
  let ?a = "concat bs"
  have opened: "open_in (h\<lparr>root := put qa (File ?a) (root h)\<rparr>) new_path = Some ?a" using nf by (rule new_file_open_in)
  have "unpackArchive Z dest archive_path h' =
      Some (Inr (), h'\<lparr>root := put (q @ [filename dir]) (Dir (prune es)) (root h')\<rparr>)"
    if "length ?a < 2 ^ 64 \<and> open_in h' archive_path = Some ?a \<and>
       resolve h' dest = Some q \<and> lookup (root h') q = Some (Dir old) \<and> filename dir \<notin> fst ` set old"
    for h' archive_path dest q old
    using that unpackArchive_ok [OF assms(1) _ _ bs(2) assms(7,8,9)] by blast
  with bs(1) opened show ?thesis by (intro exI [of _ ?a] conjI allI impI)
qed

definition tree_host :: host where
  "tree_host = \<lparr>root = Dir [(''d'', Dir [(''f'', File ''hello''), (''e'', Dir [])]), (''t'', Dir [])],
     cwd = [], temp_dir = ''/t'', free_space = (\<lambda>_. 1000)\<rparr>"

theorem archive_roundtrip_witness:
  "\<exists>a. createArchive held_zstd ''/d'' ''/t/d'' tree_host =
       Some (Inr (), tree_host\<lparr>root := put [''t'', ''d''] (File a) (root tree_host)\<rparr>) \<and>
     open_in (tree_host\<lparr>root := put [''t'', ''d''] (File a) (root tree_host)\<rparr>) ''/t/d'' = Some a"
proof -
  let ?es = "[(''f'', File ''hello''), (''e'', Dir [])]"
  have nf: "new_file tree_host ''/t/d'' [''t'', ''d'']"
    by (simp add: tree_host_def new_file_def resolve_def is_absolute_def)
  have "resolve tree_host ''/d'' = Some [''d'']" "lookup (root tree_host) [''d''] = Some (Dir ?es)"
    "\<not> prefix [''d''] [''t'', ''d'']" "filename ''/d'' = ''d''"
    by (simp_all add: tree_host_def resolve_def is_absolute_def filename_def)
  moreover have "valid_name ''d''" "length ''d'' \<le> PATH_MAX_LEN" "packable held_zstd ''d'' ?es"
    by (simp_all add: valid_name_def PATH_MAX_LEN_def compressible_def path_append_def is_absolute_def filename_def)
  ultimately show ?thesis
    using archive_roundtrip [OF held_zstd_laws new_file_facts(1,2) [OF nf], of "''/d''" "[''d'']" ?es] by auto
qed







text \<open>
  C32. A damaged archive does not do damage: if whole entries are followed by bytes that are no
  complete entry (a truncated header, a path or a length out of bounds, content that is cut off), and no
  entry is unpacked over the archive itself, unpacking does what the whole entries say and then throws the reader's exception, without touching
  anything else; but if those bytes are an entry that is complete but for a type byte that is neither 0
  nor 1, using that byte as a \<open>bool\<close> is undefined.
\<close>

theorem unpack_damaged:
  assumes "zstd_laws Z F" and "open_in h archive_path = Some (concat bs @ rest)"
    and "length (concat bs @ rest) < 2 ^ 64" and "fs_exists h dest"
    and "list_all2 (encodes F) items bs" and "list_all (\<lambda>i. length (item_path i) \<le> PATH_MAX_LEN) items"
    and "unpack_items dest items h = (Inr (), h')" and "spares (resolve h archive_path) dest items h"
    and "rest \<noteq> []" and "\<And>e body. entry_ok e \<Longrightarrow> rest = header e @ body \<Longrightarrow> length body < unat (compressed_length e)"
  shows "\<exists>e. unpackArchive Z dest archive_path h = Some (Inl e, h') \<and>
    ((\<exists>m. e = FSEntryInfoException m) \<or>
     (e = Undefined_behaviour ''invalid bool'' \<and> hd rest \<noteq> CHR 0x00 \<and> hd rest \<noteq> CHR 0x01 \<and>
      (\<exists>i body. entry_ok i \<and> tl rest = tl (header i) @ body \<and> unat (compressed_length i) \<le> length body)))"
proof -
  let ?a = "concat bs @ rest"
  have "at_file (of_nat (length ?a)) (istream_of ?a)" using assms(3) by (simp add: at_file_def)
  from unpack_loop_items [OF assms(1) this _ assms(5-8), of rest]
  obtain s where s: "at_file (of_nat (length ?a)) s" "unread s = rest"
    "unpack_loop Z (resolve h archive_path) dest (of_nat (length ?a)) (istream_of ?a) h =
      unpack_loop Z (resolve h archive_path) dest (of_nat (length ?a)) s h'"
    by auto
  have "length (ibuf s) = ipos s + length (unread s)" using s(2) assms(9) by (auto simp: unread_def)
  with s(1) have ib: "\<not> ifail s" "ipos s \<le> length (ibuf s)" "length (ibuf s) < 2 ^ 64"
    "of_nat (length ?a) = (of_nat (length (ibuf s)) :: size_t)"
    by (auto simp: at_file_def)
  obtain r s' where r: "readFromStream (of_nat (length (ibuf s))) s = (r, s')" by fastforce
  have "(\<exists>e. r = Inl e \<and> header_error e) \<or>
      (\<exists>b i body. r = Inl (Undefined_behaviour ''invalid bool'') \<and> bad_type b \<and> entry_ok i \<and>
        rest = typed_header b i @ body \<and> unat (compressed_length i) \<le> length body)"
    using readFromStream_safe_cases [OF ib(1-3) r, unfolded s(2)]
  proof (elim disjE exE conjE, goal_cases)
    case (3 i)
    with assms(10) [OF 3(2,3)] show ?case by simp
  qed blast+
  then obtain e where e: "r = Inl e" "(\<exists>m. e = FSEntryInfoException m) \<or>
     (e = Undefined_behaviour ''invalid bool'' \<and> hd rest \<noteq> CHR 0x00 \<and> hd rest \<noteq> CHR 0x01 \<and>
      (\<exists>i body. entry_ok i \<and> tl rest = tl (header i) @ body \<and> unat (compressed_length i) \<le> length body))"
    unfolding typed_header_tl bad_type_def header_error_def by auto blast
  have "unpack_loop Z (resolve h archive_path) dest (of_nat (length ?a)) s h' = Some (Inl e, h')"
    using at_file_remaining [OF s(1)] s(2) assms(9) r e(1) unfolding ib(4)
    by (subst unpack_loop.simps) simp
  moreover have "stat h archive_path = Some (File ?a)"
    using assms(2) by (auto simp: open_in_def split: option.splits node.splits)
  ultimately have "unpackArchive Z dest archive_path h = Some (Inl e, h')"
    using assms(2,4) s(3) by (simp add: unpackArchive_def fs_exists_def file_size_def)
  then show ?thesis using e(2) by blast
qed

definition damaged_host :: host where
  "damaged_host = tree_host\<lparr>root := Dir [(''t'', Dir []), (''a'', File ''cut'')]\<rparr>"

theorem unpack_damaged_witness:
  "\<exists>m. unpackArchive held_zstd ''/t'' ''/a'' damaged_host = Some (Inl (FSEntryInfoException m), damaged_host)"
proof -
  have "open_in damaged_host ''/a'' = Some (concat [] @ ''cut'')" "fs_exists damaged_host ''/t''"
    by (simp_all add: damaged_host_def tree_host_def open_in_def fs_exists_def stat_def resolve_def is_absolute_def)
  moreover have "False" if "''cut'' = header e @ body" for e body
  proof -
    from that have "length ''cut'' = length (header e @ body)" by simp
    then show False by (simp add: length_header)
  qed
  moreover have "tl ''cut'' \<noteq> tl (header i) @ body" for i body
  proof
    assume "tl ''cut'' = tl (header i) @ body"
    then have "length (tl ''cut'') = length (tl (header i) @ body)" by simp
    then show False by (simp add: length_header)
  qed
  ultimately show ?thesis
    using unpack_damaged [OF held_zstd_laws, of damaged_host "''/a''" "[]" "''cut''" "''/t''" "[]" damaged_host]
    by fastforce
qed

text \<open>
  C37. Nothing keeps an entry inside the directory: the path of an entry is not checked, and an
  absolute one replaces the directory, so an archive can create entries anywhere on the receiver's
  machine, wherever it is told to be unpacked.
\<close>

theorem unpack_escapes:
  assumes "valid_name n" and "length n < PATH_MAX_LEN" and "root h = Dir es" and "n \<notin> fst ` set es"
    and "fs_exists h dest"
    and "open_in h archive_path = Some (header \<lparr>is_directory = True, relative_path = CHR ''/'' # n, compressed_length = 0\<rparr>)"
  shows "unpackArchive Z dest archive_path h = Some (Inr (), h\<lparr>root := Dir (es @ [(n, Dir [])])\<rparr>)"
proof -
  let ?e = "\<lparr>is_directory = True, relative_path = CHR ''/'' # n, compressed_length = 0\<rparr>"
  let ?s = "istream_of (header ?e)"
  have l: "length (header ?e) < 2 ^ 64" using assms(2) by (simp add: length_header PATH_MAX_LEN_def)
  then have f: "at_file (of_nat (length (header ?e))) ?s" "unread ?s = header ?e @ []" by (simp_all add: at_file_def)
  have rd: "readFromStream (of_nat (length (header ?e))) ?s = (Inr ?e, ?s\<lparr>ipos := ipos ?s + length (header ?e)\<rparr>)"
    using assms(2) by (intro at_file_entry [OF f]) (simp_all add: entry_ok_def)
  have "split_slash (CHR ''/'' # n) = [[], n]" "n \<noteq> []" "n \<noteq> ''.''" "n \<noteq> ''..''"
    using assms(1) by (auto simp: valid_name_def split_slash_name)
  then have mk: "create_directories (path_append dest (CHR ''/'' # n)) h = (Inr (), h\<lparr>root := Dir (es @ [(n, Dir [])])\<rparr>)"
    using assms(3,4) by (simp add: path_append_def is_absolute_def create_directories_def map_of_new update_new)
  have "unread ?s \<noteq> []" by (simp add: header_def byte_of_bool_def)
  then have "unpack_loop Z archive dest (of_nat (length (header ?e))) ?s h =
      unpack_loop Z archive dest (of_nat (length (header ?e))) (?s\<lparr>ipos := ipos ?s + length (header ?e)\<rparr>)
        (h\<lparr>root := Dir (es @ [(n, Dir [])])\<rparr>)" for archive
    using at_file_remaining [OF f(1)] rd mk by (subst unpack_loop.simps) simp
  moreover have "unpack_loop Z archive dest (of_nat (length (header ?e))) (?s\<lparr>ipos := ipos ?s + length (header ?e)\<rparr>)
        (h\<lparr>root := Dir (es @ [(n, Dir [])])\<rparr>) = Some (Inr (), h\<lparr>root := Dir (es @ [(n, Dir [])])\<rparr>)" for archive
    by (intro unpack_loop_done [OF at_file_left(2) [OF f]]) (simp only: unread_advance f(2), simp)
  moreover have "stat h archive_path = Some (File (header ?e))"
    using assms(6) by (auto simp: open_in_def split: option.splits node.splits)
  ultimately show ?thesis using assms(5,6) by (simp add: unpackArchive_def fs_exists_def file_size_def)
qed

definition escape_host :: host where
  "escape_host = tree_host\<lparr>root := Dir [(''t'', Dir []),
     (''a'', File (header \<lparr>is_directory = True, relative_path = ''/x'', compressed_length = 0\<rparr>))]\<rparr>"

theorem unpack_escapes_witness:
  "lookup (root (snd (the (unpackArchive held_zstd ''/t'' ''/a'' escape_host)))) [''x''] = Some (Dir [])"
  using unpack_escapes [of "''x''" escape_host _ "''/t''" "''/a''" held_zstd]
  by (simp add: escape_host_def tree_host_def open_in_def fs_exists_def stat_def resolve_def is_absolute_def
      valid_name_def PATH_MAX_LEN_def)

end
