(* ===== verification/ClientState.thy ===== *)
theory ClientState
  imports ByteRelay InitSessionMessage ArchiveManager
begin

text \<open>
  What the two clients work on: the connection to the server and the machine's files, and
  \<open>RAIIFSEntry\<close> of \<open>include/client/RAIIFSEntry.hpp\<close>, which owns a temporary entry of the file system.
  Console output is not modelled.
\<close>

section \<open>State\<close>

record client =
  sock :: socket
  machine :: host

definition on_sock :: "(socket, 'a) prog \<Rightarrow> ('z client_scheme, 'a) prog" where
  "on_sock p s = (case p (sock s) of (r, k) \<Rightarrow> (r, s\<lparr>sock := k\<rparr>))"

definition on_machine :: "(host, 'a) prog \<Rightarrow> ('z client_scheme, 'a) prog" where
  "on_machine p s = (case p (machine s) of (r, h) \<Rightarrow> (r, s\<lparr>machine := h\<rparr>))"

text \<open>What reads the machine and does not change it.\<close>

definition ask :: "(host \<Rightarrow> error + 'a) \<Rightarrow> ('z client_scheme, 'a) prog" where
  "ask f s = (f (machine s), s)"

lemma on_sock_ok: "p (sock s) = (r, k) \<Longrightarrow> on_sock p s = (r, s\<lparr>sock := k\<rparr>)"
  by (simp add: on_sock_def)

lemma on_machine_ok: "p (machine s) = (r, h) \<Longrightarrow> on_machine p s = (r, s\<lparr>machine := h\<rparr>)"
  by (simp add: on_machine_def)

lemma on_sock_machine [simp]: "machine (snd (on_sock p s)) = machine s"
  by (simp add: on_sock_def split: prod.splits)

lemma on_sock_sock: "on_sock p s = (r, s') \<Longrightarrow> p (sock s) = (r, sock s') \<and> s' = s\<lparr>sock := sock s'\<rparr>"
  by (auto simp: on_sock_def split: prod.splits)

lemma on_machine_sock [simp]: "sock (snd (on_machine p s)) = sock s"
  by (simp add: on_machine_def split: prod.splits)

lemma on_machine_machine: "on_machine p s = (r, s') \<Longrightarrow> p (machine s) = (r, machine s') \<and> s' = s\<lparr>machine := machine s'\<rparr>"
  by (auto simp: on_machine_def split: prod.splits)

lemma ask_apply [simp]: "ask f s = (f (machine s), s)"
  by (simp add: ask_def)

section \<open>Owned entries\<close>

record raii_entry =
  entry_path :: string
  should_remove :: bool

definition RAIIFSEntry_init :: "string \<Rightarrow> bool \<Rightarrow> raii_entry" where
  "RAIIFSEntry_init p remove = \<lparr>entry_path = p, should_remove = remove\<rparr>"

text \<open>Moving gives the new owner and what is left of the old one; the path moved from is empty.\<close>

definition RAIIFSEntry_move :: "raii_entry \<Rightarrow> raii_entry \<times> raii_entry" where
  "RAIIFSEntry_move other =
     (\<lparr>entry_path = entry_path other, should_remove = should_remove other\<rparr>,
      other\<lparr>entry_path := [], should_remove := False\<rparr>)"

definition RAIIFSEntry_assign :: "raii_entry \<Rightarrow> raii_entry \<Rightarrow> raii_entry \<times> raii_entry" where
  "RAIIFSEntry_assign this other =
     (this\<lparr>entry_path := entry_path other, should_remove := should_remove other\<rparr>,
      other\<lparr>entry_path := [], should_remove := False\<rparr>)"

definition RAIIFSEntry_destroy :: "raii_entry \<Rightarrow> host \<Rightarrow> host" where
  "RAIIFSEntry_destroy e h = (if should_remove e then remove_all (entry_path e) h else h)"

text \<open>
  An owned entry is removed once: after a move the new owner removes what the old one would have
  removed, and the old one removes nothing; an assignment also forgets, without removing it, what the
  target owned before.
\<close>

theorem raii_moves_ownership:
  "RAIIFSEntry_destroy (fst (RAIIFSEntry_move e)) h = RAIIFSEntry_destroy e h \<and>
   RAIIFSEntry_destroy (snd (RAIIFSEntry_move e)) h = h \<and>
   RAIIFSEntry_destroy (fst (RAIIFSEntry_assign old e)) h = RAIIFSEntry_destroy e h \<and>
   RAIIFSEntry_destroy (snd (RAIIFSEntry_assign old e)) h = h"
  by (simp add: RAIIFSEntry_destroy_def RAIIFSEntry_move_def RAIIFSEntry_assign_def)

end
