(* ===== verification/SendClient.thy ===== *)
theory SendClient
  imports ClientState
begin

text \<open>
  \<open>src/client/DropFileSendClient.cpp\<close>: announcing a file or the archive of a directory, learning the
  receive code, and streaming the file once the other side has confirmed.
\<close>

section \<open>Operations\<close>

definition DROP_FILE_SENDER_TMP_DIR :: "host \<Rightarrow> string" where
  "DROP_FILE_SENDER_TMP_DIR h = path_append (path_append (temp_dir h) ''drop-file'') ''sender''"

definition DropFileSendClient_init :: "('z client_scheme, unit) prog" where
  "DropFileSendClient_init s =
     on_machine (create_directories (DROP_FILE_SENDER_TMP_DIR (machine s)))
       (s\<lparr>machine := remove_all (DROP_FILE_SENDER_TMP_DIR (machine s)) (machine s)\<rparr>)"

definition DropFileSendClient_destroy :: "'z client_scheme \<Rightarrow> 'z client_scheme" where
  "DropFileSendClient_destroy s =
     s\<lparr>machine := remove_all (DROP_FILE_SENDER_TMP_DIR (machine s)) (machine s)\<rparr>"

definition compressIfNecessary ::
  "('c, 'd) zstd_api \<Rightarrow> string \<Rightarrow> 'z client_scheme \<Rightarrow> ((error + raii_entry \<times> bool) \<times> 'z client_scheme) option" where
  "compressIfNecessary Z path s =
     (let should_compress = is_directory_at (machine s) path;
          dir_entry = RAIIFSEntry_init path False
      in if should_compress then
           let new_path = path_append (DROP_FILE_SENDER_TMP_DIR (machine s)) (filename (entry_path dir_entry))
           in (case createArchive Z (entry_path dir_entry) new_path (machine s) of
                 None \<Rightarrow> None
               | Some (Inl e, h) \<Rightarrow> Some (Inl e, s\<lparr>machine := h\<rparr>)
               | Some (Inr _, h) \<Rightarrow>
                   Some (Inr (fst (RAIIFSEntry_assign dir_entry (RAIIFSEntry_init new_path True)), True),
                         s\<lparr>machine := h\<rparr>))
         else Some (Inr (dir_entry, False), s))"

definition getReceiveCodeFromServer :: "'j json_api \<Rightarrow> ('z client_scheme, string) prog" where
  "getReceiveCodeFromServer J = andthen (on_sock receive) (\<lambda>received_msg.
     case sum_bind (case json_parse J received_msg of
               None \<Rightarrow> Inl (Json_exception ''parse_error'')
             | Some json \<Rightarrow> Inr json) (\<lambda>json. json_get (json_get_string J) J json CODE_WORDS_KEY) of
       Inl e \<Rightarrow> throw (DropFileSendException (''Could not parse server response ('' @ received_msg @
                  '') to json:  '' @ what e))
     | Inr receive_code \<Rightarrow> ret receive_code)"

text \<open>The request: building it, sending it and reading the answer.\<close>

definition announce :: "'e evp_api \<Rightarrow> 'j json_api \<Rightarrow> string \<Rightarrow> bool \<Rightarrow> ('z client_scheme, string) prog" where
  "announce E J path is_compressed =
     andthen (ask (\<lambda>h. createSendMessage E J h path is_compressed)) (\<lambda>message_json.
     andthen (of_option (Json_exception ''type_error'') (json_dump J message_json)) (\<lambda>text.
     andthen (on_sock (send text)) (\<lambda>_. getReceiveCodeFromServer J)))"

text \<open>On an exception the entry goes out of scope; a returned entry has been moved to the caller.\<close>

definition sendFSEntryMetadata ::
  "'e evp_api \<Rightarrow> ('c, 'd) zstd_api \<Rightarrow> 'j json_api \<Rightarrow> string \<Rightarrow> 'z client_scheme \<Rightarrow>
     ((error + raii_entry \<times> string) \<times> 'z client_scheme) option" where
  "sendFSEntryMetadata E Z J path s =
     (case compressIfNecessary Z path s of
        None \<Rightarrow> None
      | Some (Inl e, s1) \<Rightarrow> Some (Inl e, s1)
      | Some (Inr (fs_entry, is_compressed), s1) \<Rightarrow>
          Some (case announce E J (entry_path fs_entry) is_compressed s1 of
             (Inl e, s2) \<Rightarrow> (Inl e, s2\<lparr>machine := unwind e (RAIIFSEntry_destroy fs_entry) (machine s2)\<rparr>)
           | (Inr receive_code, s2) \<Rightarrow> (Inr (fst (RAIIFSEntry_move fs_entry), receive_code), s2)))"

text \<open>
  \<open>readsome\<close> takes at most what is available without blocking, which the implementation decides
  (\<open>avail\<close>); the loop relies on its being positive until the end of the file.
\<close>

definition readsome :: "(istream \<Rightarrow> nat) \<Rightarrow> nat \<Rightarrow> istream \<Rightarrow> bytes \<times> istream" where
  "readsome avail n s =
     (if ifail s then ([], s)
      else let got = take (min n (avail s)) (unread s) in (got, s\<lparr>ipos := ipos s + length got\<rparr>))"

definition avail_ok :: "(istream \<Rightarrow> nat) \<Rightarrow> bool" where
  "avail_ok avail \<longleftrightarrow> (\<forall>s. unread s \<noteq> [] \<longrightarrow> 0 < avail s)"

definition read_into_buffer :: "bytes \<Rightarrow> (socket, unit) prog" where
  "read_into_buffer d k = (Inr (), k\<lparr>data_buffer := overwrite d (data_buffer k)\<rparr>)"

lemma readsome_less: "readsome avail n f = (got, f') \<Longrightarrow> got \<noteq> [] \<Longrightarrow> length (unread f') < length (unread f)"
  by (auto simp: readsome_def Let_def split: if_splits)

function send_file_loop ::
  "(istream \<Rightarrow> nat) \<Rightarrow> size_t \<Rightarrow> size_t \<Rightarrow> istream \<Rightarrow> ('z client_scheme, unit) prog" where
  "send_file_loop avail fsize total_bytes_read file s =
     (case readsome avail (unat (snd (getBuffer (sock s)))) file of (got, file') \<Rightarrow>
        if got \<noteq> [] then
          let total_bytes_read' = total_bytes_read + of_nat (length got) in
          (case andthen (on_sock (read_into_buffer got)) (\<lambda>_. on_sock (send got)) s of
             (Inl e, s') \<Rightarrow> (Inl e, s')
           | (Inr _, s') \<Rightarrow>
               if fsize = 0 then (Inl Division_trap, s')
               else send_file_loop avail fsize total_bytes_read' file' s')
        else (Inr (), s))"
  by pat_completeness auto
termination
  by (relation "measure (\<lambda>(a, fs, t, file, s). length (unread file))") (auto dest: readsome_less [OF sym])

declare send_file_loop.simps [simp del]

text \<open>A file that cannot be opened gives a stream in the failure state.\<close>

definition open_stream :: "host \<Rightarrow> string \<Rightarrow> istream" where
  "open_stream h path =
     (case open_in h path of None \<Rightarrow> (istream_of [])\<lparr>ifail := True\<rparr> | Some d \<Rightarrow> istream_of d)"

definition stream_file :: "(istream \<Rightarrow> nat) \<Rightarrow> string \<Rightarrow> ('z client_scheme, unit) prog" where
  "stream_file avail path =
     andthen (on_sock receiveACK) (\<lambda>_.
     andthen (ask (\<lambda>h. Inr (open_stream h path))) (\<lambda>file.
     andthen (ask (\<lambda>h. file_size h path)) (\<lambda>fsize.
     andthen (send_file_loop avail fsize 0 file) (\<lambda>_.
       on_sock receiveACK))))"

definition sendFSEntry :: "(istream \<Rightarrow> nat) \<Rightarrow> raii_entry \<Rightarrow> ('z client_scheme, unit) prog" where
  "sendFSEntry avail data_source s =
     (case stream_file avail (entry_path data_source) s of
        (r, s') \<Rightarrow> (r, s'\<lparr>machine := leave r (RAIIFSEntry_destroy data_source) (machine s')\<rparr>))"

section \<open>Streaming a file\<close>

lemma buffered_send:
  assumes "writable (sock s)" and "length got < 2 ^ 64"
  shows "\<exists>b. andthen (on_sock (read_into_buffer got)) (\<lambda>_. on_sock (send got)) s =
    (Inr (), s\<lparr>sock := (written (wire got) (sock s))\<lparr>data_buffer := b\<rparr>\<rparr>)"
proof -
  let ?k = "(sock s)\<lparr>data_buffer := overwrite got (data_buffer (sock s))\<rparr>"
  have "writable ?k" using assms(1) by (simp add: writable_def)
  then have "send got ?k = (Inr (), written (wire got) ?k)" using assms(2) by (intro send_ok writable_carries)
  then have "andthen (on_sock (read_into_buffer got)) (\<lambda>_. on_sock (send got)) s =
      (Inr (), s\<lparr>sock := written (wire got) ?k\<rparr>)"
    by (simp add: andthen_def on_sock_def read_into_buffer_def)
  moreover have "written (wire got) ?k = (written (wire got) (sock s))\<lparr>data_buffer := overwrite got (data_buffer (sock s))\<rparr>"
    by (simp add: written_def)
  ultimately show ?thesis by metis
qed

lemma readsome_ok:
  assumes "avail_ok avail" and "\<not> ifail ins" and "0 < n"
  shows "\<exists>got. readsome avail n ins = (got, ins\<lparr>ipos := ipos ins + length got\<rparr>) \<and>
    unread ins = got @ unread (ins\<lparr>ipos := ipos ins + length got\<rparr>) \<and> length got \<le> n \<and>
    (got = [] \<longleftrightarrow> unread ins = [])"
proof -
  let ?got = "take (min n (avail ins)) (unread ins)"
  have "unread (ins\<lparr>ipos := ipos ins + length ?got\<rparr>) = drop (min n (avail ins)) (unread ins)"
    by (simp only: unread_advance) (simp add: min_def)
  then have "unread ins = ?got @ unread (ins\<lparr>ipos := ipos ins + length ?got\<rparr>)" by simp
  moreover have "?got = [] \<longleftrightarrow> unread ins = []" using assms(1,3) by (auto simp: avail_ok_def)
  moreover have "readsome avail n ins = (?got, ins\<lparr>ipos := ipos ins + length ?got\<rparr>)"
    using assms(2) by (simp add: readsome_def Let_def)
  moreover have "length ?got \<le> n" by simp
  ultimately show ?thesis by blast
qed

lemma send_file_loop_ok:
  assumes "avail_ok avail" and "fsize \<noteq> 0"
  shows "writable (sock s) \<Longrightarrow> \<not> ifail ins \<Longrightarrow>
    \<exists>ms b. send_file_loop avail fsize t ins s =
      (Inr (), s\<lparr>sock := (written (concat (map frame ms)) (sock s))\<lparr>data_buffer := b\<rparr>\<rparr>) \<and>
      concat ms = unread ins \<and> short_messages ms"
proof (induction "length (unread ins)" arbitrary: ins s t rule: less_induct)
  case less
  have "0 < unat (snd (getBuffer (sock s)))" by (simp add: getBuffer_def)
  from readsome_ok [OF assms(1) less.prems(2) this]
  obtain got ins' where rd: "readsome avail (unat (snd (getBuffer (sock s)))) ins = (got, ins')"
    "ins' = ins\<lparr>ipos := ipos ins + length got\<rparr>" "unread ins = got @ unread ins'" "length got \<le> 1048576"
    "got = [] \<longleftrightarrow> unread ins = []"
    by (auto simp: getBuffer_def)
  show ?case
  proof (cases "got = []")
    case True
    then have "send_file_loop avail fsize t ins s = (Inr (), s)"
      using rd(1) by (subst send_file_loop.simps) simp
    then show ?thesis using True rd(5) by (intro exI [of _ "[]"] exI [of _ "data_buffer (sock s)"]) simp
  next
    case False
    have w: "wire got = concat (map frame [got])" using False rd(4) by (simp add: wire_def chunks_single)
    obtain b where b: "andthen (on_sock (read_into_buffer got)) (\<lambda>_. on_sock (send got)) s =
        (Inr (), s\<lparr>sock := (written (wire got) (sock s))\<lparr>data_buffer := b\<rparr>\<rparr>)"
      using buffered_send [OF less.prems(1), of got] rd(4) by auto
    let ?s = "s\<lparr>sock := (written (wire got) (sock s))\<lparr>data_buffer := b\<rparr>\<rparr>"
    have "length (unread ins') < length (unread ins)" using readsome_less [OF rd(1) False] .
    moreover have "writable (sock ?s)" using less.prems(1) by (simp add: writable_def written_def)
    moreover have "\<not> ifail ins'" using less.prems(2) rd(2) by simp
    ultimately obtain ms b' where rec: "send_file_loop avail fsize (t + of_nat (length got)) ins' ?s =
        (Inr (), ?s\<lparr>sock := (written (concat (map frame ms)) (sock ?s))\<lparr>data_buffer := b'\<rparr>\<rparr>)"
      "concat ms = unread ins'" "short_messages ms"
      using less.hyps [of ins' ?s] by blast
    have "send_file_loop avail fsize t ins s = send_file_loop avail fsize (t + of_nat (length got)) ins' ?s"
      using rd(1) b False assms(2) by (subst send_file_loop.simps) (simp add: Let_def)
    also have "\<dots> = (Inr (), s\<lparr>sock := (written (concat (map frame (got # ms))) (sock s))\<lparr>data_buffer := b'\<rparr>\<rparr>)"
      unfolding rec(1) unfolding w by (simp add: written_def option.map_comp comp_def)
    finally show ?thesis using rec(2,3) rd(3,4)
      by (intro exI [of _ "got # ms"] exI [of _ b'] conjI) (assumption, unfold concat.simps rec(2), simp_all)
  qed
qed

text \<open>\<open>stream_file\<close> up to the last acknowledgement.\<close>

definition stream_content :: "(istream \<Rightarrow> nat) \<Rightarrow> string \<Rightarrow> ('z client_scheme, unit) prog" where
  "stream_content avail path =
     andthen (on_sock receiveACK) (\<lambda>_.
     andthen (ask (\<lambda>h. Inr (open_stream h path))) (\<lambda>file.
     andthen (ask (\<lambda>h. file_size h path)) (\<lambda>fsize.
       send_file_loop avail fsize 0 file)))"

lemma stream_file_content: "stream_file avail path = andthen (stream_content avail path) (\<lambda>_. on_sock receiveACK)"
  by (simp add: stream_file_def stream_content_def andthen_assoc)

lemma stream_content_ok:
  assumes "avail_ok avail" and "writable (sock s)" and "rx (sock s) = frame ACK @ rest"
    and "open_in (machine s) path = Some d" and "length d < 2 ^ 64"
  shows "\<exists>ms b. stream_content avail path s =
      (Inr (), s\<lparr>sock := (written (concat (map frame ms)) (sock s))\<lparr>rx := rest, data_buffer := b\<rparr>\<rparr>) \<and>
      concat ms = d \<and> short_messages ms"
proof -
  let ?k1 = "(sock s)\<lparr>rx := rest, data_buffer := overwrite ACK (data_buffer (sock s))\<rparr>"
  let ?s1 = "s\<lparr>sock := ?k1\<rparr>"
  have a1: "on_sock receiveACK s = (Inr (), ?s1)"
    using receiveACK_ok [OF assms(3)] by (rule on_sock_ok)
  have fs: "file_size (machine s) path = Inr (of_nat (length d))"
    using assms(4) by (auto simp: open_in_def file_size_def split: option.splits node.splits)
  have wr: "writable (sock ?s1)" using assms(2) by (simp add: writable_def)
  have "\<exists>ms b. send_file_loop avail (of_nat (length d)) 0 (istream_of d) ?s1 =
      (Inr (), ?s1\<lparr>sock := (written (concat (map frame ms)) ?k1)\<lparr>data_buffer := b\<rparr>\<rparr>) \<and>
      concat ms = d \<and> short_messages ms"
  proof (cases "d = []")
    case True
    have "readsome avail n (istream_of []) = ([], istream_of [])" for n
      by (simp add: readsome_def)
    then have "send_file_loop avail (of_nat (length d)) 0 (istream_of d) ?s1 = (Inr (), ?s1)"
      using True by (subst send_file_loop.simps) simp
    then show ?thesis using True
      by (intro exI [of _ "[]"] exI [of _ "data_buffer ?k1"]) simp
  next
    case False
    then have "unat (of_nat (length d) :: size_t) \<noteq> 0" using assms(5) by (simp add: unat_of_nat_size)
    then have "(of_nat (length d) :: size_t) \<noteq> 0" by (metis unat_0)
    from send_file_loop_ok [OF assms(1) this wr, of "istream_of d" 0] show ?thesis by simp
  qed
  then obtain ms b where loop: "send_file_loop avail (of_nat (length d)) 0 (istream_of d) ?s1 =
      (Inr (), ?s1\<lparr>sock := (written (concat (map frame ms)) ?k1)\<lparr>data_buffer := b\<rparr>\<rparr>)"
    "concat ms = d" "short_messages ms" by blast
  moreover have "?s1\<lparr>sock := (written (concat (map frame ms)) ?k1)\<lparr>data_buffer := b\<rparr>\<rparr> =
      s\<lparr>sock := (written (concat (map frame ms)) (sock s))\<lparr>rx := rest, data_buffer := b\<rparr>\<rparr>"
    by (simp add: written_def)
  ultimately show ?thesis using a1 fs assms(4)
    by (intro exI [of _ ms] exI [of _ b]) (simp add: stream_content_def andthen_def open_stream_def)
qed

lemma stream_file_ok:
  assumes "avail_ok avail" and "writable (sock s)" and "rx (sock s) = frame ACK @ frame ACK @ rest"
    and "open_in (machine s) path = Some d" and "length d < 2 ^ 64"
  shows "\<exists>ms b. stream_file avail path s =
      (Inr (), s\<lparr>sock := (written (concat (map frame ms)) (sock s))\<lparr>rx := rest, data_buffer := b\<rparr>\<rparr>) \<and>
      concat ms = d \<and> short_messages ms"
proof -
  obtain ms b where c: "stream_content avail path s =
      (Inr (), s\<lparr>sock := (written (concat (map frame ms)) (sock s))\<lparr>rx := frame ACK @ rest, data_buffer := b\<rparr>\<rparr>)"
    and ms: "concat ms = d" "short_messages ms"
    using stream_content_ok [OF assms] by blast
  have "rx ((written (concat (map frame ms)) (sock s))\<lparr>rx := frame ACK @ rest, data_buffer := b\<rparr>) = frame ACK @ rest" by simp
  from receiveACK_ok [OF this] have "stream_file avail path s =
      (Inr (), s\<lparr>sock := (written (concat (map frame ms)) (sock s))\<lparr>rx := rest, data_buffer := overwrite ACK b\<rparr>\<rparr>)"
    using c by (simp add: stream_file_content andthen_def on_sock_def)
  with ms show ?thesis by blast
qed

text \<open>
  Once the other side has confirmed, the sender streams the file: whatever portions \<open>readsome\<close>
  delivers, the messages sent carry together exactly the content of the file and fit the receiver's
  buffer, the call returns after the second acknowledgement, and a temporary archive is removed.
\<close>

theorem sendFSEntry_streams:
  assumes "avail_ok avail" and "writable (sock s)" and "rx (sock s) = frame ACK @ frame ACK @ rest"
    and "open_in (machine s) (entry_path e) = Some d" and "length d < 2 ^ 64"
  shows "\<exists>s' ms. sendFSEntry avail e s = (Inr (), s') \<and>
    tx (sock s') = tx (sock s) @ concat (map frame ms) \<and> concat ms = d \<and> short_messages ms \<and>
    rx (sock s') = rest \<and> machine s' = RAIIFSEntry_destroy e (machine s)"
  using stream_file_ok [OF assms] by (auto simp: sendFSEntry_def)

definition sample_client :: client where
  "sample_client = \<lparr>sock = \<lparr>rx = frame ACK @ frame ACK, tx = [], tx_open = True, tx_quota = None, data_buffer = []\<rparr>,
     machine = Utils.sample_host\<rparr>"

theorem sendFSEntry_streams_witness:
  "\<exists>s' ms. sendFSEntry (\<lambda>s. 3) (RAIIFSEntry_init ''f'' False) sample_client = (Inr (), s') \<and>
    tx (sock s') = concat (map frame ms) \<and> concat ms = ''data'' \<and> machine s' = machine sample_client"
proof -
  have "open_in Utils.sample_host ''f'' = Some ''data''"
    by (simp add: Utils.sample_host_def open_in_def stat_def resolve_def is_absolute_def)
  then show ?thesis
    using sendFSEntry_streams [of "\<lambda>s. 3" sample_client "[]" "RAIIFSEntry_init ''f'' False" "''data''"]
    by (auto simp: avail_ok_def sample_client_def writable_def RAIIFSEntry_init_def RAIIFSEntry_destroy_def)
qed

section \<open>Whatever the server does\<close>

text \<open>All that a client writes when it reads: the notice about a message that is too long.\<close>

definition refusal :: bytes where
  "refusal = frame ''Cannot receive message of this size.''"

definition part_of :: "bytes \<Rightarrow> bytes \<Rightarrow> bool" where
  "part_of w d \<longleftrightarrow> (\<exists>x. d = w @ x)"

lemma part_of_refl [simp]: "part_of [] d" "part_of d d"
  by (simp_all add: part_of_def)

lemma safeDisconnect_writes:
  assumes "m \<noteq> []" and "length m \<le> unat BUFFER_SIZE"
  shows "\<exists>v. tx (snd (safeDisconnect (Some m) k)) = tx k @ v \<and> part_of v (frame m)"
proof (cases "carries k (length (wire m))")
  case True
  have "wire m = frame m" using assms by (simp add: wire_def chunks_single)
  moreover have "send m k = (Inr (), written (wire m) k)" using assms True by (intro send_ok) simp_all
  ultimately show ?thesis
    by (simp add: safeDisconnect_def disconnect_def try_catch_def andthen_def shutdown_send_def)
next
  case False
  have w: "wire m = frame m" using assms by (simp add: wire_def chunks_single)
  have "length m < 2 ^ 64" using assms by simp
  from send_failed [OF this False] obtain e n q where
    "send m k = (Inl (System_error e), k\<lparr>tx := tx k @ take n (frame m), tx_quota := q\<rparr>)"
    unfolding w by blast
  moreover have "part_of (take n (frame m)) (frame m)"
    unfolding part_of_def by (intro exI [of _ "drop n (frame m)"]) simp
  ultimately show ?thesis
    by (simp add: safeDisconnect_def disconnect_def try_catch_def andthen_def)
qed

lemma receive_any:
  assumes "receive k = (r, k')"
  shows "\<exists>v. tx k' = tx k @ v \<and> part_of v refusal \<and> (\<forall>m. r = Inr m \<longrightarrow> v = [] \<and> rx k = frame m @ rx k')"
proof (cases r)
  case (Inr m)
  then show ?thesis using receive_success receive_not_writing assms by fastforce
next
  case (Inl e)
  show ?thesis
  proof (cases rule: getMessageLength_cases [of k])
    case ok
    then show ?thesis using assms Inl
      by (auto simp: receive_def andthen_def asio_read_def split: if_splits)
  next
    case short
    then show ?thesis using assms Inl by (auto simp: receive_def andthen_def)
  next
    case big
    obtain v where "tx (snd (safeDisconnect (Some ''Cannot receive message of this size.'') (k\<lparr>rx := drop 8 (rx k)\<rparr>))) =
        tx k @ v" "part_of v refusal"
      using safeDisconnect_writes [of "''Cannot receive message of this size.''" "k\<lparr>rx := drop 8 (rx k)\<rparr>"]
      by (auto simp: refusal_def)
    then show ?thesis using big assms Inl by (auto simp: receive_def andthen_def)
  qed
qed

lemma receiveACK_any:
  assumes "receiveACK k = (r, k')"
  shows "\<exists>v. tx k' = tx k @ v \<and> part_of v refusal \<and> (r = Inr () \<longrightarrow> v = [] \<and> rx k = frame ACK @ rx k')"
proof -
  obtain b where b: "receiveToBuffer k = (fst (receive k), (snd (receive k))\<lparr>data_buffer := b\<rparr>)"
    using receiveToBuffer_receive by blast
  obtain v where "tx (snd (receive k)) = tx k @ v" "part_of v refusal" "\<forall>m. fst (receive k) = Inr m \<longrightarrow> v = []"
    using receive_any [OF surjective_pairing] by blast
  moreover have "tx k' = tx (snd (receive k))"
    using assms b by (auto simp: receiveACK_def andthen_def split: sum.splits if_splits)
  ultimately show ?thesis using assms receiveACK_success by auto
qed

text \<open>
  \<open>sent d w\<close>: the bytes \<open>w\<close> are the beginning of messages that carry the beginning of \<open>d\<close>;
  \<open>sent_all d w\<close>: they are all of the messages, and those carry all of \<open>d\<close>.
\<close>

definition sent :: "bytes \<Rightarrow> bytes \<Rightarrow> bool" where
  "sent d w \<longleftrightarrow> (\<exists>ms. part_of w (concat (map frame ms)) \<and> part_of (concat ms) d \<and> short_messages ms)"

definition sent_all :: "bytes \<Rightarrow> bytes \<Rightarrow> bool" where
  "sent_all d w \<longleftrightarrow> (\<exists>ms. w = concat (map frame ms) \<and> concat ms = d \<and> short_messages ms)"

lemma sent_Nil [simp]: "sent d []"
  unfolding sent_def by (intro exI [of _ "[]"]) (simp add: part_of_def)

lemma sent_all_sent: "sent_all d w \<Longrightarrow> sent d w"
  unfolding sent_all_def sent_def by (metis part_of_refl(2))

lemma sent_Cons: "length m \<le> 1048576 \<Longrightarrow> sent d w \<Longrightarrow> sent (m @ d) (frame m @ w)"
  unfolding sent_def part_of_def
  by (elim exE conjE, rule_tac x = "m # ms" in exI) auto

lemma sent_all_Cons: "length m \<le> 1048576 \<Longrightarrow> sent_all d w \<Longrightarrow> sent_all (m @ d) (frame m @ w)"
  unfolding sent_all_def by (elim exE conjE, rule_tac x = "m # ms" in exI) auto

lemma buffered_send_any:
  assumes "got \<noteq> []" and "length got \<le> 1048576"
    and "andthen (on_sock (read_into_buffer got)) (\<lambda>_. on_sock (send got)) s = (r, s')"
  shows "machine s' = machine s \<and>
    (r = Inr () \<and> tx (sock s') = tx (sock s) @ frame got \<or>
     (\<exists>e v. r = Inl (System_error e) \<and> tx (sock s') = tx (sock s) @ v \<and> part_of v (frame got)))"
proof -
  let ?k = "(sock s)\<lparr>data_buffer := overwrite got (data_buffer (sock s))\<rparr>"
  have w: "wire got = frame got" using assms by (simp add: wire_def chunks_single)
  have l: "length got < 2 ^ 64" using assms(2) by simp
  have run: "andthen (on_sock (read_into_buffer got)) (\<lambda>_. on_sock (send got)) s = on_sock (send got) (s\<lparr>sock := ?k\<rparr>)"
    by (simp add: andthen_def on_sock_def read_into_buffer_def)
  show ?thesis
  proof (cases "carries ?k (length (wire got))")
    case True
    then show ?thesis using send_ok [OF l True] assms(3) w unfolding run by (auto simp: on_sock_def)
  next
    case False
    then obtain e n q where "send got ?k = (Inl (System_error e), ?k\<lparr>tx := tx ?k @ take n (wire got), tx_quota := q\<rparr>)"
      using send_failed [OF l False] by blast
    moreover have "part_of (take n (frame got)) (frame got)"
      unfolding part_of_def by (intro exI [of _ "drop n (frame got)"]) simp
    ultimately show ?thesis using assms(3) w unfolding run by (auto simp: on_sock_def)
  qed
qed

lemma send_file_loop_any:
  assumes "avail_ok avail"
  shows "send_file_loop avail fsize t ins s = (r, s') \<Longrightarrow> \<not> ifail ins \<Longrightarrow> fsize \<noteq> 0 \<or> unread ins = [] \<Longrightarrow>
    machine s' = machine s \<and> (\<exists>w. tx (sock s') = tx (sock s) @ w \<and> sent (unread ins) w \<and>
      (r = Inr () \<and> sent_all (unread ins) w \<or> (\<exists>e. r = Inl (System_error e))))"
proof (induction "length (unread ins)" arbitrary: ins s t rule: less_induct)
  case less
  have "0 < unat (snd (getBuffer (sock s)))" by (simp add: getBuffer_def)
  from readsome_ok [OF assms less.prems(2) this]
  obtain got ins' where rd: "readsome avail (unat (snd (getBuffer (sock s)))) ins = (got, ins')"
    "ins' = ins\<lparr>ipos := ipos ins + length got\<rparr>" "unread ins = got @ unread ins'" "length got \<le> 1048576"
    "got = [] \<longleftrightarrow> unread ins = []"
    by (auto simp: getBuffer_def)
  show ?case
  proof (cases "got = []")
    case True
    then have "r = Inr ()" "s' = s" using rd(1) less.prems(1) by (simp_all add: send_file_loop.simps)
    moreover have "sent_all (unread ins) []"
      using True rd(5) unfolding sent_all_def by (intro exI [of _ "[]"]) simp
    ultimately show ?thesis by (intro conjI exI [of _ "[]"]) simp_all
  next
    case False
    then have f0: "fsize \<noteq> 0" using less.prems(3) rd(5) by simp
    obtain r1 s1 where b: "andthen (on_sock (read_into_buffer got)) (\<lambda>_. on_sock (send got)) s = (r1, s1)" by fastforce
    have part: "sent (got @ unread ins') v" if "part_of v (frame got)" for v
      unfolding sent_def using that rd(4)
      by (intro exI [of _ "[got]"]) (simp add: part_of_def)
    from buffered_send_any [OF False rd(4) b] show ?thesis
    proof (elim conjE disjE exE)
      fix e v assume 1: "machine s1 = machine s" "r1 = Inl (System_error e)" "tx (sock s1) = tx (sock s) @ v"
        "part_of v (frame got)"
      then have "r = Inl (System_error e)" "s' = s1"
        using less.prems(1) rd(1) b False by (simp_all add: send_file_loop.simps Let_def)
      then show ?thesis using 1 part [of v] unfolding rd(3) by simp
    next
      assume 1: "machine s1 = machine s" "r1 = Inr ()" "tx (sock s1) = tx (sock s) @ frame got"
      have "send_file_loop avail fsize (t + of_nat (length got)) ins' s1 = (r, s')"
        using less.prems(1) rd(1) b 1(2) False f0 by (subst (asm) send_file_loop.simps) (simp add: Let_def)
      moreover have "length (unread ins') < length (unread ins)" using readsome_less [OF rd(1) False] .
      moreover have "\<not> ifail ins'" using less.prems(2) rd(2) by simp
      ultimately have 2: "machine s' = machine s1" "\<exists>w. tx (sock s') = tx (sock s1) @ w \<and> sent (unread ins') w \<and>
          (r = Inr () \<and> sent_all (unread ins') w \<or> (\<exists>e. r = Inl (System_error e)))"
        using less.hyps [of ins' "t + of_nat (length got)" s1] f0 by blast+
      then obtain w where w: "tx (sock s') = tx (sock s) @ frame got @ w" "sent (unread ins') w"
          "r = Inr () \<and> sent_all (unread ins') w \<or> (\<exists>e. r = Inl (System_error e))"
        using 1(3) by auto
      have "sent (unread ins) (frame got @ w)"
        unfolding rd(3) using rd(4) w(2) by (rule sent_Cons)
      moreover have "r = Inr () \<and> sent_all (unread ins) (frame got @ w) \<or> (\<exists>e. r = Inl (System_error e))"
        unfolding rd(3) using rd(4) w(3) sent_all_Cons by blast
      ultimately show ?thesis using 1(1) 2(1) w(1) by metis
    qed
  qed
qed

lemma on_receiveACK_any:
  assumes "on_sock receiveACK s = (r, s')"
  shows "machine s' = machine s \<and> (\<exists>v. tx (sock s') = tx (sock s) @ v \<and> part_of v refusal \<and>
    (r = Inr () \<longrightarrow> v = [] \<and> rx (sock s) = frame ACK @ rx (sock s')))"
proof -
  obtain r1 k where k: "receiveACK (sock s) = (r1, k)" by fastforce
  with assms have "r1 = r" "s' = s\<lparr>sock := k\<rparr>" by (simp_all add: on_sock_def)
  then show ?thesis using receiveACK_any [OF k] by simp
qed

lemma on_receiveACK_alive: "on_sock receiveACK s = (Inl e, s') \<Longrightarrow> \<not> killed e"
  by (auto simp: on_sock_def split: prod.splits dest!: receiveACK_error transport_alive)

lemma stream_file_any:
  assumes "avail_ok avail" and "stream_file avail path s = (r, s')"
    and "open_in (machine s) path = Some d" and "length d < 2 ^ 64"
  shows "machine s' = machine s \<and> (\<exists>w v. tx (sock s') = tx (sock s) @ w @ v \<and> sent d w \<and> part_of v refusal \<and>
      (w \<noteq> [] \<longrightarrow> (\<exists>rest. rx (sock s) = frame ACK @ rest)) \<and> (r = Inr () \<longrightarrow> sent_all d w \<and> v = [])) \<and>
    (\<forall>e. r = Inl e \<longrightarrow> \<not> killed e)"
  using assms(2) unfolding stream_file_def
proof (cases rule: andthen_cases)
  case (error e)
  from on_receiveACK_any [OF error(1)] obtain v where
    "tx (sock s') = tx (sock s) @ v" "part_of v refusal" "machine s' = machine s" by blast
  then show ?thesis using error(2) on_receiveACK_alive [OF error(1)]
    by (intro conjI exI [of _ "[]"] exI [of _ v]) simp_all
next
  case (ok u s1)
  from on_receiveACK_any [OF ok(1)] have m1: "machine s1 = machine s"
    and ack: "rx (sock s) = frame ACK @ rx (sock s1)" "tx (sock s1) = tx (sock s)" by auto
  have fs: "file_size (machine s1) path = Inr (of_nat (length d))" "open_stream (machine s1) path = istream_of d"
    using assms(3) m1 by (auto simp: open_in_def file_size_def open_stream_def split: option.splits node.splits)
  have "d \<noteq> [] \<Longrightarrow> unat (of_nat (length d) :: size_t) \<noteq> 0" using assms(4) by (simp add: unat_of_nat_size)
  then have nz: "(of_nat (length d) :: size_t) \<noteq> 0 \<or> unread (istream_of d) = []" by (metis unat_0 unread_istream_of(1))
  have run: "andthen (send_file_loop avail (of_nat (length d)) 0 (istream_of d)) (\<lambda>_. on_sock receiveACK) s1 = (r, s')"
    using ok(2) fs by (simp add: andthen_def)
  obtain r2 s2 where lp: "send_file_loop avail (of_nat (length d)) 0 (istream_of d) s1 = (r2, s2)" by fastforce
  from send_file_loop_any [OF assms(1) lp _ nz] obtain w where w: "machine s2 = machine s1"
    "tx (sock s2) = tx (sock s) @ w" "sent d w" "r2 = Inr () \<and> sent_all d w \<or> (\<exists>e. r2 = Inl (System_error e))"
    using ack(2) by auto
  show ?thesis
  proof (cases r2)
    case (Inl e)
    then have "r = Inl e" "s' = s2" using run lp by (simp_all add: andthen_def)
    then show ?thesis using w m1 ack(1) Inl by (intro conjI exI [of _ w] exI [of _ "[]"]) auto
  next
    case (Inr u)
    then have "on_sock receiveACK s2 = (r, s')" using run lp by (simp add: andthen_def)
    from on_receiveACK_any [OF this] obtain v where
      "tx (sock s') = tx (sock s2) @ v" "part_of v refusal" "r = Inr () \<longrightarrow> v = []" "machine s' = machine s2"
      by blast
    moreover have "\<forall>e. r = Inl e \<longrightarrow> \<not> killed e" using on_receiveACK_alive \<open>on_sock receiveACK s2 = (r, s')\<close> by blast
    ultimately show ?thesis using w m1 ack(1) Inr by (intro conjI exI [of _ w] exI [of _ v]) auto
  qed
qed

text \<open>
  C13. Whatever the server does, the sender gives away nothing but the file, and nothing of it before
  the first acknowledgement: what it writes is the beginning of messages that carry the beginning of
  the file, then possibly the notice about a message that is too long; if the call returns, all of
  the file has been written.  A temporary archive is removed in every case, and nothing else changes
  on the machine.
\<close>

theorem sendFSEntry_safe:
  assumes "avail_ok avail" and "sendFSEntry avail e s = (r, s')"
    and "open_in (machine s) (entry_path e) = Some d" and "length d < 2 ^ 64"
  shows "machine s' = RAIIFSEntry_destroy e (machine s) \<and>
    (\<exists>w v. tx (sock s') = tx (sock s) @ w @ v \<and> sent d w \<and> part_of v refusal \<and>
      (w \<noteq> [] \<longrightarrow> (\<exists>rest. rx (sock s) = frame ACK @ rest)) \<and> (r = Inr () \<longrightarrow> sent_all d w \<and> v = []))"
proof -
  obtain s1 where s1: "stream_file avail (entry_path e) s = (r, s1)"
    and s': "s' = s1\<lparr>machine := leave r (RAIIFSEntry_destroy e) (machine s1)\<rparr>"
    using assms(2) by (auto simp: sendFSEntry_def split: prod.splits)
  from stream_file_any [OF assms(1) s1 assms(3,4)] show ?thesis by (simp add: s' leave_alive)
qed

definition aborted_client :: client where
  "aborted_client = sample_client\<lparr>sock := \<lparr>rx = frame ''abort'', tx = [], tx_open = True, tx_quota = None, data_buffer = []\<rparr>\<rparr>"

theorem sendFSEntry_safe_witness:
  "\<exists>w v. tx (sock (snd (sendFSEntry (\<lambda>s. 3) (RAIIFSEntry_init ''f'' False) aborted_client))) = w @ v \<and>
     sent ''data'' w \<and> part_of v refusal"
proof -
  let ?r = "sendFSEntry (\<lambda>s. 3) (RAIIFSEntry_init ''f'' False) aborted_client"
  have "open_in (machine aborted_client) (entry_path (RAIIFSEntry_init ''f'' False)) = Some ''data''"
    by (simp add: aborted_client_def sample_client_def RAIIFSEntry_init_def Utils.sample_host_def open_in_def
        stat_def resolve_def is_absolute_def)
  moreover have "tx (sock aborted_client) = []" by (simp add: aborted_client_def)
  ultimately show ?thesis
    using sendFSEntry_safe [of "\<lambda>s. 3" "RAIIFSEntry_init ''f'' False" aborted_client "fst ?r" "snd ?r" "''data''"]
    by (auto simp: avail_ok_def)
qed

section \<open>Announcing\<close>

lemma announce_machine: "machine (snd (announce E J p c s)) = machine s"
  by (auto simp: announce_def getReceiveCodeFromServer_def andthen_def of_option_def on_sock_def
      split: prod.splits sum.splits option.splits)

text \<open>An announcement ends in an exception if it fails, never in a trap.\<close>

lemma hash_loop_error: "hash_loop E f c = Inl e \<Longrightarrow> is_DropFileBaseException e"
proof (induction E f c rule: hash_loop.induct)
  case (1 E f c)
  obtain got f' where rd: "istream_read hash_buffer_size f = (got, f')" by fastforce
  show ?case using "1.IH" [OF _ rd [symmetric]] "1.prems" rd
    by (subst (asm) hash_loop.simps) (auto split: if_splits option.splits)
qed

lemma createSendMessage_error: "createSendMessage E J h p c = Inl e \<Longrightarrow> \<not> killed e"
  by (auto simp: createSendMessage_def calculateFileHash_def file_size_def Let_def sum_bind_def
      split: if_splits option.splits sum.splits node.splits dest!: hash_loop_error is_DropFileBaseException_alive)

lemma announce_alive: "announce E J p c s = (Inl e, s') \<Longrightarrow> \<not> killed e"
  by (auto simp: announce_def getReceiveCodeFromServer_def andthen_def of_option_def on_sock_def ret_def throw_def
      split: prod.splits sum.splits option.splits
      dest: createSendMessage_error send_error [THEN transport_alive] receive_error [THEN transport_alive])

text \<open>The server's answer that carries a receive code.\<close>

definition answers :: "'j json_api \<Rightarrow> bytes \<Rightarrow> string \<Rightarrow> bool" where
  "answers J a code \<longleftrightarrow> length a \<le> unat BUFFER_SIZE \<and>
     (\<exists>j. json_parse J a = Some j \<and> json_get (json_get_string J) J j CODE_WORDS_KEY = Inr code)"

lemma announce_ok:
  assumes "evp_laws E digest" and "open_in (machine s) p = Some d"
    and "json_dump J (json_object J (send_fields (filename p) (of_nat (length d)) (binaryToHumanReadable (digest d)) c)) = Some t"
    and "length t < 2 ^ 64" and "writable (sock s)" and "rx (sock s) = frame a @ rest" and "answers J a code"
  shows "announce E J p c s = (Inr code, s\<lparr>sock := (written (wire t) (sock s))\<lparr>rx := rest\<rparr>\<rparr>)"
proof -
  let ?k = "written (wire t) (sock s)"
  have snd: "send t (sock s) = (Inr (), ?k)" using assms(4,5) by (intro send_ok writable_carries)
  have rcv: "receive ?k = (Inr a, ?k\<lparr>rx := rest\<rparr>)"
    using assms(6,7) by (intro receive_frame) (simp_all add: answers_def)
  from assms(7) obtain j where "json_parse J a = Some j" "json_get (json_get_string J) J j CODE_WORDS_KEY = Inr code"
    by (auto simp: answers_def)
  then show ?thesis
    using createSendMessage_file [OF assms(1,2), of J c] assms(3) snd rcv
    by (simp add: announce_def getReceiveCodeFromServer_def andthen_def on_sock_def)
qed

text \<open>An answer that does not come.\<close>

lemma announce_unanswered:
  assumes "evp_laws E digest" and "open_in (machine s) p = Some d"
    and "json_dump J (json_object J (send_fields (filename p) (of_nat (length d)) (binaryToHumanReadable (digest d)) c)) = Some t"
    and "length t < 2 ^ 64" and "writable (sock s)" and "rx (sock s) = []"
  shows "\<exists>er q k. announce E J p c s = (Inl er, s\<lparr>sock := k\<rparr>) \<and> receive (written (wire t) (sock s)) = (q, k)"
proof -
  let ?k = "written (wire t) (sock s)"
  have snd: "send t (sock s) = (Inr (), ?k)" using assms(4,5) by (intro send_ok writable_carries)
  obtain q k2 where q: "receive ?k = (q, k2)" by fastforce
  have "\<exists>er. q = Inl er"
  proof (rule ccontr)
    assume "\<nexists>er. q = Inl er"
    then obtain m where "q = Inr m" by (cases q) auto
    with receive_iff [of ?k m k2] q have "rx ?k = frame m @ rx k2" by simp
    then show False using assms(6) by simp
  qed
  then obtain er where er: "q = Inl er" by blast
  then show ?thesis
    using createSendMessage_file [OF assms(1,2), of J c] assms(3) snd q
    by (simp add: announce_def getReceiveCodeFromServer_def andthen_def on_sock_def)
qed

lemma announce_success:
  assumes "announce E J p c s = (Inr code, s')" and short: "\<forall>msg t. createSendMessage E J (machine s) p c = Inr msg \<and> json_dump J msg = Some t \<longrightarrow> length t < 2 ^ 64"
  shows "\<exists>msg t a j. createSendMessage E J (machine s) p c = Inr msg \<and> json_dump J msg = Some t \<and>
    tx (sock s') = tx (sock s) @ wire t \<and> rx (sock s) = frame a @ rx (sock s') \<and> machine s' = machine s \<and>
    json_parse J a = Some j \<and> json_get (json_get_string J) J j CODE_WORDS_KEY = Inr code"
proof -
  obtain msg t where m: "createSendMessage E J (machine s) p c = Inr msg" "json_dump J msg = Some t"
    using assms(1) by (auto simp: announce_def andthen_def of_option_def split: sum.splits option.splits)
  then have "andthen (on_sock (send t)) (\<lambda>_. getReceiveCodeFromServer J) s = (Inr code, s')"
    using assms(1) by (simp add: announce_def andthen_def)
  then obtain s1 where s1: "on_sock (send t) s = (Inr (), s1)" "getReceiveCodeFromServer J s1 = (Inr code, s')"
    by (auto elim: andthen_InrE)
  obtain k1 where k1: "send t (sock s) = (Inr (), k1)" "s1 = s\<lparr>sock := k1\<rparr>"
    using s1(1) by (auto simp: on_sock_def split: prod.splits)
  have "length t < 2 ^ 64" using short m by blast
  then have k: "k1 = written (wire t) (sock s)"
    using k1(1) send_ok [of t "sock s"] send_failed [of t "sock s"]
    by (cases "carries (sock s) (length (wire t))") auto
  let ?code = "\<lambda>a. sum_bind (case json_parse J a of None \<Rightarrow> Inl (Json_exception ''parse_error'') | Some j \<Rightarrow> Inr j)
    (\<lambda>j. json_get (json_get_string J) J j CODE_WORDS_KEY)"
  obtain a s2 where a: "on_sock receive s1 = (Inr a, s2)"
    and rest: "(case ?code a of Inl e \<Rightarrow> throw (DropFileSendException (''Could not parse server response ('' @ a @
                  '') to json:  '' @ what e)) | Inr c \<Rightarrow> ret c) s2 = (Inr code, s')"
    using s1(2) unfolding getReceiveCodeFromServer_def by (rule andthen_InrE)
  from rest have s2: "s2 = s'" "?code a = Inr code" by (cases "?code a"; simp)+
  then have code: "\<exists>j. json_parse J a = Some j \<and> json_get (json_get_string J) J j CODE_WORDS_KEY = Inr code"
    by (auto simp: sum_bind_Inr_iff split: option.splits)
  have rc: "receive k1 = (Inr a, sock s')" and s': "s' = s1\<lparr>sock := sock s'\<rparr>"
    using on_sock_sock [OF a] s2(1) k1(2) by simp_all
  have "machine s' = machine s1" by (subst s') simp
  then have "machine s' = machine s" using k1(2) by simp
  moreover have "rx (sock s) = frame a @ rx (sock s')" using receive_success [OF rc] k by simp
  moreover have "tx (sock s') = tx (sock s) @ wire t" using receive_not_writing [OF rc] k by simp
  ultimately show ?thesis using m code by blast
qed


text \<open>
  Sending a file starts with announcing it: the request on the wire is one the server accepts
  and carries the file's name, size and digest, marked as not compressed; the code returned is the
  one in the server's answer, and the entry handed on is the file itself, which nobody will remove.
\<close>

theorem sendFSEntryMetadata_file:
  assumes "json_laws J text" and "evp_laws E digest" and "open_in (machine s) p = Some d" and "text (filename p)"
    and "json_dump J (json_object J (send_fields (filename p) (of_nat (length d)) (binaryToHumanReadable (digest d)) False)) = Some t"
    and "length t < 2 ^ 64" and "writable (sock s)" and "rx (sock s) = frame a @ rest" and "answers J a code"
  shows "\<exists>s' j. sendFSEntryMetadata E Z J p s = Some (Inr (RAIIFSEntry_init p False, code), s') \<and>
    tx (sock s') = tx (sock s) @ wire t \<and> rx (sock s') = rest \<and> machine s' = machine s \<and>
    create J t = Inr j \<and> valid_send J j \<and>
    announces J j (filename p) (of_nat (length d)) (binaryToHumanReadable (digest d)) False"
proof -
  let ?f = "send_fields (filename p) (of_nat (length d)) (binaryToHumanReadable (digest d)) False"
  have "\<not> is_directory_at (machine s) p"
    using assms(3) by (auto simp: open_in_def is_directory_at_def split: option.splits node.splits)
  then have cn: "compressIfNecessary Z p s = Some (Inr (RAIIFSEntry_init p False, False), s)"
    by (simp add: compressIfNecessary_def Let_def)
  have "announce E J p False s = (Inr code, s\<lparr>sock := (written (wire t) (sock s))\<lparr>rx := rest\<rparr>\<rparr>)"
    by (rule announce_ok [OF assms(2,3,5-9)])
  then have run: "sendFSEntryMetadata E Z J p s =
      Some (Inr (RAIIFSEntry_init p False, code), s\<lparr>sock := (written (wire t) (sock s))\<lparr>rx := rest\<rparr>\<rparr>)"
    using cn by (simp add: sendFSEntryMetadata_def RAIIFSEntry_init_def RAIIFSEntry_move_def)
  have "distinct (map fst ?f)" by (simp add: send_fields_def key_defs)
  moreover have "\<forall>(k, v) \<in> set ?f. text k \<and> (\<forall>s. v = J_string s \<longrightarrow> text s)"
    using ascii_constants [OF assms(1)] assms(4) by (auto simp: send_fields_def)
  ultimately have "json_parse J t = Some (json_object J ?f)"
    using json_laws_dump_object [OF assms(1), of ?f] assms(5) by auto
  with send_fields_object [OF assms(1), of "filename p"] show ?thesis
    unfolding run by (fastforce intro: create_ok)
qed

definition sample_answer :: bytes where
  "sample_answer = put_flat (Obj [(CODE_WORDS_KEY, F_scalar (J_string ''red-fox''))])"

lemma sample_answer_code: "answers flat_json sample_answer ''red-fox''"
proof -
  let ?j = "Obj [(CODE_WORDS_KEY, F_scalar (J_string ''red-fox''))]"
  have "json_parse flat_json sample_answer = Some ?j"
    unfolding sample_answer_def flat_json_sel by (rule get_put_flat)
  moreover have "json_get (json_get_string flat_json) flat_json ?j CODE_WORDS_KEY = Inr ''red-fox''"
    by (simp add: json_get_def)
  moreover have "length sample_answer \<le> unat BUFFER_SIZE"
    by (simp add: sample_answer_def put_text_def key_defs)
  ultimately show ?thesis by (auto simp: answers_def)
qed

definition announcing_client :: client where
  "announcing_client = sample_client\<lparr>sock :=
     \<lparr>rx = frame sample_answer, tx = [], tx_open = True, tx_quota = None, data_buffer = []\<rparr>\<rparr>"

theorem sendFSEntryMetadata_file_witness:
  "\<exists>s'. sendFSEntryMetadata take4_evp held_zstd flat_json ''f'' announcing_client =
     Some (Inr (RAIIFSEntry_init ''f'' False, ''red-fox''), s')"
proof -
  have d: "open_in (machine announcing_client) ''f'' = Some ''data''"
    by (simp add: announcing_client_def sample_client_def Utils.sample_host_def open_in_def stat_def
        resolve_def is_absolute_def)
  let ?f = "send_fields (filename ''f'') (of_nat (length ''data'')) (binaryToHumanReadable (take 4 ''data'')) False"
  have "distinct (map fst ?f)" "?f \<noteq> []" by (simp_all add: send_fields_def key_defs)
  then have "length (put_flat (json_object flat_json ?f)) < 2 ^ 64"
    by (simp add: flat_object) (simp add: send_fields_def key_defs put_text_def
        filename_def binaryToHumanReadable_def)
  then show ?thesis
    using sendFSEntryMetadata_file [OF flat_json_laws take4_evp_laws d, of _ sample_answer "[]" "''red-fox''" held_zstd]
      sample_answer_code
    by (fastforce simp: announcing_client_def writable_def)
qed

lemma compressIfNecessary_directory:
  assumes "zstd_laws Z F" and "p = path_append (DROP_FILE_SENDER_TMP_DIR (machine s)) (filename dir)"
    and "new_file (machine s) p qa"
    and "resolve (machine s) dir = Some q" and "lookup (root (machine s)) q = Some (Dir es)" and "\<not> prefix q qa"
    and "length (filename dir) \<le> PATH_MAX_LEN" and "packable Z (filename dir) es"
  shows "\<exists>bs h2. compressIfNecessary Z dir s = Some (Inr (RAIIFSEntry_init p True, True), s\<lparr>machine := h2\<rparr>) \<and>
    createArchive Z dir p (machine s) = Some (Inr (), h2) \<and> open_in h2 p = Some (concat bs) \<and>
    list_all2 (encodes F) (Dir_item (filename dir) # flatten_entries (filename dir) es) bs \<and>
    RAIIFSEntry_destroy (RAIIFSEntry_init p True) h2 = machine s"
proof -
  let ?h = "machine s"
  obtain bs where ca: "createArchive Z dir p ?h = Some (Inr (), ?h\<lparr>root := put qa (File (concat bs)) (root ?h)\<rparr>)"
    and bs: "list_all2 (encodes F) (Dir_item (filename dir) # flatten_entries (filename dir) es) bs"
    using createArchive_ok [OF assms(1,3-8)] by blast
  let ?h2 = "?h\<lparr>root := put qa (File (concat bs)) (root ?h)\<rparr>"
  have "is_directory_at ?h dir" using assms(4,5) by (simp add: is_directory_at_def stat_def)
  then have cn: "compressIfNecessary Z dir s = Some (Inr (RAIIFSEntry_init p True, True), s\<lparr>machine := ?h2\<rparr>)"
    using ca by (simp add: compressIfNecessary_def Let_def RAIIFSEntry_init_def RAIIFSEntry_assign_def assms(2))
  have "resolve ?h2 p = Some qa" "erase qa (put qa (File (concat bs)) (root ?h)) = root ?h"
    using new_file_facts(4,5) [OF assms(3)] by blast+
  then have "RAIIFSEntry_destroy (RAIIFSEntry_init p True) ?h2 = ?h"
    by (simp add: RAIIFSEntry_destroy_def RAIIFSEntry_init_def remove_all_def)
  with cn ca bs new_file_open_in [OF assms(3)] show ?thesis by auto
qed

text \<open>
  A directory is sent as a temporary archive that does not outlive a failure: when the archive lies
  outside the directory and can be built, and the announcement fails, for whatever answer of the server,
  the archive has been removed and the machine is exactly as before.
\<close>

theorem failed_announcement_cleans_up:
  assumes "zstd_laws Z F" and "p = path_append (DROP_FILE_SENDER_TMP_DIR (machine s)) (filename dir)"
    and "new_file (machine s) p qa"
    and "resolve (machine s) dir = Some q" and "lookup (root (machine s)) q = Some (Dir es)" and "\<not> prefix q qa"
    and "length (filename dir) \<le> PATH_MAX_LEN" and "packable Z (filename dir) es"
    and "sendFSEntryMetadata E Z J dir s = Some (Inl e, s')"
  shows "machine s' = machine s"
proof -
  obtain h2 where cn: "compressIfNecessary Z dir s = Some (Inr (RAIIFSEntry_init p True, True), s\<lparr>machine := h2\<rparr>)"
    "RAIIFSEntry_destroy (RAIIFSEntry_init p True) h2 = machine s"
    using compressIfNecessary_directory [OF assms(1-8)] by blast
  obtain r1 s2 where an: "announce E J p True (s\<lparr>machine := h2\<rparr>) = (r1, s2)" by fastforce
  then have "machine s2 = h2" using announce_machine [of E J p True "s\<lparr>machine := h2\<rparr>"] by simp
  then show ?thesis
    using assms(9) cn an announce_alive by (cases r1) (fastforce simp: sendFSEntryMetadata_def RAIIFSEntry_init_def)+
qed

definition directory_client :: client where
  "directory_client = sample_client\<lparr>machine := tree_host\<lparr>root := Dir [(''d'', Dir [(''f'', File ''hello'')]),
     (''t'', Dir [(''drop-file'', Dir [(''sender'', Dir [])])])]\<rparr>\<rparr>"

lemma directory_client_facts:
  defines "h \<equiv> machine directory_client" and "p \<equiv> path_append (DROP_FILE_SENDER_TMP_DIR (machine directory_client)) (filename ''/d'')"
  shows "p = ''/t/drop-file/sender/d''" "filename ''/d'' = ''d''" "new_file h p [''t'', ''drop-file'', ''sender'', ''d'']"
    "resolve h ''/d'' = Some [''d'']" "lookup (root h) [''d''] = Some (Dir [(''f'', File ''hello'')])"
    "\<not> prefix [''d''] [''t'', ''drop-file'', ''sender'', ''d'']"
proof -
  show f: "filename ''/d'' = ''d''" by (simp add: filename_def)
  have td: "temp_dir h = ''/t''" by (simp add: h_def directory_client_def tree_host_def)
  show p: "p = ''/t/drop-file/sender/d''"
    unfolding p_def f using td
    by (simp add: DROP_FILE_SENDER_TMP_DIR_def h_def path_append_def is_absolute_def filename_def)
  have r: "root h = Dir [(''d'', Dir [(''f'', File ''hello'')]), (''t'', Dir [(''drop-file'', Dir [(''sender'', Dir [])])])]"
    by (simp add: h_def directory_client_def)
  show "new_file h p [''t'', ''drop-file'', ''sender'', ''d'']" "resolve h ''/d'' = Some [''d'']"
    "lookup (root h) [''d''] = Some (Dir [(''f'', File ''hello'')])" "\<not> prefix [''d''] [''t'', ''drop-file'', ''sender'', ''d'']"
    unfolding p by (simp_all add: new_file_def resolve_def is_absolute_def r)
qed

theorem failed_announcement_cleans_up_witness:
  "\<exists>e s'. sendFSEntryMetadata (take4_evp\<lparr>evp_new := None\<rparr>) held_zstd flat_json ''/d'' directory_client = Some (Inl e, s') \<and>
     machine s' = machine directory_client"
proof -
  let ?h = "machine directory_client" and ?E = "take4_evp\<lparr>evp_new := None\<rparr>"
  let ?p = "path_append (DROP_FILE_SENDER_TMP_DIR ?h) (filename ''/d'')"
  note d = directory_client_facts
  have pk: "length (filename ''/d'') \<le> PATH_MAX_LEN" "packable held_zstd (filename ''/d'') [(''f'', File ''hello'')]"
    unfolding d(2) by (simp_all add: PATH_MAX_LEN_def valid_name_def compressible_def path_append_def
        is_absolute_def filename_def)
  obtain h2 where cn: "compressIfNecessary held_zstd ''/d'' directory_client =
      Some (Inr (RAIIFSEntry_init ?p True, True), directory_client\<lparr>machine := h2\<rparr>)"
    using compressIfNecessary_directory [OF held_zstd_laws refl d(3-6) pk] by blast
  have "\<exists>e. createSendMessage ?E J h r c = Inl e" for J :: "flat json_api" and h r c
    by (cases "file_size h r") (simp_all add: createSendMessage_def calculateFileHash_def Let_def)
  then have an: "\<exists>e. announce ?E flat_json r c s = (Inl e, s)" for r c and s :: client
    by (simp add: announce_def andthen_def) (metis old.sum.simps(5))
  obtain e where "announce ?E flat_json ?p True (directory_client\<lparr>machine := h2\<rparr>) = (Inl e, directory_client\<lparr>machine := h2\<rparr>)"
    using an by blast
  then obtain e s' where "sendFSEntryMetadata ?E held_zstd flat_json ''/d'' directory_client = Some (Inl e, s')"
    using cn by (simp add: sendFSEntryMetadata_def RAIIFSEntry_init_def)
  then show ?thesis
    using failed_announcement_cleans_up [OF held_zstd_laws refl d(3-6) pk] by blast
qed

text \<open>
  The working directory cannot be sent as \<open>.\<close>: the archive is named after the last component of
  the path, so it would be the temporary directory itself, which exists; the call throws and changes
  nothing.
\<close>

theorem dot_is_refused:
  assumes "filename path = ''.''" and "is_directory_at (machine s) path"
    and "is_directory_at (machine s) (DROP_FILE_SENDER_TMP_DIR (machine s))"
  shows "\<exists>m. sendFSEntryMetadata E Z J path s = Some (Inl (ArchiveManagerException m), s)"
proof -
  let ?h = "machine s" and ?t = "DROP_FILE_SENDER_TMP_DIR (machine s)"
  have "filename ?t = ''sender''"
    unfolding DROP_FILE_SENDER_TMP_DIR_def by (rule filename_path_append) (simp add: valid_name_def)
  then have p: "path_append ?t ''.'' = ?t @ ''/.''" by (simp add: path_append_def is_absolute_def)
  obtain q where q: "resolve ?h ?t = Some q" "is_dir (lookup (root ?h) q)"
    using assms(3) by (auto simp: is_directory_at_def stat_def split: option.splits)
  then have "resolve ?h (?t @ ''/.'') = Some q"
    using split_slash_append [of "''.''" ?t]
    by (auto simp: resolve_def walk_append is_absolute_append split: if_splits)
  then have "fs_exists ?h (path_append ?t ''.'')"
    using q(2) unfolding p by (auto simp: fs_exists_def stat_def is_dir_iff)
  then show ?thesis using assms(1,2)
    by (simp add: sendFSEntryMetadata_def compressIfNecessary_def Let_def createArchive_def RAIIFSEntry_init_def)
qed

theorem dot_is_refused_witness:
  "\<exists>m. sendFSEntryMetadata take4_evp held_zstd flat_json ''.'' directory_client =
     Some (Inl (ArchiveManagerException m), directory_client)"
proof -
  have "DROP_FILE_SENDER_TMP_DIR (machine directory_client) = ''/t/drop-file/sender''"
    by (simp add: DROP_FILE_SENDER_TMP_DIR_def directory_client_def tree_host_def path_append_def is_absolute_def filename_def)
  then show ?thesis
    by (intro dot_is_refused)
      (simp_all add: filename_def directory_client_def tree_host_def is_directory_at_def stat_def resolve_def is_absolute_def)
qed

end
