(* ===== verification/ReceiveClient.thy ===== *)
theory ReceiveClient
  imports ClientState
begin

text \<open>
  \<open>src/client/DropFileReceiveClient.cpp\<close>: asking for a file by its code, showing the announcement,
  the user's decision, the download, the check of its hash and the unpacking of an archive.
\<close>

section \<open>State\<close>

text \<open>\<open>interaction\<close> is what the user will have typed.\<close>

record receiver = client +
  interaction :: string

definition DROP_FILE_RECEIVER_TMP_DIR :: "host \<Rightarrow> string" where
  "DROP_FILE_RECEIVER_TMP_DIR h = path_append (path_append (temp_dir h) ''drop-file'') ''receiver''"

definition DropFileReceiveClient_init :: "(receiver, unit) prog" where
  "DropFileReceiveClient_init s =
     on_machine (create_directories (DROP_FILE_RECEIVER_TMP_DIR (machine s)))
       (s\<lparr>machine := remove_all (DROP_FILE_RECEIVER_TMP_DIR (machine s)) (machine s)\<rparr>)"

definition DropFileReceiveClient_destroy :: "receiver \<Rightarrow> receiver" where
  "DropFileReceiveClient_destroy s =
     s\<lparr>machine := remove_all (DROP_FILE_RECEIVER_TMP_DIR (machine s)) (machine s)\<rparr>"

section \<open>Operations\<close>

definition assertJsonProperties :: "'j json_api \<Rightarrow> 'j \<Rightarrow> host \<Rightarrow> error + unit" where
  "assertJsonProperties J json h =
     sum_bind (json_at J json FILENAME_KEY) (\<lambda>v.
     sum_bind (case json_get_string J v of None \<Rightarrow> Inl (Json_exception ''type_error'') | Some x \<Rightarrow> Inr x) (\<lambda>name.
       if fs_exists h name then Inl (DropFileReceiveException (''Directory '' @ name @ '' already exists!''))
       else
         sum_bind (json_at J json IS_COMPRESSED_KEY) (\<lambda>v.
         sum_bind (case json_get_bool J v of None \<Rightarrow> Inl (Json_exception ''type_error'') | Some x \<Rightarrow> Inr x) (\<lambda>is_compressed.
           let base_dir = (if is_compressed then temp_dir h else current_path h) in
           sum_bind (json_at J json FILE_SIZE_KEY) (\<lambda>v.
           sum_bind (case json_get_size J v of None \<Rightarrow> Inl (Json_exception ''type_error'') | Some x \<Rightarrow> Inr x) (\<lambda>fsize.
             if free_space h base_dir < fsize
             then Inl (DropFileReceiveException ''Not enough disk space to receive this file.'')
             else Inr ()))))))"

definition check_response :: "'j json_api \<Rightarrow> bytes \<Rightarrow> host \<Rightarrow> error + 'j" where
  "check_response J received h =
     sum_bind (case json_parse J received of None \<Rightarrow> Inl (Json_exception ''parse_error'') | Some json \<Rightarrow> Inr json) (\<lambda>json.
     sum_bind (json_get (json_get_bool J) J json IS_COMPRESSED_KEY) (\<lambda>is_compressed.
     sum_bind (json_get (json_get_string J) J json FILENAME_KEY) (\<lambda>name.
     sum_bind (json_get (json_get_size J) J json FILE_SIZE_KEY) (\<lambda>fsize.
     sum_bind (bytesToHumanReadable fsize) (\<lambda>_.
     sum_bind (assertJsonProperties J json h) (\<lambda>_. Inr json))))))"

definition getServerResponse :: "'j json_api \<Rightarrow> ('z client_scheme, 'j) prog" where
  "getServerResponse J = andthen (on_sock receive) (\<lambda>received.
     try_catch (ask (check_response J received)) (\<lambda>e.
       case e of
         Json_exception _ \<Rightarrow> throw (DropFileReceiveException (''Error, server response: '' @ received))
       | _ \<Rightarrow> throw e))"

text \<open>\<open>>>\<close> skips white space; at the end of the input the character stays 0.\<close>

definition is_space :: "char \<Rightarrow> bool" where
  "is_space c \<longleftrightarrow> of_char c = (32 :: nat) \<or> 9 \<le> (of_char c :: nat) \<and> of_char c \<le> (13 :: nat)"

definition read_char :: "string \<Rightarrow> char \<times> string" where
  "read_char input = (case dropWhile is_space input of [] \<Rightarrow> (CHR 0x00, []) | c # cs \<Rightarrow> (c, cs))"

definition getUserConfirmation :: "(receiver, unit) prog" where
  "getUserConfirmation s =
     (case read_char (interaction s) of (confirmation, input) \<Rightarrow>
        if confirmation \<noteq> CHR ''y'' then
          andthen (on_sock (send ''abort'')) (\<lambda>_.
            throw (DropFileReceiveException (''Entered '' @ [CHR 0x27, confirmation, CHR 0x27] @ '', aborting.'')))
            (s\<lparr>interaction := input\<rparr>)
        else on_sock sendACK (s\<lparr>interaction := input\<rparr>))"

text \<open>The output file; one that could not be opened swallows what is written to it.\<close>

definition write_out :: "string list option \<Rightarrow> bytes \<Rightarrow> ('z client_scheme, unit) prog" where
  "write_out out d s =
     (Inr (), case out of None \<Rightarrow> s | Some q \<Rightarrow> s\<lparr>machine := append_file q d (machine s)\<rparr>)"

lemma receiveToBuffer_less:
  assumes "on_sock receiveToBuffer s = (Inr d, s')"
  shows "length (rx (sock s')) < length (rx (sock s))"
proof -
  from on_sock_sock [OF assms] have "receiveToBuffer (sock s) = (Inr d, sock s')" by simp
  from receiveToBuffer_success [OF this] have "rx (sock s) = frame d @ rx (sock s')" by simp
  then have "length (rx (sock s)) = length (frame d) + length (rx (sock s'))" by (metis length_append)
  then show ?thesis by simp
qed

function download_loop :: "string list option \<Rightarrow> size_t \<Rightarrow> size_t \<Rightarrow> ('z client_scheme, unit) prog" where
  "download_loop out total_transferred_bytes expected_bytes s =
     (if total_transferred_bytes < expected_bytes then
        (case on_sock receiveToBuffer s of
           (Inl e, s1) \<Rightarrow> (Inl e, s1)
         | (Inr data, s1) \<Rightarrow>
             let left_to_transfer = expected_bytes - total_transferred_bytes;
                 write_size = min left_to_transfer (of_nat (length data))
             in (case write_out out (take (unat write_size) data) s1 of
                   (Inl e, s2) \<Rightarrow> (Inl e, s2)
                 | (Inr _, s2) \<Rightarrow>
                     if expected_bytes = 0 then (Inl Division_trap, s2)
                     else download_loop out (total_transferred_bytes + write_size) expected_bytes s2))
      else (Inr (), s))"
  by pat_completeness auto
termination
proof (relation "measure (\<lambda>(out, t, e, s). length (rx (sock s)))", goal_cases)
  case (2 out t e s x s1 data left w y s2 u)
  have "sock s2 = sock s1" using 2(6,7) by (auto simp: write_out_def split: option.splits)
  then show ?case using receiveToBuffer_less [of s data s1] 2(2,3) by simp
qed auto

declare download_loop.simps [simp del]

definition receiveFileImpl :: "string \<Rightarrow> size_t \<Rightarrow> ('z client_scheme, unit) prog" where
  "receiveFileImpl file_to_receive_path expected_bytes s =
     (if fs_exists (machine s) file_to_receive_path then
        (Inl (DropFileReceiveException (''Path '' @ file_to_receive_path @ '' already exists!'')), s)
      else
        let opened = open_out file_to_receive_path (machine s);
            s1 = (case opened of None \<Rightarrow> s | Some (h, q) \<Rightarrow> s\<lparr>machine := h\<rparr>)
        in andthen (download_loop (map_option snd opened) 0 expected_bytes) (\<lambda>_. on_sock sendACK) s1)"

definition validateFileHash :: "'e evp_api \<Rightarrow> string \<Rightarrow> string \<Rightarrow> host \<Rightarrow> error + unit" where
  "validateFileHash E path expected_file_hash h =
     sum_bind (calculateFileHash E h path) (\<lambda>actual_file_hash.
       if actual_file_hash \<noteq> expected_file_hash
       then Inl (DropFileReceiveException ''Received file's hash is not equal to the expected one.'')
       else Inr ())"

definition handleCompressedFile ::
  "('c, 'd) zstd_api \<Rightarrow> bool \<Rightarrow> string \<Rightarrow> host \<Rightarrow> ((error + unit) \<times> host) option" where
  "handleCompressedFile Z is_compressed compressed_file_path h =
     (if is_compressed then
        (case unpackArchive Z (current_path h) compressed_file_path h of
           None \<Rightarrow> None
         | Some (Inl e, h') \<Rightarrow> Some (Inl e, h')
         | Some (Inr _, h') \<Rightarrow> Some (fs_remove compressed_file_path h'))
      else Some (Inr (), h))"

text \<open>The request, the announcement, the user's decision, the download and its check.\<close>

definition download :: "'e evp_api \<Rightarrow> 'j json_api \<Rightarrow> string \<Rightarrow> (receiver, bool \<times> string) prog" where
  "download E J code_words =
     andthen (of_option (Json_exception ''type_error'') (json_dump J (createReceiveMessage J code_words))) (\<lambda>text.
     andthen (on_sock (send text)) (\<lambda>_.
     andthen (getServerResponse J) (\<lambda>server_response.
     andthen getUserConfirmation (\<lambda>_.
     andthen (of_sum (json_get (json_get_string J) J server_response FILENAME_KEY)) (\<lambda>name.
     andthen (of_sum (json_get (json_get_bool J) J server_response IS_COMPRESSED_KEY)) (\<lambda>is_compressed.
     andthen (ask (\<lambda>h. Inr (path_append
         (if is_compressed then DROP_FILE_RECEIVER_TMP_DIR h else current_path h) name))) (\<lambda>path.
     andthen (of_sum (json_get (json_get_size J) J server_response FILE_SIZE_KEY)) (\<lambda>fsize.
     andthen (receiveFileImpl path fsize) (\<lambda>_.
     andthen (of_sum (json_get (json_get_string J) J server_response FILE_HASH_KEY)) (\<lambda>hash.
     andthen (ask (validateFileHash E path hash)) (\<lambda>_.
       ret (is_compressed, path))))))))))))"

definition receiveFile ::
  "'e evp_api \<Rightarrow> ('c, 'd) zstd_api \<Rightarrow> 'j json_api \<Rightarrow> string \<Rightarrow> receiver \<Rightarrow> ((error + unit) \<times> receiver) option" where
  "receiveFile E Z J code_words s =
     (case download E J code_words s of
        (Inl e, s1) \<Rightarrow> Some (Inl e, s1)
      | (Inr (is_compressed, path), s1) \<Rightarrow>
          map_option (\<lambda>(r, h). (r, s1\<lparr>machine := h\<rparr>)) (handleCompressedFile Z is_compressed path (machine s1)))"

section \<open>The download\<close>

lemma download_loop_unfold:
  "download_loop out got expected s =
     (if got < expected then
        andthen (on_sock receiveToBuffer) (\<lambda>data.
          let write_size = min (expected - got) (of_nat (length data)) in
          andthen (write_out out (take (unat write_size) data)) (\<lambda>_.
            download_loop out (got + write_size) expected)) s
      else (Inr (), s))"
proof -
  have "got < expected \<Longrightarrow> expected \<noteq> 0" by (metis word_not_simps(1))
  then show ?thesis
    by (subst download_loop.simps) (auto simp: andthen_def Let_def split: prod.splits sum.splits)
qed

text \<open>The download takes its messages from the connection and puts their bytes into the new file.\<close>

definition file_inbox :: "bytes \<Rightarrow> 'z client_scheme \<Rightarrow> bytes list \<Rightarrow> bool" where
  "file_inbox rest s ms \<longleftrightarrow> rx (sock s) = concat (map frame ms) @ rest \<and> short_messages ms"

definition file_sunk :: "string \<Rightarrow> string list \<Rightarrow> 'z client_scheme \<Rightarrow> 'z client_scheme \<Rightarrow> bytes \<Rightarrow> bool" where
  "file_sunk p q s0 s out \<longleftrightarrow> new_file (machine s0) p q \<and>
     (\<exists>r b. s = s0\<lparr>sock := (sock s0)\<lparr>rx := r, data_buffer := b\<rparr>,
                   machine := (machine s0)\<lparr>root := put q (File out) (root (machine s0))\<rparr>\<rparr>)"

lemma append_new_file:
  assumes "new_file h p q"
  shows "append_file q d (h\<lparr>root := put q (File out) (root h)\<rparr>) = h\<lparr>root := put q (File (out @ d)) (root h)\<rparr>"
  using new_file_facts(3) [OF assms, of "File out"] by (simp add: append_file_def write_file_def put_put)

interpretation file_download: byte_relay "download_loop (Some q)" "on_sock receiveToBuffer"
    "\<lambda>got expected d. write_out (Some q) d" "file_inbox rest" "file_sunk p q s0"
proof unfold_locales
  fix got expected and s :: "'a client_scheme"
  show "download_loop (Some q) got expected s =
     (if got < expected then
        andthen (on_sock receiveToBuffer) (\<lambda>data.
          let write_size = min (expected - got) (of_nat (length data)) in
          andthen (write_out (Some q) (take (unat write_size) data)) (\<lambda>_.
            download_loop (Some q) (got + write_size) expected)) s
      else (Inr (), s))" by (rule download_loop_unfold)
next
  fix s :: "'a client_scheme" and m ms
  assume "file_inbox rest s (m # ms)"
  then show "length m \<le> unat BUFFER_SIZE" by (simp add: file_inbox_def)
next
  fix s :: "'a client_scheme" and m ms out
  assume i: "file_inbox rest s (m # ms)" and o: "file_sunk p q s0 s out"
  let ?k = "(sock s)\<lparr>rx := concat (map frame ms) @ rest, data_buffer := overwrite m (data_buffer (sock s))\<rparr>"
  have "receiveToBuffer (sock s) = (Inr m, ?k)"
    using i by (intro receiveToBuffer_frame) (simp_all add: file_inbox_def)
  then have "on_sock receiveToBuffer s = (Inr m, s\<lparr>sock := ?k\<rparr>)" by (rule on_sock_ok)
  moreover have "file_inbox rest (s\<lparr>sock := ?k\<rparr>) ms" using i by (simp add: file_inbox_def)
  moreover have "file_sunk p q s0 (s\<lparr>sock := ?k\<rparr>) out"
  proof -
    from o obtain r b where nf: "new_file (machine s0) p q" and s: "s = s0\<lparr>sock := (sock s0)\<lparr>rx := r, data_buffer := b\<rparr>,
        machine := (machine s0)\<lparr>root := put q (File out) (root (machine s0))\<rparr>\<rparr>"
      by (auto simp: file_sunk_def)
    have "s\<lparr>sock := ?k\<rparr> = s0\<lparr>sock := (sock s0)\<lparr>rx := concat (map frame ms) @ rest, data_buffer := overwrite m b\<rparr>,
        machine := (machine s0)\<lparr>root := put q (File out) (root (machine s0))\<rparr>\<rparr>"
      by (simp add: s)
    with nf show ?thesis unfolding file_sunk_def by blast
  qed
  ultimately show "\<exists>s'. on_sock receiveToBuffer s = (Inr m, s') \<and> file_inbox rest s' ms \<and> file_sunk p q s0 s' out"
    by blast
next
  fix s :: "'a client_scheme" and ms out and d :: bytes and got expected :: size_t
  assume i: "file_inbox rest s ms" and o: "file_sunk p q s0 s out" and "length d \<le> unat BUFFER_SIZE"
  let ?s = "s\<lparr>machine := append_file q d (machine s)\<rparr>"
  have "write_out (Some q) d s = (Inr (), ?s)" by (simp add: write_out_def)
  moreover have "file_inbox rest ?s ms" using i by (simp add: file_inbox_def)
  moreover have "file_sunk p q s0 ?s (out @ d)"
    using o append_new_file by (fastforce simp: file_sunk_def)
  ultimately show "\<exists>s'. write_out (Some q) d s = (Inr (), s') \<and> file_inbox rest s' ms \<and> file_sunk p q s0 s' (out @ d)"
    by blast
qed

lemma receiveFileImpl_ok:
  assumes "new_file (machine s) p q" and "writable (sock s)"
    and "rx (sock s) = concat (map frame ms) @ rest" and "short_messages ms" and "unat n \<le> length (concat ms)"
  shows "\<exists>s'. receiveFileImpl p n s = (Inr (), s') \<and> tx (sock s') = tx (sock s) @ frame ACK \<and>
    machine s' = (machine s)\<lparr>root := put q (File (take (unat n) (concat ms))) (root (machine s))\<rparr>"
proof -
  note nf = new_file_facts [OF assms(1)]
  let ?s1 = "s\<lparr>machine := (machine s)\<lparr>root := put q (File []) (root (machine s))\<rparr>\<rparr>"
  have "file_inbox rest ?s1 ms" using assms(3,4) by (simp add: file_inbox_def)
  moreover have "file_sunk p q s ?s1 []"
    unfolding file_sunk_def using assms(1)
    by (intro conjI exI [of _ "rx (sock s)"] exI [of _ "data_buffer (sock s)"]) simp_all
  ultimately obtain s2 k where s2: "download_loop (Some q) 0 n ?s1 = (Inr (), s2)"
    "file_sunk p q s s2 ([] @ take (unat n - unat 0) (concat ms))"
    using file_download.loop_transfers [of rest ?s1 ms p q s "[]" 0 n] assms(5) by auto
  from s2(2) obtain r b where eq: "s2 = s\<lparr>sock := (sock s)\<lparr>rx := r, data_buffer := b\<rparr>,
      machine := (machine s)\<lparr>root := put q (File (take (unat n) (concat ms))) (root (machine s))\<rparr>\<rparr>"
    by (auto simp: file_sunk_def)
  have "writable (sock s2)" using assms(2) by (simp add: eq writable_def)
  then have "on_sock sendACK s2 = (Inr (), s2\<lparr>sock := written (frame ACK) (sock s2)\<rparr>)"
    by (intro on_sock_ok sendACK_ok writable_carries)
  then have "receiveFileImpl p n s = (Inr (), s2\<lparr>sock := written (frame ACK) (sock s2)\<rparr>)"
    using nf(1,2) s2(1) by (simp add: receiveFileImpl_def andthen_def)
  then show ?thesis by (simp add: eq)
qed

subsection \<open>The announcement\<close>

lemma json_get_at:
  "json_get get J j k = Inr x \<Longrightarrow> \<exists>v. json_at J j k = Inr v \<and> get v = Some x"
  by (auto simp: json_get_def json_at_def split: option.splits)

definition base_dir :: "bool \<Rightarrow> host \<Rightarrow> string" where
  "base_dir c h = (if c then temp_dir h else current_path h)"

lemma check_response_ok:
  assumes "json_parse J a = Some j" and "announces J j name n hash c" and "n \<noteq> 0"
    and "\<not> fs_exists h name" and "n \<le> free_space h (base_dir c h)"
  shows "check_response J a h = Inr j"
proof -
  obtain t where "bytesToHumanReadable n = Inr t"
    using bytesToHumanReadable_positive [OF assms(3)] by blast
  moreover obtain v1 where "json_at J j FILENAME_KEY = Inr v1" "json_get_string J v1 = Some name"
    using json_get_at assms(2) unfolding announces_def by metis
  moreover obtain v2 where "json_at J j IS_COMPRESSED_KEY = Inr v2" "json_get_bool J v2 = Some c"
    using json_get_at assms(2) unfolding announces_def by metis
  moreover obtain v3 where "json_at J j FILE_SIZE_KEY = Inr v3" "json_get_size J v3 = Some n"
    using json_get_at assms(2) unfolding announces_def by metis
  moreover have "\<not> free_space h (base_dir c h) < n" using assms(5) by simp
  ultimately show ?thesis using assms(1,2,4)
    by (simp add: check_response_def assertJsonProperties_def announces_def base_dir_def Let_def)
qed

text \<open>What a successful check says.\<close>

lemma check_response_Inr:
  assumes "check_response J a h = Inr j"
  shows "json_parse J a = Some j \<and> (\<exists>name n c. json_get (json_get_string J) J j FILENAME_KEY = Inr name \<and>
    json_get (json_get_size J) J j FILE_SIZE_KEY = Inr n \<and> json_get (json_get_bool J) J j IS_COMPRESSED_KEY = Inr c \<and>
    n \<noteq> 0 \<and> \<not> fs_exists h name \<and> n \<le> free_space h (base_dir c h))"
proof -
  from assms obtain name n c t where 1: "json_parse J a = Some j"
    "json_get (json_get_bool J) J j IS_COMPRESSED_KEY = Inr c" "json_get (json_get_string J) J j FILENAME_KEY = Inr name"
    "json_get (json_get_size J) J j FILE_SIZE_KEY = Inr n" "bytesToHumanReadable n = Inr t"
    "assertJsonProperties J j h = Inr ()"
    by (auto simp: check_response_def sum_bind_Inr_iff split: option.splits)
  obtain v1 v2 v3 where v: "json_at J j FILENAME_KEY = Inr v1" "json_get_string J v1 = Some name"
    "json_at J j IS_COMPRESSED_KEY = Inr v2" "json_get_bool J v2 = Some c"
    "json_at J j FILE_SIZE_KEY = Inr v3" "json_get_size J v3 = Some n"
    using json_get_at 1(2-4) by metis
  have "\<not> fs_exists h name"
    using 1(6) v(1,2) by (auto simp: assertJsonProperties_def split: if_splits)
  moreover from this have "n \<le> free_space h (base_dir c h)"
    using 1(6) v by (auto simp: assertJsonProperties_def base_dir_def Let_def not_less split: if_splits)
  moreover have "n \<noteq> 0" using 1(5) by (auto simp: bytesToHumanReadable_def)
  ultimately show ?thesis using 1 by blast
qed

definition says_yes :: "string \<Rightarrow> bool" where
  "says_yes input \<longleftrightarrow> fst (read_char input) = CHR ''y''"

definition target_path :: "bool \<Rightarrow> host \<Rightarrow> string \<Rightarrow> string" where
  "target_path c h name = path_append (if c then DROP_FILE_RECEIVER_TMP_DIR h else current_path h) name"

lemma getServerResponse_ok:
  assumes "rx (sock s) = frame a @ rest" and "length a \<le> unat BUFFER_SIZE" and "check_response J a (machine s) = Inr j"
  shows "getServerResponse J s = (Inr j, s\<lparr>sock := (sock s)\<lparr>rx := rest\<rparr>\<rparr>)"
  using receive_frame [OF assms(1,2)] assms(3)
  by (simp add: getServerResponse_def andthen_def on_sock_def try_catch_def)

lemma getUserConfirmation_yes:
  assumes "says_yes (interaction s)" and "writable (sock s)"
  shows "getUserConfirmation s = (Inr (), s\<lparr>interaction := snd (read_char (interaction s)), sock := written (frame ACK) (sock s)\<rparr>)"
  using assms sendACK_ok [OF writable_carries [OF assms(2)]]
  by (cases "read_char (interaction s)") (simp add: getUserConfirmation_def says_yes_def on_sock_def)

text \<open>A download that goes through.\<close>

definition offered :: "'j json_api \<Rightarrow> bytes \<Rightarrow> 'j \<Rightarrow> string \<Rightarrow> size_t \<Rightarrow> string \<Rightarrow> bool \<Rightarrow> host \<Rightarrow> bool" where
  "offered J a j name n hash c h \<longleftrightarrow> length a \<le> unat BUFFER_SIZE \<and> json_parse J a = Some j \<and>
     announces J j name n hash c \<and> n \<noteq> 0 \<and> \<not> fs_exists h name \<and> n \<le> free_space h (base_dir c h)"

lemma download_ok:
  assumes "evp_laws E digest" and "json_dump J (createReceiveMessage J code) = Some t" and "length t < 2 ^ 64"
    and "writable (sock s)" and "rx (sock s) = frame a @ concat (map frame ms) @ rest"
    and "offered J a j name n (binaryToHumanReadable (digest (take (unat n) (concat ms)))) c (machine s)"
    and "says_yes (interaction s)" and "new_file (machine s) (target_path c (machine s) name) q"
    and "short_messages ms" and "unat n \<le> length (concat ms)"
  shows "\<exists>s'. download E J code s = (Inr (c, target_path c (machine s) name), s') \<and>
    tx (sock s') = tx (sock s) @ wire t @ frame ACK @ frame ACK \<and>
    machine s' = (machine s)\<lparr>root := put q (File (take (unat n) (concat ms))) (root (machine s))\<rparr>"
proof -
  let ?p = "target_path c (machine s) name" and ?d = "take (unat n) (concat ms)"
  let ?s1 = "s\<lparr>sock := written (wire t) (sock s)\<rparr>"
  let ?s2 = "s\<lparr>sock := (written (wire t) (sock s))\<lparr>rx := concat (map frame ms) @ rest\<rparr>\<rparr>"
  have 1: "on_sock (send t) s = (Inr (), ?s1)"
    using assms(3,4) by (intro on_sock_ok send_ok writable_carries)
  have "check_response J a (machine s) = Inr j"
    using assms(6) unfolding offered_def by (elim conjE) (rule check_response_ok)
  then have 2: "getServerResponse J ?s1 = (Inr j, ?s2)"
    using getServerResponse_ok [of ?s1 a "concat (map frame ms) @ rest" J j] assms(5,6)
    by (simp add: offered_def)
  have "writable (sock ?s2)" using assms(4) by (simp add: writable_def written_def)
  then obtain s3 where 3: "getUserConfirmation ?s2 = (Inr (), s3)" "machine s3 = machine s"
    "sock s3 = written (frame ACK) ((written (wire t) (sock s))\<lparr>rx := concat (map frame ms) @ rest\<rparr>)"
    using getUserConfirmation_yes [of ?s2] assms(7) by simp
  have nf: "new_file (machine s3) ?p q" and wr: "writable (sock s3)"
    and rx: "rx (sock s3) = concat (map frame ms) @ rest"
    using assms(4,8) by (simp_all add: 3 writable_def written_def)
  obtain s4 where 4: "receiveFileImpl ?p n s3 = (Inr (), s4)" "tx (sock s4) = tx (sock s3) @ frame ACK"
    "machine s4 = (machine s)\<lparr>root := put q (File ?d) (root (machine s))\<rparr>"
    using receiveFileImpl_ok [OF nf wr rx assms(9,10)] 3(2) by auto
  have "open_in (machine s4) ?p = Some ?d" unfolding 4(3) using assms(8) by (rule new_file_open_in)
  then have 5: "validateFileHash E ?p (binaryToHumanReadable (digest ?d)) (machine s4) = Inr ()"
    using calculateFileHash_ok [OF assms(1)] by (simp add: validateFileHash_def)
  have path: "path_append (if c then DROP_FILE_RECEIVER_TMP_DIR (machine s3) else current_path (machine s3)) name = ?p"
    by (simp add: 3(2) target_path_def)
  have "download E J code s = (Inr (c, ?p), s4)"
    using assms(2,6) 1 2 3(1) 4(1) 5 path
    by (simp add: download_def offered_def announces_def andthen_def)
  then show ?thesis using 4(2,3) 3(3) by simp
qed

section \<open>Properties\<close>

text \<open>
  A file arrives under its name: if the announcement is acceptable, the user agrees, and the
  server's messages hold the announced number of bytes with the announced digest, \<open>receiveFile\<close>
  succeeds; the machine has gained exactly the file with these bytes, and the server has been sent
  the request and the two acknowledgements.
\<close>

theorem receiveFile_plain:
  assumes "evp_laws E digest" and "json_dump J (createReceiveMessage J code) = Some t" and "length t < 2 ^ 64"
    and "writable (sock s)" and "rx (sock s) = frame a @ concat (map frame ms) @ rest"
    and "offered J a j name n (binaryToHumanReadable (digest (take (unat n) (concat ms)))) False (machine s)"
    and "says_yes (interaction s)" and "new_file (machine s) (path_append (current_path (machine s)) name) q"
    and "short_messages ms" and "unat n \<le> length (concat ms)"
  shows "\<exists>s'. receiveFile E Z J code s = Some (Inr (), s') \<and>
    tx (sock s') = tx (sock s) @ wire t @ frame ACK @ frame ACK \<and>
    machine s' = (machine s)\<lparr>root := put q (File (take (unat n) (concat ms))) (root (machine s))\<rparr>"
proof -
  have nf: "new_file (machine s) (target_path False (machine s) name) q"
    using assms(8) by (simp add: target_path_def)
  obtain s' where s': "download E J code s = (Inr (False, target_path False (machine s) name), s')"
    "tx (sock s') = tx (sock s) @ wire t @ frame ACK @ frame ACK"
    "machine s' = (machine s)\<lparr>root := put q (File (take (unat n) (concat ms))) (root (machine s))\<rparr>"
    using download_ok [OF assms(1-7) nf assms(9,10)] by blast
  then have "receiveFile E Z J code s = Some (Inr (), s')"
    by (simp add: receiveFile_def handleCompressedFile_def)
  with s' show ?thesis by blast
qed

text \<open>A receiver that has been offered the four bytes \<open>data\<close> under a name.\<close>

definition offer_json :: "string \<Rightarrow> flat" where
  "offer_json name = json_object flat_json (send_fields name 4 (binaryToHumanReadable ''data'') False)"

definition sample_receiver :: "string \<Rightarrow> bytes list \<Rightarrow> string \<Rightarrow> receiver" where
  "sample_receiver name ms input =
     \<lparr>sock = \<lparr>rx = frame (put_flat (offer_json name)) @ concat (map frame ms), tx = [], tx_open = True,
        tx_quota = None, data_buffer = []\<rparr>,
      machine = Utils.sample_host, interaction = input\<rparr>"

lemma offer_json_size: "length name \<le> 100 \<Longrightarrow> length (put_flat (offer_json name)) \<le> 1048576"
proof -
  assume n: "length name \<le> 100"
  let ?f = "send_fields name 4 (binaryToHumanReadable ''data'') False"
  have "distinct (map fst ?f)" "?f \<noteq> []" by (simp_all add: send_fields_def key_defs)
  then show ?thesis using n
    by (simp add: offer_json_def flat_object) (simp add: send_fields_def key_defs put_text_def binaryToHumanReadable_def)
qed

lemma sample_receiver_facts:
  assumes "length name \<le> 100" and "\<not> fs_exists Utils.sample_host name"
    and "new_file Utils.sample_host (path_append ''/home'' name) q"
  defines "s \<equiv> sample_receiver name [''dat'', ''a+''] ''y''"
  shows "writable (sock s)"
    and "rx (sock s) = frame (put_flat (offer_json name)) @ concat (map frame [''dat'', ''a+'']) @ []"
    and "offered flat_json (put_flat (offer_json name)) (offer_json name) name 4
      (binaryToHumanReadable (take 4 (take (unat (4 :: size_t)) (concat [''dat'', ''a+''])))) False (machine s)"
    and "says_yes (interaction s)" and "new_file (machine s) (path_append (current_path (machine s)) name) q"
    and "short_messages [''dat'', ''a+'']" and "unat (4 :: size_t) \<le> length (concat [''dat'', ''a+''])"
  using offer_json_size [OF assms(1)] assms(2,3) send_fields_object(2) [OF flat_json_laws]
  by (simp_all add: s_def offered_def offer_json_def base_dir_def sample_receiver_def Utils.sample_host_def
      writable_def says_yes_def read_char_def is_space_def current_path_def)

lemma sample_request:
  "json_dump flat_json (createReceiveMessage flat_json ''red-fox'') = Some (put_flat (createReceiveMessage flat_json ''red-fox''))"
  "length (put_flat (createReceiveMessage flat_json ''red-fox'')) < 2 ^ 64"
  by (simp_all add: createReceiveMessage_def put_text_def key_defs)

theorem receiveFile_plain_witness:
  "\<exists>s'. receiveFile take4_evp held_zstd flat_json ''red-fox'' (sample_receiver ''g'' [''dat'', ''a+''] ''y'') = Some (Inr (), s') \<and>
     open_in (machine s') ''/home/g'' = Some ''data''"
proof -
  have nx: "\<not> fs_exists Utils.sample_host ''g''"
    by (simp add: Utils.sample_host_def fs_exists_def stat_def resolve_def is_absolute_def)
  have p: "path_append ''/home'' ''g'' = ''/home/g''"
    by (simp add: path_append_def is_absolute_def filename_def)
  have nf: "new_file Utils.sample_host ''/home/g'' [''home'', ''g'']"
    by (simp add: new_file_def Utils.sample_host_def resolve_def is_absolute_def)
  have "new_file Utils.sample_host (path_append ''/home'' ''g'') [''home'', ''g'']" using nf by (simp only: p)
  note f = sample_receiver_facts [OF _ nx this, simplified list.size]
  obtain s' where s': "receiveFile take4_evp held_zstd flat_json ''red-fox'' (sample_receiver ''g'' [''dat'', ''a+''] ''y'') = Some (Inr (), s')"
    "machine s' = Utils.sample_host\<lparr>root := put [''home'', ''g''] (File (take (unat (4 :: size_t)) (concat [''dat'', ''a+''])))
       (root Utils.sample_host)\<rparr>"
    using receiveFile_plain [OF take4_evp_laws sample_request f(1-7)] by (auto simp: sample_receiver_def)
  have "open_in (machine s') ''/home/g'' = Some (take (unat (4 :: size_t)) (concat [''dat'', ''a+'']))"
    unfolding s'(2) using nf by (rule new_file_open_in)
  with s'(1) show ?thesis by simp
qed

text \<open>
  C38. The name in the announcement is not checked: an absolute name replaces the working directory,
  so a server or a sender can have a new file created anywhere on the receiver's machine.
\<close>

theorem receiveFile_escapes:
  assumes "evp_laws E digest" and "json_dump J (createReceiveMessage J code) = Some t" and "length t < 2 ^ 64"
    and "writable (sock s)" and "rx (sock s) = frame a @ concat (map frame ms) @ rest"
    and "is_absolute name"
    and "offered J a j name n (binaryToHumanReadable (digest (take (unat n) (concat ms)))) False (machine s)"
    and "says_yes (interaction s)" and "new_file (machine s) name q"
    and "short_messages ms" and "unat n \<le> length (concat ms)"
  shows "\<exists>s'. receiveFile E Z J code s = Some (Inr (), s') \<and>
    open_in (machine s') name = Some (take (unat n) (concat ms))"
proof -
  have nf: "new_file (machine s) (target_path False (machine s) name) q"
    using assms(6,9) by (simp add: target_path_def path_append_def)
  obtain s' where s': "download E J code s = (Inr (False, target_path False (machine s) name), s')"
    "machine s' = (machine s)\<lparr>root := put q (File (take (unat n) (concat ms))) (root (machine s))\<rparr>"
    using download_ok [OF assms(1-5) assms(7,8) nf assms(10,11)] by blast
  then have "receiveFile E Z J code s = Some (Inr (), s')"
    by (simp add: receiveFile_def handleCompressedFile_def)
  with new_file_open_in [OF assms(9)] s'(2) show ?thesis by auto
qed

theorem receiveFile_escapes_witness:
  "\<exists>s'. receiveFile take4_evp held_zstd flat_json ''red-fox'' (sample_receiver ''/tmp/x'' [''dat'', ''a+''] ''y'') = Some (Inr (), s') \<and>
     open_in (machine s') ''/tmp/x'' = Some (take 4 (concat [''dat'', ''a+'']))"
proof -
  have nx: "\<not> fs_exists Utils.sample_host ''/tmp/x''"
    by (simp add: Utils.sample_host_def fs_exists_def stat_def resolve_def is_absolute_def)
  have p: "path_append ''/home'' ''/tmp/x'' = ''/tmp/x''" by (simp add: path_append_def is_absolute_def)
  have nf: "new_file Utils.sample_host ''/tmp/x'' [''tmp'', ''x'']"
    by (simp add: new_file_def Utils.sample_host_def resolve_def is_absolute_def)
  have "new_file Utils.sample_host (path_append ''/home'' ''/tmp/x'') [''tmp'', ''x'']" using nf by (simp only: p)
  note f = sample_receiver_facts [OF _ nx this, simplified list.size]
  have nf': "new_file (machine (sample_receiver ''/tmp/x'' [''dat'', ''a+''] ''y'')) ''/tmp/x'' [''tmp'', ''x'']"
    using nf by (simp add: sample_receiver_def)
  have ab: "is_absolute ''/tmp/x''" by (simp add: is_absolute_def)
  show ?thesis
    using receiveFile_escapes [OF take4_evp_laws sample_request f(1,2) ab f(3,4) nf' f(6,7)] by simp
qed

lemma declined_with:
  assumes "json_dump J (createReceiveMessage J code) = Some t" and "length t < 2 ^ 64"
    and "writable (sock s)" and "rx (sock s) = frame a @ rest" and "offered J a j name n hash c (machine s)"
    and "read_char (interaction s) = (k, input)" and "\<not> says_yes (interaction s)"
  shows "\<exists>s'. receiveFile E Z J code s = Some (Inl (DropFileReceiveException (''Entered '' @ [CHR 0x27, k, CHR 0x27] @ '', aborting.'')), s') \<and>
    tx (sock s') = tx (sock s) @ wire t @ frame ''abort'' \<and> machine s' = machine s"
proof -
  let ?s1 = "s\<lparr>sock := written (wire t) (sock s)\<rparr>"
  let ?s2 = "s\<lparr>sock := (written (wire t) (sock s))\<lparr>rx := rest\<rparr>\<rparr>"
  have 1: "on_sock (send t) s = (Inr (), ?s1)"
    using assms(2,3) by (intro on_sock_ok send_ok writable_carries)
  have "check_response J a (machine s) = Inr j"
    using assms(5) unfolding offered_def by (elim conjE) (rule check_response_ok)
  then have 2: "getServerResponse J ?s1 = (Inr j, ?s2)"
    using getServerResponse_ok [of ?s1 a rest J j] assms(4,5) by (simp add: offered_def)
  have k: "k \<noteq> CHR ''y''" using assms(6,7) by (simp add: says_yes_def)
  let ?s3 = "?s2\<lparr>interaction := input\<rparr>"
  have "writable (sock ?s3)" using assms(3) by (simp add: writable_def written_def)
  then have "send ''abort'' (sock ?s3) = (Inr (), written (frame ''abort'') (sock ?s3))"
    by (intro send_short writable_carries) simp_all
  then obtain s4 where 3: "getUserConfirmation ?s2 = (Inl (DropFileReceiveException (''Entered '' @ [CHR 0x27, k, CHR 0x27] @ '', aborting.'')), s4)"
    "sock s4 = written (frame ''abort'') (sock ?s2)" "machine s4 = machine s"
    using k assms(6) by (simp add: getUserConfirmation_def andthen_def on_sock_def)
  have "download E J code s = (Inl (DropFileReceiveException (''Entered '' @ [CHR 0x27, k, CHR 0x27] @ '', aborting.'')), s4)"
    using assms(1) 1 2 3(1) by (simp add: download_def andthen_def)
  then have "receiveFile E Z J code s = Some (Inl (DropFileReceiveException (''Entered '' @ [CHR 0x27, k, CHR 0x27] @ '', aborting.'')), s4)"
    by (simp add: receiveFile_def)
  moreover have "tx (sock s4) = tx (sock s) @ wire t @ frame ''abort''" using 3(2) by simp
  ultimately show ?thesis using 3(3) by blast
qed

text \<open>
  Nothing happens without consent: whatever the user types first, unless it is a \<open>y\<close>, the server
  is told \<open>abort\<close>, the call throws, and no byte of the machine has changed.
\<close>

theorem declined_download:
  assumes "json_dump J (createReceiveMessage J code) = Some t" and "length t < 2 ^ 64"
    and "writable (sock s)" and "rx (sock s) = frame a @ rest" and "offered J a j name n hash c (machine s)"
    and "\<not> says_yes (interaction s)"
  shows "\<exists>s' k. receiveFile E Z J code s = Some (Inl (DropFileReceiveException (''Entered '' @ [CHR 0x27, k, CHR 0x27] @ '', aborting.'')), s') \<and>
    tx (sock s') = tx (sock s) @ wire t @ frame ''abort'' \<and> machine s' = machine s"
proof -
  obtain k input where "read_char (interaction s) = (k, input)" by fastforce
  from declined_with [OF assms(1-5) this assms(6)] show ?thesis by blast
qed

theorem declined_download_witness:
  "\<exists>s' k. receiveFile take4_evp held_zstd flat_json ''red-fox'' (sample_receiver ''g'' [''dat'', ''a+''] '' n'') =
     Some (Inl (DropFileReceiveException (''Entered '' @ [CHR 0x27, k, CHR 0x27] @ '', aborting.'')), s') \<and>
     machine s' = Utils.sample_host"
proof -
  let ?s = "sample_receiver ''g'' [''dat'', ''a+''] '' n''"
  have nx: "\<not> fs_exists Utils.sample_host ''g''"
    by (simp add: Utils.sample_host_def fs_exists_def stat_def resolve_def is_absolute_def)
  have "offered flat_json (put_flat (offer_json ''g'')) (offer_json ''g'') ''g'' 4 (binaryToHumanReadable ''data'') False (machine ?s)"
    using offer_json_size [of "''g''"] nx send_fields_object(2) [OF flat_json_laws]
    by (simp add: offered_def offer_json_def base_dir_def sample_receiver_def Utils.sample_host_def)
  moreover have "\<not> says_yes (interaction ?s)"
    by (simp add: sample_receiver_def says_yes_def read_char_def is_space_def)
  ultimately show ?thesis
    using declined_download [OF sample_request, of ?s]
    by (fastforce simp: sample_receiver_def writable_def)
qed

section \<open>Whatever the server sends\<close>

lemma download_loop_any:
  assumes "new_file h p q"
  shows "download_loop (Some q) got expected s = (r, s') \<Longrightarrow>
    machine s = h\<lparr>root := put q (File out) (root h)\<rparr> \<Longrightarrow> unat got = length out \<Longrightarrow> got \<le> expected \<Longrightarrow>
    \<exists>d. machine s' = h\<lparr>root := put q (File d) (root h)\<rparr> \<and> length d \<le> unat expected \<and> (r = Inr () \<longrightarrow> length d = unat expected)"
proof (induction "length (rx (sock s))" arbitrary: s got out rule: less_induct)
  case less
  have gl: "unat got \<le> unat expected" using less.prems(4) by (simp add: word_le_nat_alt)
  show ?case
  proof (cases "got < expected")
    case False
    then have "r = Inr ()" "s' = s" using less.prems(1) by (simp_all add: download_loop.simps)
    moreover have "got = expected" using False less.prems(4) by simp
    ultimately show ?thesis using less.prems(2,3) by auto
  next
    case True
    then have e0: "expected \<noteq> 0" by (metis word_not_simps(1))
    obtain r1 s1 where rb: "on_sock receiveToBuffer s = (r1, s1)" by fastforce
    then have m1: "machine s1 = h\<lparr>root := put q (File out) (root h)\<rparr>"
      using less.prems(2) on_sock_machine [of receiveToBuffer s] by simp
    show ?thesis
    proof (cases r1)
      case (Inl e)
      then have "r = Inl e" "s' = s1" using less.prems(1) True rb by (simp_all add: download_loop.simps)
      then show ?thesis using m1 less.prems(3) gl by auto
    next
      case (Inr m)
      let ?w = "min (expected - got) (of_nat (length m)) :: size_t"
      let ?d = "take (unat ?w) m"
      let ?s2 = "s1\<lparr>machine := append_file q ?d (machine s1)\<rparr>"
      have "length m \<le> unat BUFFER_SIZE"
        using receiveToBuffer_success on_sock_sock rb Inr by metis
      then have lm: "unat (of_nat (length m) :: size_t) = length m" by (intro unat_of_nat_size) simp
      have "unat (expected - got) = unat expected - unat got" using less.prems(4) by (simp add: unat_sub)
      then have w: "unat ?w = min (unat expected - unat got) (length m)" using lm by (auto simp: min_def word_le_nat_alt)
      have "unat got + unat ?w \<le> unat expected" using w gl by simp
      moreover have "unat expected < 2 ^ 64" using unsigned_less [of expected, where ?'a = nat] by simp
      ultimately have tw: "unat (got + ?w) = unat got + unat ?w" by (intro unat_add_lem [THEN iffD1]) simp
      have "got + ?w \<le> expected" using tw w gl by (simp add: word_le_nat_alt)
      moreover have "unat (got + ?w) = length (out @ ?d)" using tw less.prems(3) w by simp
      moreover have "machine ?s2 = h\<lparr>root := put q (File (out @ ?d)) (root h)\<rparr>"
        using append_new_file [OF assms] by (simp add: m1)
      moreover have "length (rx (sock ?s2)) < length (rx (sock s))"
        using receiveToBuffer_less rb Inr by fastforce
      moreover have "download_loop (Some q) (got + ?w) expected ?s2 = (r, s')"
        using less.prems(1) True rb Inr e0 by (simp add: download_loop.simps [of _ got] write_out_def Let_def)
      ultimately show ?thesis using less.hyps [of ?s2 "got + ?w" "out @ ?d"] by blast
    qed
  qed
qed

lemma download_loop_unopened: "download_loop None got expected s = (r, s') \<Longrightarrow> machine s' = machine s"
proof (induction "length (rx (sock s))" arbitrary: s got rule: less_induct)
  case less
  show ?case
  proof (cases "got < expected")
    case True
    then have e0: "expected \<noteq> 0" by (metis word_not_simps(1))
    obtain r1 s1 where rb: "on_sock receiveToBuffer s = (r1, s1)" by fastforce
    then have m1: "machine s1 = machine s" using on_sock_machine [of receiveToBuffer s] by simp
    show ?thesis
    proof (cases r1)
      case (Inl e)
      then show ?thesis using less.prems True rb m1 by (simp add: download_loop.simps)
    next
      case (Inr m)
      then have "length (rx (sock s1)) < length (rx (sock s))" using rb receiveToBuffer_less by blast
      moreover have "download_loop None (got + min (expected - got) (of_nat (length m))) expected s1 = (r, s')"
        using less.prems True rb Inr e0 by (simp add: download_loop.simps [of _ got] write_out_def Let_def)
      ultimately show ?thesis using less.hyps m1 by metis
    qed
  qed (use less.prems in \<open>simp add: download_loop.simps\<close>)
qed

lemma andthen_ack:
  assumes "andthen p (\<lambda>_. on_sock sendACK) s = (r, s')"
  shows "\<exists>r1 s1. p s = (r1, s1) \<and> machine s' = machine s1 \<and> (r = Inr () \<longrightarrow> r1 = Inr ())"
  using assms
proof (cases rule: andthen_cases)
  case (ok x s1)
  then have "machine s' = machine s1" using on_sock_machine [of sendACK s1] by simp
  with ok show ?thesis by simp
qed auto

lemma receiveFileImpl_any:
  assumes "receiveFileImpl p n s = (r, s')"
  shows "machine s' = machine s \<and> (r = Inr () \<longrightarrow> open_in (machine s) p = None) \<or>
    (\<exists>q d. new_file (machine s) p q \<and> machine s' = (machine s)\<lparr>root := put q (File d) (root (machine s))\<rparr> \<and>
      length d \<le> unat n \<and> (r = Inr () \<longrightarrow> length d = unat n))"
proof (cases "fs_exists (machine s) p")
  case True
  then show ?thesis using assms by (auto simp: receiveFileImpl_def)
next
  case False
  then have none: "open_in (machine s) p = None" by (simp add: fs_exists_def open_in_def)
  show ?thesis
  proof (cases "open_out p (machine s)")
    case None
    then have "andthen (download_loop None 0 n) (\<lambda>_. on_sock sendACK) s = (r, s')"
      using assms False by (simp add: receiveFileImpl_def)
    from andthen_ack [OF this] download_loop_unopened show ?thesis using none by metis
  next
    case (Some hq)
    then obtain h1 q where o: "open_out p (machine s) = Some (h1, q)" by (cases hq) auto
    have nf: "new_file (machine s) p q" using False o by (rule new_fileI)
    let ?s1 = "s\<lparr>machine := (machine s)\<lparr>root := put q (File []) (root (machine s))\<rparr>\<rparr>"
    have "andthen (download_loop (Some q) 0 n) (\<lambda>_. on_sock sendACK) ?s1 = (r, s')"
      using assms False new_file_facts(2) [OF nf] by (simp add: receiveFileImpl_def)
    from andthen_ack [OF this] obtain r1 s2 where 2: "download_loop (Some q) 0 n ?s1 = (r1, s2)"
      "machine s' = machine s2" "r = Inr () \<longrightarrow> r1 = Inr ()" by blast
    have "\<exists>d. machine s2 = (machine s)\<lparr>root := put q (File d) (root (machine s))\<rparr> \<and> length d \<le> unat n \<and>
        (r1 = Inr () \<longrightarrow> length d = unat n)"
      using download_loop_any [OF nf 2(1), of "[]"] by simp
    then show ?thesis using 2(2,3) nf by auto
  qed
qed

text \<open>What was offered, and what a download may have left behind.\<close>

definition offers :: "'j json_api \<Rightarrow> receiver \<Rightarrow> 'j \<Rightarrow> string \<Rightarrow> size_t \<Rightarrow> bool \<Rightarrow> bool" where
  "offers J s j name n c \<longleftrightarrow>
     (\<exists>a rest. rx (sock s) = frame a @ rest \<and> json_parse J a = Some j) \<and>
     json_get (json_get_string J) J j FILENAME_KEY = Inr name \<and>
     json_get (json_get_size J) J j FILE_SIZE_KEY = Inr n \<and>
     json_get (json_get_bool J) J j IS_COMPRESSED_KEY = Inr c \<and>
     n \<noteq> 0 \<and> \<not> fs_exists (machine s) name \<and> n \<le> free_space (machine s) (base_dir c (machine s))"

lemma getServerResponse_any:
  assumes "getServerResponse J s = (r, s')"
  shows "machine s' = machine s \<and>
    (\<forall>j. r = Inr j \<longrightarrow> s' = s\<lparr>sock := sock s'\<rparr> \<and> (\<exists>a rest. rx (sock s) = frame a @ rest \<and> check_response J a (machine s) = Inr j))"
  using assms unfolding getServerResponse_def
proof (cases rule: andthen_cases)
  case (error e)
  then have "machine s' = machine s" using on_sock_machine [of receive s] by simp
  with error show ?thesis by simp
next
  case (ok a s1)
  then have m1: "machine s1 = machine s" using on_sock_machine [of receive s] by simp
  from on_sock_sock [OF ok(1)] have "receive (sock s) = (Inr a, sock s1)" and s1: "s1 = s\<lparr>sock := sock s1\<rparr>" by simp_all
  then have rx: "rx (sock s) = frame a @ rx (sock s1)" using receive_success by blast
  have s': "s' = s1" using ok(2) by (auto simp: try_catch_def split: sum.splits error.splits)
  have "r = Inr j \<Longrightarrow> check_response J a (machine s) = Inr j" for j
    using ok(2) m1 by (auto simp: try_catch_def split: sum.splits error.splits)
  with m1 s' s1 rx show ?thesis by blast
qed

lemma getUserConfirmation_any:
  assumes "getUserConfirmation s = (r, s')"
  shows "machine s' = machine s \<and> (r = Inr () \<longrightarrow> says_yes (interaction s))"
proof -
  obtain k input where k: "read_char (interaction s) = (k, input)" by fastforce
  show ?thesis
  proof (cases "k = CHR ''y''")
    case True
    then have "machine s' = machine (s\<lparr>interaction := input\<rparr>)"
      using assms k on_sock_machine [of sendACK "s\<lparr>interaction := input\<rparr>"] by (simp add: getUserConfirmation_def)
    then show ?thesis using True k by (simp add: says_yes_def)
  next
    case False
    then have "andthen (on_sock (send ''abort'')) (\<lambda>_. throw (DropFileReceiveException
        (''Entered '' @ [CHR 0x27, k, CHR 0x27] @ '', aborting.''))) (s\<lparr>interaction := input\<rparr>) = (r, s')"
      using assms k by (simp add: getUserConfirmation_def)
    then show ?thesis
      by (cases rule: andthen_cases) (auto simp: on_sock_def split: prod.splits)
  qed
qed

lemma download_any:
  assumes "evp_laws E digest" and "download E J code s = (r, s')"
  shows "machine s' = machine s \<and> (\<exists>e. r = Inl e) \<or>
    (\<exists>j name n c q d. offers J s j name n c \<and> says_yes (interaction s) \<and>
      new_file (machine s) (target_path c (machine s) name) q \<and>
      machine s' = (machine s)\<lparr>root := put q (File d) (root (machine s))\<rparr> \<and> length d \<le> unat n \<and>
      (\<forall>x. r = Inr x \<longrightarrow> x = (c, target_path c (machine s) name) \<and> length d = unat n \<and>
         json_get (json_get_string J) J j FILE_HASH_KEY = Inr (binaryToHumanReadable (digest d))))"
  using assms(2) unfolding download_def
proof (cases rule: andthen_cases)
  case (error e)
  then show ?thesis by (auto simp: of_option_def split: option.splits)
next
  case (ok t s0)
  then have s0: "s0 = s" by (auto simp: of_option_def split: option.splits)
  from ok(2) show ?thesis unfolding s0
  proof (cases rule: andthen_cases)
    case (error e)
    then show ?thesis using on_sock_machine [of "send t" s] by simp
  next
    case sent: (ok u s1)
    from on_sock_sock [OF sent(1)] have k1: "send t (sock s) = (Inr u, sock s1)" and s1: "s1 = s\<lparr>sock := sock s1\<rparr>" by simp_all
    have m1: "machine s1 = machine s" "interaction s1 = interaction s" by (subst s1, simp)+
    have rx1: "rx (sock s1) = rx (sock s)" using send_any_rx [OF k1] .
    from sent(2) show ?thesis
    proof (cases rule: andthen_cases)
      case (error e)
      then show ?thesis using getServerResponse_any [OF error(1)] m1 by simp
    next
      case resp: (ok j s2)
      from getServerResponse_any [OF resp(1)] m1 rx1 obtain a rest where
        m2: "machine s2 = machine s" "interaction s2 = interaction s"
        and a: "rx (sock s) = frame a @ rest" "check_response J a (machine s) = Inr j"
        by (metis receiver.select_convs(1) receiver.surjective client.update_convs(1))
      have "\<exists>a rest. rx (sock s) = frame a @ rest \<and> json_parse J a = Some j"
        using a check_response_Inr [OF a(2)] by blast
      then obtain name n c where o: "offers J s j name n c"
        using check_response_Inr [OF a(2)] unfolding offers_def by blast
      then have get: "json_get (json_get_string J) J j FILENAME_KEY = Inr name"
        "json_get (json_get_size J) J j FILE_SIZE_KEY = Inr n" "json_get (json_get_bool J) J j IS_COMPRESSED_KEY = Inr c"
        by (simp_all add: offers_def)
      from resp(2) show ?thesis
      proof (cases rule: andthen_cases)
        case (error e)
        then show ?thesis using getUserConfirmation_any [OF error(1)] m2 by simp
      next
        case conf: (ok v s3)
        from getUserConfirmation_any [OF conf(1)] m2 have m3: "machine s3 = machine s" and yes: "says_yes (interaction s)"
          by auto
        let ?p = "target_path c (machine s) name"
        have tp: "path_append (if c then DROP_FILE_RECEIVER_TMP_DIR (machine s3) else current_path (machine s3)) name = ?p"
          by (simp add: target_path_def m3)
        let ?p3 = "path_append (if c then DROP_FILE_RECEIVER_TMP_DIR (machine s3) else current_path (machine s3)) name"
        have "andthen (receiveFileImpl ?p3 n) (\<lambda>_.
            andthen (of_sum (json_get (json_get_string J) J j FILE_HASH_KEY)) (\<lambda>hash.
            andthen (ask (validateFileHash E ?p3 hash)) (\<lambda>_. ret (c, ?p3)))) s3 = (r, s')"
          using conf(2) get by (simp add: andthen_def)
        note run = this [unfolded tp]
        obtain r4 s4 where 4: "receiveFileImpl ?p n s3 = (r4, s4)" by fastforce
        have s': "s' = s4" using run 4 by (auto simp: andthen_def split: sum.splits)
        have rx: "\<exists>hash. r4 = Inr () \<and> x = (c, ?p) \<and> json_get (json_get_string J) J j FILE_HASH_KEY = Inr hash \<and>
            validateFileHash E ?p hash (machine s4) = Inr ()" if "r = Inr x" for x
          using run 4 that by (auto simp: andthen_def split: sum.splits)
        from receiveFileImpl_any [OF 4] m3 consider
          (untouched) "machine s4 = machine s" "r4 = Inr () \<longrightarrow> open_in (machine s) ?p = None"
          | (written) q d where "new_file (machine s) ?p q" "machine s4 = (machine s)\<lparr>root := put q (File d) (root (machine s))\<rparr>"
            "length d \<le> unat n" "r4 = Inr () \<longrightarrow> length d = unat n" by auto
        then show ?thesis
        proof cases
          case untouched
          have "\<exists>e. r = Inl e"
          proof (cases r)
            case (Inr x)
            from rx [OF this] obtain hash where "open_in (machine s4) ?p = None" "validateFileHash E ?p hash (machine s4) = Inr ()"
              using untouched by auto
            then show ?thesis using calculateFileHash_missing [OF assms(1)] by (simp add: validateFileHash_def)
          qed auto
          then show ?thesis using untouched(1) s' by simp
        next
          case (written q d)
          have "open_in (machine s4) ?p = Some d" unfolding written(2) using written(1) by (rule new_file_open_in)
          then have "json_get (json_get_string J) J j FILE_HASH_KEY = Inr (binaryToHumanReadable (digest d))"
            if "r = Inr x" for x
            using rx [OF that] calculateFileHash_ok [OF assms(1)] by (auto simp: validateFileHash_def split: if_splits)
          then show ?thesis using o yes written rx s' by blast
        qed
      qed
    qed
  qed
qed

text \<open>
  C9. Whatever the server sends and the user types: unless an acceptable announcement was confirmed,
  the machine is left as it was and the call does not succeed.  Otherwise at most one file is made, a
  new one with at most the announced number of bytes; the call succeeds, and an archive is unpacked,
  only if the file has exactly the announced size and the announced digest.
\<close>

theorem receiveFile_safe:
  assumes "evp_laws E digest" and "receiveFile E Z J code s = Some (r, s')"
  shows "machine s' = machine s \<and> r \<noteq> Inr () \<or>
    (\<exists>j name n c q d h. offers J s j name n c \<and> says_yes (interaction s) \<and>
      new_file (machine s) (target_path c (machine s) name) q \<and>
      h = (machine s)\<lparr>root := put q (File d) (root (machine s))\<rparr> \<and> length d \<le> unat n \<and>
      (machine s' = h \<and> r \<noteq> Inr () \<or>
       length d = unat n \<and> json_get (json_get_string J) J j FILE_HASH_KEY = Inr (binaryToHumanReadable (digest d)) \<and>
       handleCompressedFile Z c (target_path c (machine s) name) h = Some (r, machine s')))"
proof -
  obtain r1 s1 where dl: "download E J code s = (r1, s1)" by fastforce
  have outcome: "case r1 of Inl e \<Rightarrow> r = Inl e \<and> s' = s1
      | Inr x \<Rightarrow> handleCompressedFile Z (fst x) (snd x) (machine s1) = Some (r, machine s')"
    using assms(2) dl by (auto simp: receiveFile_def split: sum.splits prod.splits)
  from download_any [OF assms(1) dl] show ?thesis
  proof (elim disjE exE conjE)
    fix e assume "machine s1 = machine s" "r1 = Inl e"
    then show ?thesis using outcome by simp
  next
    fix j name n c q d
    assume o: "offers J s j name n c" "says_yes (interaction s)"
      "new_file (machine s) (target_path c (machine s) name) q"
      "machine s1 = (machine s)\<lparr>root := put q (File d) (root (machine s))\<rparr>" "length d \<le> unat n"
      and fin: "\<forall>x. r1 = Inr x \<longrightarrow> x = (c, target_path c (machine s) name) \<and> length d = unat n \<and>
         json_get (json_get_string J) J j FILE_HASH_KEY = Inr (binaryToHumanReadable (digest d))"
    have "machine s' = machine s1 \<and> r \<noteq> Inr () \<or>
       length d = unat n \<and> json_get (json_get_string J) J j FILE_HASH_KEY = Inr (binaryToHumanReadable (digest d)) \<and>
       handleCompressedFile Z c (target_path c (machine s) name) (machine s1) = Some (r, machine s')"
      using outcome fin by (cases r1) auto
    then show ?thesis using o unfolding o(4) by blast
  qed
qed

definition lied_to :: receiver where
  "lied_to = (sample_receiver ''g'' [] ''y'')\<lparr>sock := \<lparr>rx = ''garbage'', tx = [], tx_open = True, tx_quota = None,
     data_buffer = []\<rparr>\<rparr>"

theorem receiveFile_safe_witness:
  "\<exists>r s'. receiveFile take4_evp held_zstd flat_json ''red-fox'' lied_to = Some (r, s') \<and>
     machine s' = Utils.sample_host \<and> r \<noteq> Inr ()"
proof -
  have none: "\<not> offers flat_json lied_to j name n c" for j name n c
  proof
    assume "offers flat_json lied_to j name n c"
    then obtain a rest where "''garbage'' = frame a @ rest" by (auto simp: offers_def lied_to_def)
    then have "length ''garbage'' = length (frame a @ rest)" by simp
    then show False by simp
  qed
  obtain r1 s1 where dl: "download take4_evp flat_json ''red-fox'' lied_to = (r1, s1)" by fastforce
  then obtain e where "r1 = Inl e" using download_any [OF take4_evp_laws dl] none by blast
  then have rf: "receiveFile take4_evp held_zstd flat_json ''red-fox'' lied_to = Some (Inl e, s1)"
    using dl by (simp add: receiveFile_def)
  have "machine lied_to = Utils.sample_host" by (simp add: lied_to_def sample_receiver_def)
  then show ?thesis using receiveFile_safe [OF take4_evp_laws rf] none rf by auto
qed

section \<open>An archive\<close>

lemma erase_other:
  "is_dir (lookup t (butlast p)) \<Longrightarrow> p \<noteq> [] \<Longrightarrow> diverge p x \<Longrightarrow> lookup (erase p t) x = lookup t x"
proof -
  assume d: "is_dir (lookup t (butlast p))" and "diverge p x"
  then obtain r a b p' x' where p: "p = r @ a # p'" and x: "x = r @ b # x'" and ab: "a \<noteq> b"
    by (auto simp: diverge_def)
  have "lookup (erase (r @ a # p') t) (r @ b # x') = lookup t (r @ b # x')"
    if "is_dir (lookup t (butlast (r @ a # p')))" for t
    using that
  proof (induction r arbitrary: t)
    case Nil
    then obtain es where t: "t = Dir es" by (cases t; cases p') auto
    show ?case using ab by (cases p') (auto simp: t update_conv' delete_conv' split: option.splits)
  next
    case (Cons z r)
    then obtain es where t: "t = Dir es" by (cases t) auto
    with Cons.prems obtain m where m: "map_of es z = Some m" by (auto split: option.splits if_splits)
    have "lookup (erase (r @ a # p') m) (r @ b # x') = lookup m (r @ b # x')"
      using Cons t m by (intro Cons.IH) auto
    moreover obtain w ws where "r @ a # p' = w # ws" by (cases "r @ a # p'") auto
    ultimately show ?case by (simp add: t m update_conv')
  qed
  with d p x show ?thesis by simp
qed

lemma walk_unique: "walk t cur cs = Some q \<Longrightarrow> walk t' cur cs = Some q' \<Longrightarrow> q = q'"
  by (induction cs arbitrary: cur) (auto split: if_splits)

lemma resolve_unique: "resolve h p = Some q \<Longrightarrow> resolve (h\<lparr>root := t\<rparr>) p = Some q' \<Longrightarrow> q = q'"
  using walk_unique by (auto simp: resolve_def split: if_splits)

lemma diverge_below: "diverge p x \<Longrightarrow> diverge p (x @ z)"
  unfolding diverge_def by fastforce

lemma diverge_sym: "diverge p x \<Longrightarrow> diverge x p"
  unfolding diverge_def by metis

text \<open>Unpacking the downloaded archive and removing it.\<close>

lemma unpack_and_remove:
  assumes "zstd_laws Z F" and "new_file h p q" and "length (concat bs) < 2 ^ 64"
    and "list_all2 (encodes F) (Dir_item name # flatten_entries name es) bs"
    and "valid_name name" and "length name \<le> PATH_MAX_LEN" and "packable Z name es"
    and "resolve h (current_path h) = Some qc" and "lookup (root h) qc = Some (Dir old)"
    and "name \<notin> fst ` set old" and "diverge q qc"
  shows "\<exists>h'. handleCompressedFile Z True p (h\<lparr>root := put q (File (concat bs)) (root h)\<rparr>) = Some (Inr (), h') \<and>
    lookup (root h') (qc @ [name]) = Some (Dir (prune es)) \<and> \<not> fs_exists h' p \<and>
    (\<forall>x. diverge q x \<and> diverge (qc @ [name]) x \<longrightarrow> lookup (root h') x = lookup (root h) x)"
proof -
  let ?h1 = "h\<lparr>root := put q (File (concat bs)) (root h)\<rparr>"
  let ?h2 = "?h1\<lparr>root := put (qc @ [name]) (Dir (prune es)) (root ?h1)\<rparr>"
  have qn: "q \<noteq> []" "is_dir (lookup (root h) (butlast q))" "butlast q @ [last q] = q" "resolve h p = Some q"
    "lookup (root h) (butlast q @ [last q]) = None"
    using assms(2) by (auto simp: new_file_def)
  have apart: "diverge q (qc @ [name])" using assms(11) by (rule diverge_below)
  have cp: "current_path ?h1 = current_path h" by (simp add: current_path_def)
  have "resolve ?h1 (current_path ?h1) = Some qc"
    using resolve_put [OF assms(8) qn(2,5), of "File (concat bs)"] by (simp add: qn(3) cp)
  moreover have l1: "lookup (root ?h1) qc = Some (Dir old)"
    using lookup_put_other [OF qn(2) assms(11)] assms(9) by simp
  ultimately have up: "unpackArchive Z (current_path ?h1) p ?h1 = Some (Inr (), ?h2)"
    using unpackArchive_ok [OF assms(1) new_file_open_in [OF assms(2)] assms(3-7)] assms(10) by blast
  have d1: "is_dir (lookup (root ?h1) qc)" using l1 by simp
  have n1: "lookup (root ?h1) (qc @ [name]) = None" using l1 assms(10) by (simp add: lookup_append map_of_new)
  have r2: "resolve ?h2 p = Some q"
    using resolve_put [OF new_file_facts(4) [OF assms(2)] d1 n1] by simp
  have f2: "lookup (root ?h2) q = Some (File (concat bs))"
    using lookup_put_other [of "root ?h1" "qc @ [name]" q "Dir (prune es)"] d1 diverge_sym [OF apart]
      new_file_facts(3) [OF assms(2)] by simp
  have d2: "is_dir (lookup (root ?h2) (butlast q))"
  proof -
    have "is_dir (lookup (root ?h1) (butlast q))"
      using put_keeps_dirs [OF qn(2,5,2), of "File (concat bs)"] by (simp add: qn(3))
    then show ?thesis using put_keeps_dirs [OF d1 n1] by simp
  qed
  let ?h3 = "?h2\<lparr>root := erase q (root ?h2)\<rparr>"
  have "handleCompressedFile Z True p ?h1 = Some (Inr (), ?h3)"
    using up r2 f2 by (simp add: handleCompressedFile_def fs_remove_def)
  moreover have "lookup (root ?h3) (qc @ [name]) = Some (Dir (prune es))"
    using erase_other [OF d2 qn(1) apart] lookup_put_same [OF d1, of name "Dir (prune es)"] by simp
  moreover have "\<not> fs_exists ?h3 p"
    using resolve_unique [OF r2, of "erase q (root ?h2)"] erase_absent [OF d2, of "last q"] qn(3)
    by (auto simp: fs_exists_def stat_def split: option.splits)
  moreover have "lookup (root ?h3) x = lookup (root h) x" if "diverge q x \<and> diverge (qc @ [name]) x" for x
  proof -
    have "lookup (root ?h3) x = lookup (root ?h2) x" using erase_other [OF d2 qn(1)] that by simp
    also have "\<dots> = lookup (root ?h1) x" using lookup_put_other [of "root ?h1" "qc @ [name]" x] d1 that by simp
    also have "\<dots> = lookup (root h) x" using lookup_put_other [OF qn(2)] that by simp
    finally show ?thesis .
  qed
  ultimately show ?thesis by blast
qed

text \<open>
  A directory arrives as a directory: when the file downloaded is the archive of a directory and
  the working directory has no entry of that name, \<open>receiveFile\<close> rebuilds the directory there,
  removes the archive, and leaves every path that leads elsewhere as it was.
\<close>

theorem receiveFile_directory:
  assumes "evp_laws E digest" and "zstd_laws Z F"
    and "json_dump J (createReceiveMessage J code) = Some t" and "length t < 2 ^ 64"
    and "writable (sock s)" and "rx (sock s) = frame a @ concat (map frame ms) @ rest"
    and "offered J a j name n (binaryToHumanReadable (digest (take (unat n) (concat ms)))) True (machine s)"
    and "says_yes (interaction s)"
    and "new_file (machine s) (path_append (DROP_FILE_RECEIVER_TMP_DIR (machine s)) name) q"
    and "short_messages ms" and "unat n \<le> length (concat ms)"
    and "take (unat n) (concat ms) = concat bs"
    and "list_all2 (encodes F) (Dir_item name # flatten_entries name es) bs"
    and "valid_name name" and "length name \<le> PATH_MAX_LEN" and "packable Z name es"
    and "resolve (machine s) (current_path (machine s)) = Some qc" and "lookup (root (machine s)) qc = Some (Dir old)"
    and "name \<notin> fst ` set old" and "diverge q qc"
  shows "\<exists>s'. receiveFile E Z J code s = Some (Inr (), s') \<and>
    tx (sock s') = tx (sock s) @ wire t @ frame ACK @ frame ACK \<and>
    lookup (root (machine s')) (qc @ [name]) = Some (Dir (prune es)) \<and>
    \<not> fs_exists (machine s') (path_append (DROP_FILE_RECEIVER_TMP_DIR (machine s)) name) \<and>
    (\<forall>x. diverge q x \<and> diverge (qc @ [name]) x \<longrightarrow> lookup (root (machine s')) x = lookup (root (machine s)) x)"
proof -
  let ?p = "target_path True (machine s) name"
  have p: "?p = path_append (DROP_FILE_RECEIVER_TMP_DIR (machine s)) name" by (simp add: target_path_def)
  have nf: "new_file (machine s) ?p q" unfolding p by (rule assms(9))
  obtain s1 where s1: "download E J code s = (Inr (True, ?p), s1)"
    "tx (sock s1) = tx (sock s) @ wire t @ frame ACK @ frame ACK"
    "machine s1 = (machine s)\<lparr>root := put q (File (concat bs)) (root (machine s))\<rparr>"
    using download_ok [OF assms(1,3-8) nf assms(10,11)] unfolding assms(12) by blast
  have "length (concat bs) < 2 ^ 64"
  proof -
    have "length (concat bs) \<le> unat n" using assms(12) by (metis length_take min.cobounded2)
    moreover have "unat n < 2 ^ 64" using unsigned_less [of n, where ?'a = nat] by simp
    ultimately show ?thesis by simp
  qed
  from unpack_and_remove [OF assms(2) nf this assms(13-20)] obtain h' where
    h': "handleCompressedFile Z True ?p (machine s1) = Some (Inr (), h')"
    "lookup (root h') (qc @ [name]) = Some (Dir (prune es))" "\<not> fs_exists h' ?p"
    "\<forall>x. diverge q x \<and> diverge (qc @ [name]) x \<longrightarrow> lookup (root h') x = lookup (root (machine s)) x"
    unfolding s1(3) by blast
  then have "receiveFile E Z J code s = Some (Inr (), s1\<lparr>machine := h'\<rparr>)"
    using s1(1) by (simp add: receiveFile_def)
  with h' s1(2) p show ?thesis by (intro exI [of _ "s1\<lparr>machine := h'\<rparr>"]) simp
qed

text \<open>The archive of an empty directory, offered to a receiver.\<close>

definition empty_dir_archive :: bytes where
  "empty_dir_archive = header \<lparr>is_directory = True, relative_path = ''d'', compressed_length = 0\<rparr>"

definition archive_json :: flat where
  "archive_json = json_object flat_json (send_fields ''d'' 18 (binaryToHumanReadable (take 4 empty_dir_archive)) True)"

definition archive_receiver :: receiver where
  "archive_receiver = \<lparr>sock = \<lparr>rx = frame (put_flat archive_json) @ frame empty_dir_archive, tx = [], tx_open = True,
        tx_quota = None, data_buffer = []\<rparr>,
      machine = Utils.sample_host\<lparr>root := Dir [(''home'', Dir []),
        (''tmp'', Dir [(''drop-file'', Dir [(''receiver'', Dir [])])])]\<rparr>, interaction = ''y''\<rparr>"

theorem receiveFile_directory_witness:
  "\<exists>s'. receiveFile take4_evp held_zstd flat_json ''red-fox'' archive_receiver = Some (Inr (), s') \<and>
     lookup (root (machine s')) [''home'', ''d''] = Some (Dir [])"
proof -
  let ?s = "archive_receiver" and ?a = empty_dir_archive
  let ?f = "send_fields ''d'' 18 (binaryToHumanReadable (take 4 ?a)) True"
  have la: "length ?a = 18" by (simp add: empty_dir_archive_def length_header)
  then have tk: "take (unat (18 :: size_t)) (concat [?a]) = concat [?a]" by (intro take_all) simp
  have lb: "length (binaryToHumanReadable (take 4 ?a)) = 8"
    using la by simp
  have "distinct (map fst ?f)" "?f \<noteq> []" by (simp_all add: send_fields_def key_defs)
  then have lj: "length (put_flat archive_json) \<le> 1048576" using lb
    by (simp add: archive_json_def flat_object) (simp add: send_fields_def key_defs put_text_def)
  have h: "cwd (machine ?s) = [''home'']" "temp_dir (machine ?s) = ''/tmp''"
    "root (machine ?s) = Dir [(''home'', Dir []), (''tmp'', Dir [(''drop-file'', Dir [(''receiver'', Dir [])])])]"
    "free_space (machine ?s) = (\<lambda>_. 1000)"
    by (simp_all add: archive_receiver_def Utils.sample_host_def)
  have "announces flat_json archive_json ''d'' 18 (binaryToHumanReadable (take 4 ?a)) True"
    unfolding archive_json_def by (rule send_fields_object(2) [OF flat_json_laws])
  then have off: "offered flat_json (put_flat archive_json) archive_json ''d'' 18
      (binaryToHumanReadable (take 4 (take (unat (18 :: size_t)) (concat [?a])))) True (machine ?s)"
    unfolding tk using lj by (simp add: offered_def h fs_exists_def stat_def resolve_def is_absolute_def)
  have p: "path_append (DROP_FILE_RECEIVER_TMP_DIR (machine ?s)) ''d'' = ''/tmp/drop-file/receiver/d''"
    by (simp add: DROP_FILE_RECEIVER_TMP_DIR_def h path_append_def is_absolute_def filename_def)
  have nf: "new_file (machine ?s) (path_append (DROP_FILE_RECEIVER_TMP_DIR (machine ?s)) ''d'')
      [''tmp'', ''drop-file'', ''receiver'', ''d'']"
    unfolding p by (simp add: new_file_def resolve_def is_absolute_def h)
  have "diverge [''tmp'', ''drop-file'', ''receiver'', ''d''] [''home'']"
    unfolding diverge_def by (rule exI [of _ "[]"], rule exI [of _ "''tmp''"], rule exI [of _ "''home''"]) simp
  moreover have "resolve (machine ?s) (current_path (machine ?s)) = Some [''home'']"
    by (simp add: current_path_def h resolve_def is_absolute_def)
  moreover have "writable (sock ?s)" "says_yes (interaction ?s)"
    "rx (sock ?s) = frame (put_flat archive_json) @ concat (map frame [?a]) @ []"
    by (simp_all add: archive_receiver_def writable_def says_yes_def read_char_def is_space_def)
  ultimately show ?thesis
    using receiveFile_directory [OF take4_evp_laws held_zstd_laws sample_request, of ?s "put_flat archive_json" "[?a]" "[]"
        archive_json "''d''" 18, OF _ _ off _ nf _ _ tk, of "[]"] la
    by (fastforce simp: empty_dir_archive_def valid_name_def PATH_MAX_LEN_def h)
qed

end
