(* ===== verification/HostInvariant.thy ===== *)
theory HostInvariant
  imports SendClient ReceiveClient
begin

text \<open>
  What every operation on the machine keeps: the working directory and the temporary directory stay
  what they are, and the directory tree stays a proper one.  The locale states what an invariant of
  the tree needs; the operations of the two clients are shown to keep any such invariant, and the
  interpretation gives the proper trees.
\<close>

section \<open>Proper trees\<close>

text \<open>The entries of a directory have proper, different names.\<close>

fun tree_ok :: "node \<Rightarrow> bool" where
  "tree_ok (Dir es) \<longleftrightarrow> distinct (map fst es) \<and> list_all (\<lambda>(x, n). valid_name x \<and> tree_ok n) es"
| "tree_ok (File d) \<longleftrightarrow> True"
| "tree_ok Special \<longleftrightarrow> True"

definition host_ok :: "host \<Rightarrow> bool" where
  "host_ok h \<longleftrightarrow> tree_ok (root h) \<and> list_all valid_name (cwd h)"

definition keeps :: "(node \<Rightarrow> bool) \<Rightarrow> host \<Rightarrow> host \<Rightarrow> bool" where
  "keeps P h h' \<longleftrightarrow> (\<exists>t. h' = h\<lparr>root := t\<rparr> \<and> (P (root h) \<and> list_all valid_name (cwd h) \<longrightarrow> P t))"

lemma keeps_refl [simp, intro]: "keeps P h h"
  unfolding keeps_def by (intro exI [of _ "root h"]) simp

lemma keepsI: "h' = h\<lparr>root := t\<rparr> \<Longrightarrow> (P (root h) \<Longrightarrow> list_all valid_name (cwd h) \<Longrightarrow> P t) \<Longrightarrow> keeps P h h'"
  unfolding keeps_def by blast

lemma keeps_trans: "keeps P h h1 \<Longrightarrow> keeps P h1 h2 \<Longrightarrow> keeps P h h2"
  by (auto simp: keeps_def)

lemma keeps_env: "keeps P h h' \<Longrightarrow> cwd h' = cwd h \<and> temp_dir h' = temp_dir h \<and> free_space h' = free_space h"
  by (auto simp: keeps_def)

lemma keeps_host_ok: "keeps tree_ok h h' \<Longrightarrow> host_ok h \<Longrightarrow> host_ok h'"
  by (auto simp: keeps_def host_ok_def)

text \<open>Paths resolve to proper names.\<close>

lemma split_slash_no_slash: "c \<in> set (split_slash p) \<Longrightarrow> CHR ''/'' \<notin> set c"
proof (induction p arbitrary: c)
  case (Cons x p)
  obtain w ws where w: "split_slash p = w # ws" by (cases "split_slash p") auto
  then have "CHR ''/'' \<notin> set w" "\<And>c. c \<in> set ws \<Longrightarrow> CHR ''/'' \<notin> set c" using Cons.IH by auto
  with Cons.prems w show ?case by (auto split: if_splits)
qed simp

lemma list_all_butlast: "list_all Q xs \<Longrightarrow> list_all Q (butlast xs)"
  by (auto simp: list_all_iff dest: in_set_butlastD)

lemma walk_names:
  "walk t cur cs = Some q \<Longrightarrow> list_all valid_name cur \<Longrightarrow> list_all (\<lambda>c. CHR ''/'' \<notin> set c) cs \<Longrightarrow> list_all valid_name q"
proof (induction t cur cs rule: walk.induct)
  case (2 t cur c cs)
  then show ?case
    by (auto split: if_splits simp: valid_name_def list_all_butlast)
qed simp

lemma resolve_names:
  "resolve h p = Some q \<Longrightarrow> list_all valid_name (cwd h) \<Longrightarrow> list_all valid_name q"
proof -
  assume r: "resolve h p = Some q" and c: "list_all valid_name (cwd h)"
  then have w: "walk (root h) (if is_absolute p then [] else cwd h) (split_slash p) = Some q"
    by (simp add: resolve_def split: if_splits)
  have "list_all (\<lambda>c. CHR ''/'' \<notin> set c) (split_slash p)"
    unfolding list_all_iff using split_slash_no_slash [of _ p] by blast
  from walk_names [OF w _ this] c show ?thesis by simp
qed

section \<open>What keeps an invariant of the tree\<close>

locale tree_invariant =
  fixes P :: "node \<Rightarrow> bool"
  assumes put_file: "P t \<Longrightarrow> list_all valid_name q \<Longrightarrow> P (put q (File d) t)"
    and put_dir: "P t \<Longrightarrow> list_all valid_name q \<Longrightarrow> P (put q (Dir []) t)"
    and erase: "P t \<Longrightarrow> P (erase q t)"
begin

lemma make_dirs_keeps:
  "make_dirs cur cs t = (r, t') \<Longrightarrow> P t \<Longrightarrow> list_all valid_name cur \<Longrightarrow>
   list_all (\<lambda>c. CHR ''/'' \<notin> set c) cs \<Longrightarrow> P t'"
proof (induction cur cs t rule: make_dirs.induct)
  case (2 cur c cs t)
  show ?case
  proof (cases "c = [] \<or> c = ''.''")
    case True
    then show ?thesis using 2 by simp
  next
    case plain: False
    show ?thesis
    proof (cases "c = ''..''")
      case True
      then show ?thesis using 2 by (simp add: list_all_butlast)
    next
      case False
      with plain have "valid_name c" using "2.prems"(4) by (simp add: valid_name_def)
      then have c: "list_all valid_name (cur @ [c])" using "2.prems"(3) by simp
      show ?thesis
      proof (cases "lookup t (cur @ [c])")
        case None
        then show ?thesis using 2 plain False c put_dir by simp
      next
        case (Some n)
        then show ?thesis using 2 plain False c by (cases n) auto
      qed
    qed
  qed
qed simp

lemma create_directories_keeps:
  assumes "create_directories p h = (r, h')"
  shows "keeps P h h'"
proof (cases "p = []")
  case False
  obtain r1 t where m: "make_dirs (if is_absolute p then [] else cwd h) (split_slash p) (root h) = (r1, t)" by fastforce
  have "list_all (\<lambda>c. CHR ''/'' \<notin> set c) (split_slash p)"
    using split_slash_no_slash [of _ p] by (simp add: list_all_iff)
  then have "P (root h) \<and> list_all valid_name (cwd h) \<longrightarrow> P t"
    using make_dirs_keeps [OF m] by auto
  then show ?thesis using assms False m by (auto simp: create_directories_def keeps_def)
qed (use assms in \<open>simp add: create_directories_def\<close>)

lemma write_at_keeps:
  assumes "resolve h p = Some q"
  shows "keeps P h (write_file q d h)"
  using put_file resolve_names [OF assms] by (auto simp: keeps_def write_file_def)

lemma open_out_keeps: "open_out p h = Some (h1, q) \<Longrightarrow> keeps P h h1 \<and> keeps P h (write_file q d h1)"
  using put_file resolve_names [of h p q]
  by (fastforce simp: open_out_def keeps_def write_file_def put_put split: option.splits if_splits)

lemma fs_remove_keeps: "fs_remove p h = (r, h') \<Longrightarrow> keeps P h h'"
proof -
  assume "fs_remove p h = (r, h')"
  then have "h' = h \<or> (\<exists>q. h' = h\<lparr>root := FileSystem.erase q (root h)\<rparr>)"
    by (auto simp: fs_remove_def split: option.splits node.splits list.splits)
  then show ?thesis using erase by (auto intro: keepsI)
qed

lemma remove_all_keeps: "keeps P h (remove_all p h)"
proof (cases "resolve h p")
  case (Some q)
  then show ?thesis using erase by (auto simp: remove_all_def keeps_def)
qed (simp add: remove_all_def)

lemma unpackFile_keeps: "unpackFile Z a d e s h = Some (r, s', h') \<Longrightarrow> keeps P h h'"
  using open_out_keeps
  by (auto simp: unpackFile_def Let_def split: option.splits prod.splits sum.splits)

lemma unpack_loop_step_keeps:
  assumes rec: "\<And>Z a d n s h y. rec Z a d n s h = Some y \<Longrightarrow> keeps P h (snd y)"
    and run: "(case getRemainingBytes s n of
        Inl e \<Rightarrow> Some (Inl e, h)
      | Inr remaining \<Rightarrow>
          if 0 < remaining then
            (case readFromStream n s of
               (Inl e, s1) \<Rightarrow> Some (Inl e, h)
             | (Inr x, s1) \<Rightarrow>
                 if is_directory x then
                   (case create_directories (path_append d (relative_path x)) h of
                      (Inl e, h') \<Rightarrow> Some (Inl e, h')
                    | (Inr _, h') \<Rightarrow> rec Z a d n s1 h')
                 else
                   (case unpackFile Z a d x s1 h of
                      None \<Rightarrow> None
                    | Some (Inl e, s2, h') \<Rightarrow> Some (Inl e, h')
                    | Some (Inr _, s2, h') \<Rightarrow> rec Z a d n s2 h'))
          else Some (Inr (), h)) = Some (r, h')"
  shows "keeps P h h'"
proof -
  show ?thesis
  proof (cases "getRemainingBytes s n")
    case (Inl e)
    then show ?thesis using run by simp
  next
    case (Inr left)
    show ?thesis
    proof (cases "0 < left")
      case False
      then show ?thesis using run Inr by simp
    next
      case True
      obtain re s1 where e: "readFromStream n s = (re, s1)" by fastforce
      show ?thesis
      proof (cases re)
        case (Inl x)
        then show ?thesis using run Inr True e by simp
      next
        case entry: (Inr x)
        show ?thesis
        proof (cases "is_directory x")
          case d: True
          obtain rc h1 where c: "create_directories (path_append d (relative_path x)) h = (rc, h1)" by fastforce
          then have "keeps P h h1" by (rule create_directories_keeps)
          moreover have "h' = h1 \<or> rec Z a d n s1 h1 = Some (r, h')"
            using run Inr True e entry d c by (cases rc) auto
          ultimately show ?thesis using rec keeps_trans by (metis snd_conv)
        next
          case d: False
          show ?thesis
          proof (cases "unpackFile Z a d x s1 h")
            case None
            then show ?thesis using run Inr True e entry d by simp
          next
            case (Some u)
            obtain ru s2 h1 where u: "unpackFile Z a d x s1 h = Some (ru, s2, h1)" using Some by (cases u) auto
            then have "keeps P h h1" by (rule unpackFile_keeps)
            moreover have "h' = h1 \<or> rec Z a d n s2 h1 = Some (r, h')"
              using run Inr True e entry d u by (cases ru) auto
            ultimately show ?thesis using rec keeps_trans by (metis snd_conv)
          qed
        qed
      qed
    qed
  qed
qed

lemma unpack_loop_keeps:
  assumes "unpack_loop Z a d n s h = Some (r, h')"
  shows "keeps P h h'"
proof -
  have "keeps P h (snd (r, h'))"
  proof (rule unpack_loop.raw_induct [where P = "\<lambda>Z a d n s h y. keeps P h (snd y)", OF _ assms], goal_cases)
    case (1 rec Z a d n s h y)
    obtain r1 h1 where "y = (r1, h1)" by (cases y)
    then show ?case using unpack_loop_step_keeps [of rec, OF 1(1)] 1(2) by (simp cong: if_cong)
  qed
  then show ?thesis by simp
qed

lemma unpackArchive_keeps: "unpackArchive Z d p h = Some (r, h') \<Longrightarrow> keeps P h h'"
  using unpack_loop_keeps by (auto simp: unpackArchive_def split: if_splits sum.splits option.splits)

lemma createArchive_keeps:
  assumes "createArchive Z d p h = Some (r, h')"
  shows "keeps P h h'"
proof (cases "open_out p h")
  case None
  then show ?thesis using assms by (auto simp: createArchive_def while_writing_def Let_def split: if_splits)
next
  case (Some hq)
  then obtain h1 q where o: "open_out p h = Some (h1, q)" by (cases hq) auto
  then have "h' = h \<or> (\<exists>d. h' = write_file q d h1)"
    using assms by (auto simp: createArchive_def while_writing_def Let_def split: if_splits)
  then show ?thesis using open_out_keeps [OF o] by auto
qed

end


section \<open>Proper trees stay proper\<close>

lemma tree_ok_update:
  "distinct (map fst es) \<Longrightarrow> list_all (\<lambda>(x, n). valid_name x \<and> tree_ok n) es \<Longrightarrow> valid_name x \<Longrightarrow> tree_ok n \<Longrightarrow>
   tree_ok (Dir (AList.update x n es))"
proof -
  assume d: "distinct (map fst es)" and a: "list_all (\<lambda>(x, n). valid_name x \<and> tree_ok n) es"
    and x: "valid_name x" and n: "tree_ok n"
  have "distinct (map fst (AList.update x n es))" using d by (rule distinct_update)
  moreover have "list_all (\<lambda>(x, n). valid_name x \<and> tree_ok n) (AList.update x n es)"
    using a x n by (induction es) auto
  ultimately show ?thesis by simp
qed

lemma tree_ok_entry: "tree_ok (Dir es) \<Longrightarrow> map_of es x = Some n \<Longrightarrow> valid_name x \<and> tree_ok n"
  by (auto simp: list_all_iff dest: map_of_SomeD)

lemma tree_ok_put: "tree_ok t \<Longrightarrow> list_all valid_name q \<Longrightarrow> tree_ok new \<Longrightarrow> tree_ok (put q new t)"
proof (induction q new t rule: put.induct)
  case (2 x xs new es)
  have "tree_ok (case map_of es x of None \<Rightarrow> Dir [] | Some n \<Rightarrow> n)"
    using tree_ok_entry [OF "2.prems"(1)] by (auto split: option.split)
  from "2.IH" [OF this] have "tree_ok (put xs new (case map_of es x of None \<Rightarrow> Dir [] | Some n \<Rightarrow> n))"
    using "2.prems" by simp
  then show ?case using tree_ok_update "2.prems" by simp
qed simp_all

lemma tree_ok_erase: "tree_ok t \<Longrightarrow> tree_ok (FileSystem.erase q t)"
proof (induction q t rule: FileSystem.erase.induct)
  case (2 x es)
  have "set (AList.delete x es) \<subseteq> set es" by (auto simp: AList.delete_eq)
  then have "list_all (\<lambda>(x, n). valid_name x \<and> tree_ok n) (AList.delete x es)"
    using 2 by (auto simp: list_all_iff)
  moreover have "distinct (map fst (AList.delete x es))" using 2 by (simp add: distinct_delete)
  ultimately show ?case by simp
next
  case (3 x y ys es)
  show ?case
  proof (cases "map_of es x")
    case (Some n)
    with tree_ok_entry [OF "3.prems"] 3 tree_ok_update show ?thesis by simp
  qed (use "3.prems" in simp)
qed simp_all

interpretation proper: tree_invariant tree_ok
  by unfold_locales (auto intro: tree_ok_put tree_ok_erase)

section \<open>The clients keep the machine proper\<close>

lemma keeps_remove_all: "keeps tree_ok h (remove_all p h)"
  by (rule proper.remove_all_keeps)

lemma handleCompressedFile_keeps: "handleCompressedFile Z c p h = Some (r, h') \<Longrightarrow> keeps tree_ok h h'"
  using proper.unpackArchive_keeps proper.fs_remove_keeps
  by (fastforce simp: handleCompressedFile_def split: if_splits option.splits sum.splits intro: keeps_trans)

lemma new_file_keeps: "new_file h p q \<Longrightarrow> keeps tree_ok h (h\<lparr>root := put q (File d) (root h)\<rparr>)"
  using resolve_names [of h p q] by (intro keepsI [OF refl]) (auto simp: new_file_def intro: tree_ok_put)

lemma receiveFile_keeps:
  assumes "evp_laws E digest" and "receiveFile E Z J code s = Some (r, s')"
  shows "keeps tree_ok (machine s) (machine s')"
proof -
  obtain r1 s1 where dl: "download E J code s = (r1, s1)" by fastforce
  have "keeps tree_ok (machine s) (machine s1)"
    using download_any [OF assms(1) dl] new_file_keeps by (elim disjE exE conjE) simp_all
  moreover have "keeps tree_ok (machine s1) (machine s')"
    using assms(2) dl handleCompressedFile_keeps
    by (auto simp: receiveFile_def split: sum.splits prod.splits)
  ultimately show ?thesis by (rule keeps_trans)
qed

lemma compressIfNecessary_keeps:
  assumes "compressIfNecessary Z p s = Some (r, s')"
  shows "keeps tree_ok (machine s) (machine s')"
  using assms proper.createArchive_keeps
  by (fastforce simp: compressIfNecessary_def Let_def split: if_splits option.splits sum.splits)

lemma RAIIFSEntry_destroy_keeps: "keeps tree_ok h (RAIIFSEntry_destroy e h)"
  using keeps_remove_all by (simp add: RAIIFSEntry_destroy_def)

lemma unwind_keeps: "(\<And>h. keeps tree_ok h (f h)) \<Longrightarrow> keeps tree_ok h (unwind e f h)"
  by (simp add: unwind_def)

lemma leave_keeps: "(\<And>h. keeps tree_ok h (f h)) \<Longrightarrow> keeps tree_ok h (leave r f h)"
  by (cases r) (simp_all add: unwind_keeps)

lemma sendFSEntryMetadata_keeps:
  assumes "sendFSEntryMetadata E Z J p s = Some (r, s')"
  shows "keeps tree_ok (machine s) (machine s')"
proof -
  obtain rc s1 where c: "compressIfNecessary Z p s = Some (rc, s1)"
    using assms by (auto simp: sendFSEntryMetadata_def split: option.splits)
  have k1: "keeps tree_ok (machine s) (machine s1)" using c by (rule compressIfNecessary_keeps)
  have "machine s' = machine s1 \<or> (\<exists>x e. machine s' = unwind x (RAIIFSEntry_destroy e) (machine s1))"
  proof (cases rc)
    case (Inl e)
    then show ?thesis using assms c by (simp add: sendFSEntryMetadata_def)
  next
    case (Inr x)
    obtain e b where x: "x = (e, b)" by (cases x)
    obtain ra s2 where a: "announce E J (entry_path e) b s1 = (ra, s2)" by fastforce
    then have "machine s2 = machine s1" using announce_machine [of E J "entry_path e" b s1] by simp
    then show ?thesis using assms c Inr x a by (cases ra) (fastforce simp: sendFSEntryMetadata_def)+
  qed
  then show ?thesis using k1 unwind_keeps RAIIFSEntry_destroy_keeps keeps_trans by metis
qed

lemma send_file_loop_machine: "send_file_loop avail n t f s = (r, s') \<Longrightarrow> machine s' = machine s"
proof (induction avail n t f s arbitrary: r s' rule: send_file_loop.induct)
  case (1 avail n t f s)
  obtain got f' where rd: "readsome avail (unat (snd (getBuffer (sock s)))) f = (got, f')" by fastforce
  let ?p = "andthen (on_sock (read_into_buffer got)) (\<lambda>_. on_sock (send got))"
  obtain rb s1 where b: "?p s = (rb, s1)" by fastforce
  have m: "machine s1 = machine s"
    using b by (auto simp: andthen_def on_sock_def split: prod.splits sum.splits)
  show ?case
  proof (cases "got = []")
    case True
    then show ?thesis using "1.prems" rd by (subst (asm) send_file_loop.simps) simp
  next
    case False
    show ?thesis
    proof (cases rb)
      case (Inl e)
      then show ?thesis using "1.prems" rd b m False by (subst (asm) send_file_loop.simps) (simp add: Let_def)
    next
      case (Inr u)
      have "s' = s1 \<or> n \<noteq> 0 \<and> send_file_loop avail n (t + of_nat (length got)) f' s1 = (r, s')"
        using "1.prems" rd b Inr False by (subst (asm) send_file_loop.simps) (auto simp: Let_def split: if_splits)
      then show ?thesis using "1.IH" [OF rd [symmetric] False refl b [symmetric] Inr] m by auto
    qed
  qed
qed

lemma stream_file_machine: "machine (snd (stream_file avail p s)) = machine s"
proof -
  have "stream_file avail p s = (r, s') \<Longrightarrow> machine s' = machine s" for r s'
    using send_file_loop_machine on_sock_machine
    unfolding stream_file_def by (fastforce simp: andthen_def on_sock_def split: prod.splits sum.splits)
  then show ?thesis by (metis prod.collapse)
qed

lemma sendFSEntry_keeps: "sendFSEntry avail e s = (r, s') \<Longrightarrow> keeps tree_ok (machine s) (machine s')"
  using stream_file_machine [of avail "entry_path e" s] leave_keeps [OF RAIIFSEntry_destroy_keeps]
  by (auto simp: sendFSEntry_def split: prod.splits)

end
