(* ===== verification/ClientSocket.thy ===== *)
theory ClientSocket
  imports SocketBase
begin

text \<open>
  \<open>src/client/ClientSocket.cpp\<close>: how the client's connection is set up.  Name resolution, the TCP
  connection and the TLS handshake are the library's and are parameters; what is modelled is what the
  code asks of them: which certificates are trusted, what is verified, and the order of the calls.
\<close>

section \<open>The library\<close>

datatype verify_mode = verify_none | verify_peer | verify_fail_if_no_peer_cert

text \<open>The context, shared with the streams made from it: its default mode and its trusted certificates.\<close>

record tls_context =
  context_mode :: verify_mode
  trusts_default_paths :: bool

text \<open>A stream: it copies the mode of its context when it is made.\<close>

record 'cert tls_stream =
  stream_mode :: verify_mode
  verify_callback :: "(bool \<Rightarrow> 'cert \<Rightarrow> bool) option"

definition tls_context_init :: tls_context where
  "tls_context_init = \<lparr>context_mode = verify_none, trusts_default_paths = False\<rparr>"

definition tls_stream_init :: "tls_context \<Rightarrow> 'cert tls_stream" where
  "tls_stream_init c = \<lparr>stream_mode = context_mode c, verify_callback = None\<rparr>"

record ('ep, 'peer, 'cert) net_api =
  net_resolve :: "string \<Rightarrow> string \<Rightarrow> error + 'ep list"
  net_connect :: "'ep \<Rightarrow> error + 'peer"
  net_handshake :: "tls_context \<Rightarrow> 'cert tls_stream \<Rightarrow> 'peer \<Rightarrow> error + socket"

text \<open>
  The handshake asks the callback, or without one the library's own verdict, for every certificate it
  checks (\<open>checks\<close>: the verdict and the certificate); only under \<open>verify_peer\<close> does a refusal end the
  handshake.  Otherwise it goes on as the peer lets it (\<open>session\<close>).
\<close>

definition accepted :: "'cert tls_stream \<Rightarrow> (bool \<times> 'cert) list \<Rightarrow> bool" where
  "accepted st cs \<longleftrightarrow> list_all (\<lambda>(preverified, cert).
     case verify_callback st of None \<Rightarrow> preverified | Some f \<Rightarrow> f preverified cert) cs"

definition net_laws ::
  "('ep, 'peer, 'cert) net_api \<Rightarrow> (tls_context \<Rightarrow> 'peer \<Rightarrow> (bool \<times> 'cert) list) \<Rightarrow> ('peer \<Rightarrow> error + socket) \<Rightarrow> bool" where
  "net_laws N checks session \<longleftrightarrow>
     (\<forall>c st p. net_handshake N c st p =
        (if stream_mode st = verify_peer \<and> \<not> accepted st (checks c p)
         then Inl (System_error ''certificate verify failed'') else session p))"

section \<open>Operations\<close>

text \<open>\<open>io_context\<close>: none after the socket has been moved from, else whether its thread runs it.\<close>

record 'cert client_socket =
  base :: socket
  io_context :: "bool option"
  tls_ctx :: tls_context
  stream :: "'cert tls_stream"

definition verify_certificate :: "bool \<Rightarrow> 'cert \<Rightarrow> bool" where
  "verify_certificate preverified cert = preverified"

definition connect ::
  "('ep, 'peer, 'cert) net_api \<Rightarrow> string \<Rightarrow> 16 word \<Rightarrow> tls_context \<Rightarrow> 'cert tls_stream \<Rightarrow> error + socket" where
  "connect N host port ctx st =
     sum_bind (net_resolve N host (show_nat (unat port))) (\<lambda>endpoints.
       case endpoints of
         [] \<Rightarrow> Inl (SocketException (''Did not find '' @ host @ '':'' @ show_nat (unat port)))
       | endpoint # _ \<Rightarrow>
           sum_bind (net_connect N endpoint) (\<lambda>peer. net_handshake N ctx st peer))"

definition start :: "'cert client_socket \<Rightarrow> 'cert client_socket" where
  "start cs = cs\<lparr>io_context := Some True\<rparr>"

text \<open>The stream exists before the body of the constructor changes the context.\<close>

definition ClientSocket_init ::
  "('ep, 'peer, 'cert) net_api \<Rightarrow> string \<Rightarrow> 16 word \<Rightarrow> bool \<Rightarrow> error + 'cert client_socket" where
  "ClientSocket_init N host port verify_cert =
     (let context = tls_context_init;
          tls_socket = tls_stream_init context;
          (context, tls_socket) =
            (if verify_cert then
               (context\<lparr>trusts_default_paths := True\<rparr>,
                tls_socket\<lparr>stream_mode := verify_peer, verify_callback := Some verify_certificate\<rparr>)
             else
               (context\<lparr>context_mode := verify_fail_if_no_peer_cert\<rparr>,
                tls_socket\<lparr>verify_callback := Some (\<lambda>_ _. True)\<rparr>))
      in sum_bind (connect N host port context tls_socket) (\<lambda>k.
           Inr (start \<lparr>base = k, io_context = Some False, tls_ctx = context, stream = tls_socket\<rparr>)))"

definition ClientSocket_destroy :: "'cert client_socket \<Rightarrow> 'cert client_socket" where
  "ClientSocket_destroy cs =
     (case io_context cs of None \<Rightarrow> cs | Some _ \<Rightarrow> cs\<lparr>io_context := Some False\<rparr>)"

section \<open>Properties\<close>

lemma ClientSocket_init_verified:
  "ClientSocket_init N host port True =
     (let ctx = \<lparr>context_mode = verify_none, trusts_default_paths = True\<rparr>;
          st = \<lparr>stream_mode = verify_peer, verify_callback = Some verify_certificate\<rparr>
      in sum_bind (connect N host port ctx st) (\<lambda>k.
           Inr \<lparr>base = k, io_context = Some True, tls_ctx = ctx, stream = st\<rparr>))"
  by (simp add: ClientSocket_init_def tls_context_init_def tls_stream_init_def start_def Let_def)

lemma ClientSocket_init_unverified:
  "ClientSocket_init N host port False =
     (let ctx = \<lparr>context_mode = verify_fail_if_no_peer_cert, trusts_default_paths = False\<rparr>;
          st = \<lparr>stream_mode = verify_none, verify_callback = Some (\<lambda>_ _. True)\<rparr>
      in sum_bind (connect N host port ctx st) (\<lambda>k.
           Inr \<lparr>base = k, io_context = Some True, tls_ctx = ctx, stream = st\<rparr>))"
  by (simp add: ClientSocket_init_def tls_context_init_def tls_stream_init_def start_def Let_def)

lemma handshake_Inr:
  "net_laws N checks session \<Longrightarrow> net_handshake N c st p = Inr k \<longleftrightarrow>
     session p = Inr k \<and> (stream_mode st = verify_peer \<longrightarrow> accepted st (checks c p))"
  by (auto simp: net_laws_def)

lemma connect_Inr:
  "connect N host port ctx st = Inr k \<longleftrightarrow>
     (\<exists>ep eps p. net_resolve N host (show_nat (unat port)) = Inr (ep # eps) \<and> net_connect N ep = Inr p \<and>
        net_handshake N ctx st p = Inr k)"
  by (cases "net_resolve N host (show_nat (unat port))")
    (auto simp: connect_def sum_bind_Inr_iff neq_Nil_conv split: list.split)

text \<open>
  C25. What the verification flag does.  With it, a connection exists only to a peer all of whose
  certificates passed the library's check against the default trusted certificates, and nothing else
  is checked: the peer is the first endpoint the host name resolves to, and the name itself plays no
  part.  Without it, every peer that completes the handshake is accepted, whatever its certificates.
\<close>

theorem connection_verification:
  assumes "net_laws N checks session"
  shows "(\<forall>cs. ClientSocket_init N host port True = Inr cs \<longleftrightarrow>
      (\<exists>ep eps p k. net_resolve N host (show_nat (unat port)) = Inr (ep # eps) \<and> net_connect N ep = Inr p \<and>
         session p = Inr k \<and>
         list_all fst (checks \<lparr>context_mode = verify_none, trusts_default_paths = True\<rparr> p) \<and>
         cs = \<lparr>base = k, io_context = Some True,
               tls_ctx = \<lparr>context_mode = verify_none, trusts_default_paths = True\<rparr>,
               stream = \<lparr>stream_mode = verify_peer, verify_callback = Some verify_certificate\<rparr>\<rparr>)) \<and>
    ((\<exists>cs. ClientSocket_init N host port False = Inr cs \<and> base cs = k) \<longleftrightarrow>
      (\<exists>ep eps p. net_resolve N host (show_nat (unat port)) = Inr (ep # eps) \<and> net_connect N ep = Inr p \<and>
         session p = Inr k))"
proof -
  have acc: "accepted \<lparr>stream_mode = m, verify_callback = Some verify_certificate\<rparr> l \<longleftrightarrow> list_all fst l" for m l
    by (simp add: accepted_def verify_certificate_def case_prod_unfold)
  have 1: "ClientSocket_init N host port True = Inr cs \<longleftrightarrow>
      (\<exists>ep eps p k. net_resolve N host (show_nat (unat port)) = Inr (ep # eps) \<and> net_connect N ep = Inr p \<and>
         session p = Inr k \<and>
         list_all fst (checks \<lparr>context_mode = verify_none, trusts_default_paths = True\<rparr> p) \<and>
         cs = \<lparr>base = k, io_context = Some True,
               tls_ctx = \<lparr>context_mode = verify_none, trusts_default_paths = True\<rparr>,
               stream = \<lparr>stream_mode = verify_peer, verify_callback = Some verify_certificate\<rparr>\<rparr>)" for cs
    unfolding ClientSocket_init_verified Let_def sum_bind_Inr_iff connect_Inr
    handshake_Inr [OF assms] by (auto simp: acc)
  have 2: "(\<exists>cs. ClientSocket_init N host port False = Inr cs \<and> base cs = k) \<longleftrightarrow>
      (\<exists>ep eps p. net_resolve N host (show_nat (unat port)) = Inr (ep # eps) \<and> net_connect N ep = Inr p \<and>
         session p = Inr k)"
    unfolding ClientSocket_init_unverified Let_def sum_bind_Inr_iff connect_Inr
    handshake_Inr [OF assms] by auto
  from 1 2 show ?thesis by blast
qed

text \<open>A network with one endpoint behind every name, whose certificate nobody vouches for.\<close>

definition quiet_socket :: socket where
  "quiet_socket = \<lparr>rx = [], tx = [], tx_open = True, tx_quota = None, data_buffer = []\<rparr>"

definition self_signed_net :: "(unit, unit, unit) net_api" where
  "self_signed_net = \<lparr>net_resolve = (\<lambda>h p. Inr [()]), net_connect = (\<lambda>_. Inr ()),
     net_handshake = (\<lambda>c st p. if stream_mode st = verify_peer \<and> \<not> accepted st [(False, ())]
       then Inl (System_error ''certificate verify failed'') else Inr quiet_socket)\<rparr>"

lemma self_signed_net_laws: "net_laws self_signed_net (\<lambda>c p. [(False, ())]) (\<lambda>p. Inr quiet_socket)"
  by (simp add: net_laws_def self_signed_net_def)

theorem connection_verification_witness:
  "(\<forall>cs. ClientSocket_init self_signed_net ''example.org'' 8080 True \<noteq> Inr cs) \<and>
   (\<exists>cs. ClientSocket_init self_signed_net ''example.org'' 8080 False = Inr cs \<and> base cs = quiet_socket)"
  using connection_verification [OF self_signed_net_laws, of "''example.org''" 8080 quiet_socket]
  by (auto simp: self_signed_net_def)

end
