(* ===== verification/Args.thy ===== *)
theory Args
  imports Prelude
begin

text \<open>
  \<open>src/client/ClientArgParser.cpp\<close> and \<open>src/server/ServerArgParser.cpp\<close>: the command lines.  The
  parsing itself is done by the \<open>argparse\<close> library, which is a parameter; the code declares the
  arguments and takes the values out.
\<close>

section \<open>The library\<close>

datatype arg_value = V_string string | V_u16 "16 word" | V_u32 "32 word" | V_bool bool

text \<open>How the text of an argument becomes its value; \<open>check\<close> is an action that may throw.\<close>

datatype conversion = Plain | Checked "string \<Rightarrow> error + string" | Scan_u16 | Scan_u32 | Flag bool

record argument =
  names :: "string list"
  required :: bool
  default_value :: "arg_value option"
  conversion :: conversion

text \<open>\<open>parse_args\<close> throws or gives the value of every argument, by its name.\<close>

type_synonym argparse = "argument list \<Rightarrow> string list \<Rightarrow> error + (string \<Rightarrow> arg_value option)"

definition get_string :: "(string \<Rightarrow> arg_value option) \<Rightarrow> string \<Rightarrow> error + string" where
  "get_string vals k = (case vals k of Some (V_string s) \<Rightarrow> Inr s
     | None \<Rightarrow> Inl (Logic_error ''No value provided'') | _ \<Rightarrow> Inl (Logic_error ''bad any_cast''))"

definition get_u16 :: "(string \<Rightarrow> arg_value option) \<Rightarrow> string \<Rightarrow> error + 16 word" where
  "get_u16 vals k = (case vals k of Some (V_u16 n) \<Rightarrow> Inr n
     | None \<Rightarrow> Inl (Logic_error ''No value provided'') | _ \<Rightarrow> Inl (Logic_error ''bad any_cast''))"

definition get_u32 :: "(string \<Rightarrow> arg_value option) \<Rightarrow> string \<Rightarrow> error + 32 word" where
  "get_u32 vals k = (case vals k of Some (V_u32 n) \<Rightarrow> Inr n
     | None \<Rightarrow> Inl (Logic_error ''No value provided'') | _ \<Rightarrow> Inl (Logic_error ''bad any_cast''))"

definition get_bool :: "(string \<Rightarrow> arg_value option) \<Rightarrow> string \<Rightarrow> error + bool" where
  "get_bool vals k = (case vals k of Some (V_bool b) \<Rightarrow> Inr b
     | None \<Rightarrow> Inl (Logic_error ''No value provided'') | _ \<Rightarrow> Inl (Logic_error ''bad any_cast''))"

text \<open>The value an argument may have after a successful parse: its default, or a converted text.\<close>

fun converted :: "conversion \<Rightarrow> arg_value \<Rightarrow> bool" where
  "converted Plain (V_string s) \<longleftrightarrow> True"
| "converted (Checked f) (V_string s) \<longleftrightarrow> (\<exists>t. f t = Inr s)"
| "converted Scan_u16 (V_u16 n) \<longleftrightarrow> True"
| "converted Scan_u32 (V_u32 n) \<longleftrightarrow> True"
| "converted (Flag b) (V_bool c) \<longleftrightarrow> c = b"
| "converted _ _ \<longleftrightarrow> False"

definition argparse_laws :: "argparse \<Rightarrow> bool" where
  "argparse_laws parse \<longleftrightarrow>
     (\<forall>spec argv vals a k. parse spec argv = Inr vals \<and> a \<in> set spec \<and> k \<in> set (names a) \<and>
        (required a \<or> default_value a \<noteq> None) \<longrightarrow>
        (\<exists>v. vals k = Some v \<and> (default_value a = Some v \<or> converted (conversion a) v)))"

section \<open>The client\<close>

datatype action = send_action | receive_action

record client_args =
  action :: action
  file_to_send_path :: "string option"
  receive_code :: "string option"
  port :: "16 word"
  server_domain_name :: string
  verify_cert :: bool

definition DEFAULT_SERVER_DOMAIN :: string where
  "DEFAULT_SERVER_DOMAIN = ''balitohome.duckdns.org''"

text \<open>\<open>find_last_not_of\<close>: the position of the last character that is not \<open>c\<close>.\<close>

definition find_last_not_of :: "char \<Rightarrow> string \<Rightarrow> nat option" where
  "find_last_not_of c s =
     (case dropWhile (\<lambda>x. x = c) (rev s) of [] \<Rightarrow> None | r \<Rightarrow> Some (length r - 1))"

definition removeTrailingSlashes :: "string \<Rightarrow> string" where
  "removeTrailingSlashes file_or_code =
     (case find_last_not_of CHR ''/'' file_or_code of
        Some pos \<Rightarrow> take (pos + 1) file_or_code
      | None \<Rightarrow> take (min (length file_or_code) 1) file_or_code)"

definition check_action :: "string \<Rightarrow> error + string" where
  "check_action value =
     (if value \<noteq> ''send'' \<and> value \<noteq> ''receive'' then
        Inl (Runtime_error (''Incorrect value of action argument: '' @ value @ ''. Expected send or receive.''))
      else Inr value)"

definition client_arguments :: "argument list" where
  "client_arguments =
     [\<lparr>names = [''action''], required = True, default_value = None, conversion = Checked check_action\<rparr>,
      \<lparr>names = [''file_or_code''], required = True, default_value = None, conversion = Plain\<rparr>,
      \<lparr>names = [''-p'', ''--port''], required = False, default_value = Some (V_u16 8080), conversion = Scan_u16\<rparr>,
      \<lparr>names = [''-d'', ''--domain_name''], required = False,
        default_value = Some (V_string DEFAULT_SERVER_DOMAIN), conversion = Plain\<rparr>,
      \<lparr>names = [''-a'', ''--allow_self_signed_cert''], required = False, default_value = Some (V_bool False),
        conversion = Flag True\<rparr>]"

text \<open>Of the library's exceptions only \<open>std::runtime_error\<close> is caught.\<close>

fun is_runtime_error :: "error \<Rightarrow> bool" where
  "is_runtime_error (Runtime_error _) = True"
| "is_runtime_error (System_error _) = True"
| "is_runtime_error (Filesystem_error _) = True"
| "is_runtime_error _ = False"

definition parseClientArgs :: "argparse \<Rightarrow> string list \<Rightarrow> error + client_args" where
  "parseClientArgs parse argv =
     (case parse client_arguments argv of
        Inl e \<Rightarrow> if is_runtime_error e then Inl (ClientArgParserException (what e)) else Inl e
      | Inr vals \<Rightarrow>
          sum_bind (get_string vals ''action'') (\<lambda>act.
          sum_bind (get_string vals ''file_or_code'') (\<lambda>file_or_code.
          sum_bind (get_u16 vals ''-p'') (\<lambda>p.
          sum_bind (get_string vals ''-d'') (\<lambda>d.
          sum_bind (get_bool vals ''-a'') (\<lambda>a.
            if act = ''send'' then
              Inr \<lparr>action = send_action, file_to_send_path = Some (removeTrailingSlashes file_or_code),
                receive_code = None, port = p, server_domain_name = d, verify_cert = \<not> a\<rparr>
            else
              Inr \<lparr>action = receive_action, file_to_send_path = None, receive_code = Some file_or_code,
                port = p, server_domain_name = d, verify_cert = \<not> a\<rparr>))))))"

section \<open>The server\<close>

record server_args =
  certs_directory :: string
  server_port :: "16 word"
  client_timeout :: "32 word"

definition DEFAULT_PORT :: "16 word" where
  "DEFAULT_PORT = 8080"

definition DEFAULT_CLIENT_TIMEOUT :: "32 word" where
  "DEFAULT_CLIENT_TIMEOUT = 120"

definition server_arguments :: "argument list" where
  "server_arguments =
     [\<lparr>names = [''key-cert-dir''], required = True, default_value = None, conversion = Plain\<rparr>,
      \<lparr>names = [''-p'', ''--port''], required = False, default_value = Some (V_u16 DEFAULT_PORT), conversion = Scan_u16\<rparr>,
      \<lparr>names = [''-t'', ''--timeout''], required = False, default_value = Some (V_u32 DEFAULT_CLIENT_TIMEOUT),
        conversion = Scan_u32\<rparr>,
      \<lparr>names = [''-w'', ''--json_words''], required = False, default_value = Some (V_u32 DEFAULT_CLIENT_TIMEOUT),
        conversion = Plain\<rparr>]"

text \<open>What is printed and rethrown stays the same exception.\<close>

definition parseServerArgs :: "argparse \<Rightarrow> string list \<Rightarrow> error + server_args" where
  "parseServerArgs parse argv =
     (case parse server_arguments argv of
        Inl e \<Rightarrow> Inl e
      | Inr vals \<Rightarrow>
          sum_bind (get_string vals ''key-cert-dir'') (\<lambda>cert_dir.
          sum_bind (get_u16 vals ''-p'') (\<lambda>p.
          sum_bind (get_u32 vals ''-t'') (\<lambda>timeout.
            Inr \<lparr>certs_directory = cert_dir, server_port = p, client_timeout = timeout\<rparr>))))"

section \<open>Facts\<close>

lemma find_last_not_of_None: "find_last_not_of c s = None \<longleftrightarrow> set s \<subseteq> {c}"
proof -
  have "dropWhile (\<lambda>x. x = c) (rev s) = [] \<longleftrightarrow> set s \<subseteq> {c}" by (auto simp: dropWhile_eq_Nil_conv)
  then show ?thesis
    by (cases "dropWhile (\<lambda>x. x = c) (rev s)") (simp_all add: find_last_not_of_def del: dropWhile_eq_Nil_conv)
qed

lemma find_last_not_of_Some:
  assumes "find_last_not_of c s = Some pos"
  shows "\<exists>k. s = take (pos + 1) s @ replicate k c \<and> pos < length s \<and> s ! pos \<noteq> c"
proof -
  let ?r = "dropWhile (\<lambda>x. x = c) (rev s)"
  obtain x xs where r: "?r = x # xs" and pos: "pos = length xs"
    using assms by (cases ?r) (auto simp: find_last_not_of_def)
  have x: "x \<noteq> c" using hd_dropWhile [of "\<lambda>x. x = c" "rev s"] r by simp
  have "rev s = takeWhile (\<lambda>x. x = c) (rev s) @ x # xs" by (metis r takeWhile_dropWhile_id)
  then have s: "s = (rev xs @ [x]) @ rev (takeWhile (\<lambda>x. x = c) (rev s))"
    by (metis rev_append rev_rev_ident rev.simps(2))
  let ?t = "rev (takeWhile (\<lambda>x. x = c) (rev s))"
  have "\<forall>y \<in> set ?t. y = c" by (auto dest: set_takeWhileD)
  then have t: "?t = replicate (length ?t) c" by (intro replicate_eqI) auto
  have "take (pos + 1) s = rev xs @ [x]" by (subst s) (simp add: pos)
  moreover have "s ! pos = x" by (subst s) (simp add: pos nth_append)
  moreover have "pos < length s" by (subst s) (simp add: pos)
  ultimately show ?thesis using s t x by metis
qed

text \<open>
  Trailing slashes are taken off and nothing else: the result is the path without the slashes at
  its end, it does not end in a slash unless it is \<open>/\<close>, and it is empty only for the empty path.
\<close>

theorem removeTrailingSlashes_correct:
  "\<exists>k. p = removeTrailingSlashes p @ replicate k CHR ''/'' \<and>
     (removeTrailingSlashes p = [] \<longleftrightarrow> p = []) \<and>
     (removeTrailingSlashes p = [] \<or> removeTrailingSlashes p = ''/'' \<or> last (removeTrailingSlashes p) \<noteq> CHR ''/'')"
proof (cases "find_last_not_of CHR ''/'' p")
  case None
  then have "\<forall>y \<in> set p. y = CHR ''/''" using find_last_not_of_None [of "CHR ''/''" p] by auto
  then have p: "p = replicate (length p) CHR ''/''" by (simp add: replicate_length_same)
  show ?thesis
  proof (cases p)
    case Nil
    then show ?thesis using None by (simp add: removeTrailingSlashes_def)
  next
    case (Cons c cs)
    then have c: "c = CHR ''/''" "cs = replicate (length cs) CHR ''/''" using p by simp_all
    have "removeTrailingSlashes p = ''/''" using None Cons c(1) by (simp add: removeTrailingSlashes_def)
    then show ?thesis using Cons c by (intro exI [of _ "length cs"]) simp
  qed
next
  case (Some pos)
  then have r: "removeTrailingSlashes p = take (pos + 1) p" by (simp add: removeTrailingSlashes_def)
  obtain k where k: "p = take (pos + 1) p @ replicate k CHR ''/''" "pos < length p" "p ! pos \<noteq> CHR ''/''"
    using find_last_not_of_Some [OF Some] by blast
  have "last (take (pos + 1) p) = p ! pos" using k(2) by (simp add: take_Suc_conv_app_nth)
  then show ?thesis using k unfolding r by (intro exI [of _ k]) (auto simp: take_Suc_conv_app_nth)
qed

lemma argparse_value:
  assumes "argparse_laws parse" and "parse spec argv = Inr vals" and "a \<in> set spec" and "k \<in> set (names a)"
    and "required a \<or> default_value a \<noteq> None"
  shows "\<exists>v. vals k = Some v \<and> (default_value a = Some v \<or> converted (conversion a) v)"
  using assms unfolding argparse_laws_def by blast

lemma converted_get:
  "vals k = Some v \<Longrightarrow> v = V_string s \<or> converted Plain v \<Longrightarrow> \<exists>s. get_string vals k = Inr s"
  "vals k = Some v \<Longrightarrow> converted (Checked f) v \<Longrightarrow> \<exists>s t. get_string vals k = Inr s \<and> f t = Inr s"
  "vals k = Some v \<Longrightarrow> v = V_u16 n \<or> converted Scan_u16 v \<Longrightarrow> \<exists>n. get_u16 vals k = Inr n"
  "vals k = Some v \<Longrightarrow> v = V_u32 m \<or> converted Scan_u32 v \<Longrightarrow> \<exists>n. get_u32 vals k = Inr n"
  "vals k = Some v \<Longrightarrow> v = V_bool b \<or> converted (Flag c) v \<Longrightarrow> \<exists>b. get_bool vals k = Inr b"
  by (cases v; auto simp: get_string_def get_u16_def get_u32_def get_bool_def)+

lemma client_values:
  assumes "argparse_laws parse" and "parse client_arguments argv = Inr vals"
  shows "\<exists>act path p d a. get_string vals ''action'' = Inr act \<and> (act = ''send'' \<or> act = ''receive'') \<and>
    get_string vals ''file_or_code'' = Inr path \<and> get_u16 vals ''-p'' = Inr p \<and> get_string vals ''-d'' = Inr d \<and>
    get_bool vals ''-a'' = Inr a"
proof -
  note found = argparse_value [OF assms]
  have "\<exists>v. vals ''action'' = Some v \<and> converted (Checked check_action) v"
    using found [of "client_arguments ! 0" "''action''"] by (simp add: client_arguments_def)
  then obtain act t where 1: "get_string vals ''action'' = Inr act" "check_action t = Inr act"
    using converted_get(2) by blast
  then have act: "act = ''send'' \<or> act = ''receive''" by (auto simp: check_action_def split: if_splits)
  have "\<exists>v. vals ''file_or_code'' = Some v \<and> converted Plain v"
    using found [of "client_arguments ! 1" "''file_or_code''"] by (simp add: client_arguments_def)
  then obtain path where 2: "get_string vals ''file_or_code'' = Inr path" using converted_get(1) by blast
  have "\<exists>v. vals ''-p'' = Some v \<and> (v = V_u16 8080 \<or> converted Scan_u16 v)"
    using found [of "client_arguments ! 2" "''-p''"] by (auto simp: client_arguments_def)
  then obtain p where 3: "get_u16 vals ''-p'' = Inr p" using converted_get(3) by blast
  have "\<exists>v. vals ''-d'' = Some v \<and> (v = V_string DEFAULT_SERVER_DOMAIN \<or> converted Plain v)"
    using found [of "client_arguments ! 3" "''-d''"] by (auto simp: client_arguments_def)
  then obtain d where 4: "get_string vals ''-d'' = Inr d" using converted_get(1) by blast
  have "\<exists>v. vals ''-a'' = Some v \<and> (v = V_bool False \<or> converted (Flag True) v)"
    using found [of "client_arguments ! 4" "''-a''"] by (auto simp: client_arguments_def)
  then obtain a where 5: "get_bool vals ''-a'' = Inr a" using converted_get(5) by blast
  show ?thesis using 1 act 2 3 4 5 by blast
qed

text \<open>
  C40. A parsed command line is always usable: no value is missing or of the wrong type; a sender gets
  a path without trailing slashes and no code, a receiver the code as typed and no path, and the
  certificate is verified unless \<open>-a\<close> was given.  An error of the library becomes a
  \<open>ClientArgParserException\<close> exactly if it is a \<open>runtime_error\<close>.
\<close>

theorem parseClientArgs_total:
  assumes "argparse_laws parse"
  shows "case parse client_arguments argv of
      Inl e \<Rightarrow> parseClientArgs parse argv = Inl (if is_runtime_error e then ClientArgParserException (what e) else e)
    | Inr vals \<Rightarrow> \<exists>args path. parseClientArgs parse argv = Inr args \<and> get_string vals ''file_or_code'' = Inr path \<and>
        (action args = send_action \<and> get_string vals ''action'' = Inr ''send'' \<and>
           file_to_send_path args = Some (removeTrailingSlashes path) \<and> receive_code args = None \<or>
         action args = receive_action \<and> get_string vals ''action'' = Inr ''receive'' \<and>
           file_to_send_path args = None \<and> receive_code args = Some path) \<and>
        (verify_cert args \<longleftrightarrow> get_bool vals ''-a'' = Inr False)"
proof (cases "parse client_arguments argv")
  case (Inl e)
  then show ?thesis by (simp add: parseClientArgs_def)
next
  case (Inr vals)
  obtain act path p d a where v: "get_string vals ''action'' = Inr act" "act = ''send'' \<or> act = ''receive''"
    "get_string vals ''file_or_code'' = Inr path" "get_u16 vals ''-p'' = Inr p" "get_string vals ''-d'' = Inr d"
    "get_bool vals ''-a'' = Inr a"
    using client_values [OF assms Inr] by blast
  then show ?thesis using Inr by (auto simp: parseClientArgs_def)
qed

text \<open>A parser of positional arguments only, which checks the values it gives.\<close>

definition fits :: "argument \<Rightarrow> arg_value \<Rightarrow> bool" where
  "fits a v \<longleftrightarrow> default_value a = Some v \<or>
     (case conversion a of
        Checked f \<Rightarrow> (case v of V_string s \<Rightarrow> f s = Inr s | _ \<Rightarrow> False)
      | c \<Rightarrow> converted c v)"

lemma fits_converted: "fits a v \<Longrightarrow> default_value a = Some v \<or> converted (conversion a) v"
  by (cases v) (auto simp: fits_def split: conversion.splits)

definition positional_parse :: argparse where
  "positional_parse spec argv =
     (let vals = map_of (concat (map (\<lambda>(a, t). map (\<lambda>k. (k, V_string t)) (names a)) (zip (filter required spec) argv)) @
          concat (map (\<lambda>a. case default_value a of None \<Rightarrow> [] | Some v \<Rightarrow> map (\<lambda>k. (k, v)) (names a)) spec))
      in if length argv = length (filter required spec) \<and>
            list_all (\<lambda>a. list_all (\<lambda>k. case vals k of None \<Rightarrow> False | Some v \<Rightarrow> fits a v) (names a)) spec
         then Inr vals else Inl (Runtime_error ''bad arguments''))"

lemma positional_parse_laws: "argparse_laws positional_parse"
  unfolding argparse_laws_def
proof (intro allI impI, elim conjE)
  fix spec argv vals a k
  assume "positional_parse spec argv = Inr vals" and "a \<in> set spec" and "k \<in> set (names a)"
  then have "case vals k of None \<Rightarrow> False | Some v \<Rightarrow> fits a v"
    by (auto simp: positional_parse_def Let_def list_all_iff split: if_splits)
  then show "\<exists>v. vals k = Some v \<and> (default_value a = Some v \<or> converted (conversion a) v)"
    using fits_converted by (auto split: option.splits)
qed

theorem parseClientArgs_total_witness:
  "\<exists>args. parseClientArgs positional_parse [''send'', ''dir/''] = Inr args \<and> action args = send_action \<and>
     file_to_send_path args = Some (removeTrailingSlashes ''dir/'')"
proof -
  obtain vals where v: "positional_parse client_arguments [''send'', ''dir/''] = Inr vals"
    "get_string vals ''action'' = Inr ''send''" "get_string vals ''file_or_code'' = Inr ''dir/''"
    by (simp add: positional_parse_def client_arguments_def fits_def check_action_def get_string_def)
  show ?thesis
    using parseClientArgs_total [OF positional_parse_laws, of "[''send'', ''dir/'']"] v by auto
qed

text \<open>
  The server's command line: a successful parse gives all three values; the path to the word
  lists that \<open>-w\<close> announces is accepted and has no effect on them.
\<close>

theorem parseServerArgs_total:
  assumes "argparse_laws parse" and "parse server_arguments argv = Inr vals"
  shows "(\<exists>args. parseServerArgs parse argv = Inr args) \<and>
    parseServerArgs (\<lambda>_ _. Inr (vals(''-w'' := w, ''--json_words'' := w))) argv = parseServerArgs parse argv"
proof -
  note found = argparse_value [OF assms]
  have "\<exists>v. vals ''key-cert-dir'' = Some v \<and> converted Plain v"
    using found [of "server_arguments ! 0" "''key-cert-dir''"] by (simp add: server_arguments_def)
  then obtain d where 1: "get_string vals ''key-cert-dir'' = Inr d" using converted_get(1) by blast
  have "\<exists>v. vals ''-p'' = Some v \<and> (v = V_u16 DEFAULT_PORT \<or> converted Scan_u16 v)"
    using found [of "server_arguments ! 1" "''-p''"] by (auto simp: server_arguments_def)
  then obtain p where 2: "get_u16 vals ''-p'' = Inr p" using converted_get(3) by blast
  have "\<exists>v. vals ''-t'' = Some v \<and> (v = V_u32 DEFAULT_CLIENT_TIMEOUT \<or> converted Scan_u32 v)"
    using found [of "server_arguments ! 2" "''-t''"] by (auto simp: server_arguments_def)
  then obtain t where 3: "get_u32 vals ''-t'' = Inr t" using converted_get(4) by blast
  show ?thesis using assms(2) 1 2 3
    by (simp add: parseServerArgs_def get_string_def get_u16_def get_u32_def)
qed

theorem parseServerArgs_total_witness:
  "\<exists>args. parseServerArgs positional_parse [''certs''] = Inr args"
proof -
  obtain vals where "positional_parse server_arguments [''certs''] = Inr vals"
    by (simp add: positional_parse_def server_arguments_def fits_def)
  then show ?thesis using parseServerArgs_total [OF positional_parse_laws] by blast
qed

end
