(* ===== verification/App.thy ===== *)
theory App
  imports HostInvariant ClientSocket Args
begin

text \<open>
  \<open>apps/drop-file.cpp\<close>: the client program from its command line to its exit status.  The objects of a
  run go out of scope in the order the code has them, also on an exception, but not when the run is killed
  by a trap or by undefined behaviour (\<open>killed\<close>, \<open>unwind\<close>, \<open>leave\<close>); the lines this file prints
  on the standard output are kept, those of the clients and the error stream are not.
\<close>

section \<open>The client program\<close>

text \<open>What the program is linked with and runs on.\<close>

record ('e, 'c, 'd, 'j, 'ep, 'peer, 'cert) env =
  evp :: "'e evp_api"
  zstd :: "('c, 'd) zstd_api"
  json :: "'j json_api"
  net :: "('ep, 'peer, 'cert) net_api"
  available :: "istream \<Rightarrow> nat"
  error_value :: "error \<Rightarrow> int"

definition createClientSocket ::
  "('e, 'c, 'd, 'j, 'ep, 'peer, 'cert) env \<Rightarrow> client_args \<Rightarrow> error + 'cert client_socket" where
  "createClientSocket env args = ClientSocket_init (net env) (server_domain_name args) (port args) (verify_cert args)"

text \<open>What a run leaves: the machine, what was printed, and what was written to the server.\<close>

record aftermath =
  left_machine :: host
  printed :: "string list"
  transmitted :: bytes

definition run_sender ::
  "('e, 'c, 'd, 'j, 'ep, 'peer, 'cert) env \<Rightarrow> string \<Rightarrow> socket \<Rightarrow> host \<Rightarrow> ((error + unit) \<times> aftermath) option" where
  "run_sender env path k h =
     (case DropFileSendClient_init \<lparr>sock = k, machine = h\<rparr> of
        (Inl e, s) \<Rightarrow> Some (Inl e, \<lparr>left_machine = machine s, printed = [], transmitted = tx (sock s)\<rparr>)
      | (Inr _, s) \<Rightarrow>
          case sendFSEntryMetadata (evp env) (zstd env) (json env) path s of
            None \<Rightarrow> None
          | Some (Inl e, s1) \<Rightarrow>
              Some (Inl e, \<lparr>left_machine = machine (unwind e DropFileSendClient_destroy s1), printed = [],
                            transmitted = tx (sock s1)\<rparr>)
          | Some (Inr (fs_entry, code), s1) \<Rightarrow>
              case RAIIFSEntry_move fs_entry of (data_source, fs_entry) \<Rightarrow>
              case sendFSEntry (available env) data_source s1 of (r, s2) \<Rightarrow>
                let s3 = s2\<lparr>machine := leave r (RAIIFSEntry_destroy fs_entry) (machine s2)\<rparr>
                in Some (r, \<lparr>left_machine = machine (leave r DropFileSendClient_destroy s3),
                             printed = [''Receive code: '' @ code], transmitted = tx (sock s3)\<rparr>))"

definition run_receiver ::
  "('e, 'c, 'd, 'j, 'ep, 'peer, 'cert) env \<Rightarrow> string \<Rightarrow> socket \<Rightarrow> string \<Rightarrow> host \<Rightarrow> ((error + unit) \<times> aftermath) option" where
  "run_receiver env code k input h =
     (case DropFileReceiveClient_init \<lparr>sock = k, machine = h, interaction = input\<rparr> of
        (Inl e, s) \<Rightarrow> Some (Inl e, \<lparr>left_machine = machine s, printed = [], transmitted = tx (sock s)\<rparr>)
      | (Inr _, s) \<Rightarrow>
          map_option (\<lambda>(r, s1). (r, \<lparr>left_machine = machine (leave r DropFileReceiveClient_destroy s1), printed = [],
              transmitted = tx (sock s1)\<rparr>))
            (ReceiveClient.receiveFile (evp env) (zstd env) (json env) code s))"

text \<open>The optional is dereferenced: without a value that is undefined behaviour.\<close>

definition runDropFileClient ::
  "('e, 'c, 'd, 'j, 'ep, 'peer, 'cert) env \<Rightarrow> client_args \<Rightarrow> string \<Rightarrow> host \<Rightarrow> ((error + unit) \<times> aftermath) option" where
  "runDropFileClient env args input h =
     (case createClientSocket env args of
        Inl e \<Rightarrow> Some (Inl e, \<lparr>left_machine = h, printed = [], transmitted = []\<rparr>)
      | Inr cs \<Rightarrow>
          if action args = send_action then
            (case file_to_send_path args of
               None \<Rightarrow> Some (Inl (Undefined_behaviour ''empty optional''), \<lparr>left_machine = h, printed = [], transmitted = []\<rparr>)
             | Some path \<Rightarrow> run_sender env path (base cs) h)
          else
            (case receive_code args of
               None \<Rightarrow> Some (Inl (Undefined_behaviour ''empty optional''), \<lparr>left_machine = h, printed = [], transmitted = []\<rparr>)
             | Some code \<Rightarrow> run_receiver env code (base cs) input h))"

definition addAdditionalInfo :: "int \<Rightarrow> string list" where
  "addAdditionalInfo code_value =
     (let code_for_certificate_verify_failed = 167772294
      in if code_value = code_for_certificate_verify_failed
         then [''Try adding '' @ CHR 0x27 # ''-a'' @ CHR 0x27 # '' flag, to allow self-signed certs.''] else [])"

datatype exit_status = Exit nat | Killed

fun main_catch :: "error \<Rightarrow> exit_status" where
  "main_catch (ClientArgParserException m) = Exit 1"
| "main_catch (System_error m) = Exit 3"
| "main_catch (Undefined_behaviour m) = Killed"
| "main_catch Division_trap = Killed"
| "main_catch e = (if is_DropFileBaseException e then Exit 2 else Exit 4)"

lemma main_catch_killed: "main_catch e = Killed \<longleftrightarrow> killed e"
  by (cases e) simp_all

definition main_info :: "('e, 'c, 'd, 'j, 'ep, 'peer, 'cert) env \<Rightarrow> error \<Rightarrow> string list" where
  "main_info env e = (if main_catch e = Exit 3 then addAdditionalInfo (error_value env e) else [])"

definition main ::
  "argparse \<Rightarrow> ('e, 'c, 'd, 'j, 'ep, 'peer, 'cert) env \<Rightarrow> string list \<Rightarrow> string \<Rightarrow> host \<Rightarrow> (exit_status \<times> aftermath) option" where
  "main parse env argv input h =
     (case parseClientArgs parse argv of
        Inl e \<Rightarrow> Some (main_catch e, \<lparr>left_machine = h, printed = main_info env e, transmitted = []\<rparr>)
      | Inr args \<Rightarrow>
          map_option (\<lambda>(r, a). case r of
              Inr _ \<Rightarrow> (Exit 0, a)
            | Inl e \<Rightarrow> (main_catch e, a\<lparr>printed := printed a @ main_info env e\<rparr>))
            (runDropFileClient env args input h))"

section \<open>The machine stays proper\<close>

lemma DropFileSendClient_init_keeps:
  "DropFileSendClient_init s = (r, s') \<Longrightarrow> keeps tree_ok (machine s) (machine s')"
  using keeps_trans [OF keeps_remove_all proper.create_directories_keeps]
  by (auto simp: DropFileSendClient_init_def on_machine_def split: prod.splits)

lemma DropFileReceiveClient_init_keeps:
  "DropFileReceiveClient_init s = (r, s') \<Longrightarrow> keeps tree_ok (machine s) (machine s')"
  using keeps_trans [OF keeps_remove_all proper.create_directories_keeps]
  by (auto simp: DropFileReceiveClient_init_def on_machine_def split: prod.splits)

lemma destroy_machine:
  "keeps tree_ok h (machine s) \<Longrightarrow>
     machine (DropFileSendClient_destroy s) = remove_all (DROP_FILE_SENDER_TMP_DIR h) (machine s)"
  "keeps tree_ok h (machine t) \<Longrightarrow>
     machine (DropFileReceiveClient_destroy t) = remove_all (DROP_FILE_RECEIVER_TMP_DIR h) (machine t)"
  using keeps_env
  by (fastforce simp: DropFileSendClient_destroy_def DropFileReceiveClient_destroy_def
      DROP_FILE_SENDER_TMP_DIR_def DROP_FILE_RECEIVER_TMP_DIR_def)+

text \<open>Every end of a run but a failure of the constructor is the destructor's, unless the run is killed.\<close>

lemma run_sender_ends:
  assumes "run_sender env path k h = Some (r, a)"
  shows "((\<exists>e. fst (DropFileSendClient_init \<lparr>sock = k, machine = h\<rparr>) = Inl e) \<or> (\<exists>e. r = Inl e \<and> killed e)) \<and>
      keeps tree_ok h (left_machine a) \<or>
    (\<exists>h1. keeps tree_ok h h1 \<and> left_machine a = remove_all (DROP_FILE_SENDER_TMP_DIR h) h1)"
proof -
  obtain ri s where i: "DropFileSendClient_init \<lparr>sock = k, machine = h\<rparr> = (ri, s)" by fastforce
  have k0: "keeps tree_ok h (machine s)" using DropFileSendClient_init_keeps [OF i] by simp
  show ?thesis
  proof (cases ri)
    case (Inl e)
    then show ?thesis using assms i k0 by (auto simp: run_sender_def)
  next
    case (Inr u)
    obtain rm s1 where m: "sendFSEntryMetadata (evp env) (zstd env) (json env) path s = Some (rm, s1)"
      using assms i Inr by (auto simp: run_sender_def split: option.splits)
    then have k1: "keeps tree_ok h (machine s1)" using keeps_trans [OF k0 sendFSEntryMetadata_keeps] by blast
    show ?thesis
    proof (cases rm)
      case (Inl e)
      then have "r = Inl e" "left_machine a = machine (unwind e DropFileSendClient_destroy s1)"
        using assms i \<open>ri = Inr u\<close> m by (auto simp: run_sender_def)
      then show ?thesis using destroy_machine(1) [OF k1] k1 by (cases "killed e") auto
    next
      case (Inr x)
      obtain entry code where x: "x = (entry, code)" by (cases x)
      obtain data_source left where mv: "RAIIFSEntry_move entry = (data_source, left)" by fastforce
      obtain r2 s2 where f: "sendFSEntry (available env) data_source s1 = (r2, s2)" by fastforce
      let ?s3 = "s2\<lparr>machine := leave r2 (RAIIFSEntry_destroy left) (machine s2)\<rparr>"
      have k3: "keeps tree_ok h (machine ?s3)"
        using keeps_trans [OF k1 keeps_trans [OF sendFSEntry_keeps [OF f] leave_keeps [OF RAIIFSEntry_destroy_keeps]]] by simp
      have "r = r2" "left_machine a = machine (leave r2 DropFileSendClient_destroy ?s3)"
        using assms i \<open>ri = Inr u\<close> m Inr x mv f by (simp_all add: run_sender_def Let_def) auto
      then show ?thesis using destroy_machine(1) [OF k3] k3 by (cases "\<exists>e. r = Inl e \<and> killed e") (auto simp: leave_alive)
    qed
  qed
qed

lemma run_receiver_ends:
  assumes "evp_laws (evp env) digest" and "run_receiver env code k input h = Some (r, a)"
  shows "((\<exists>e. fst (DropFileReceiveClient_init \<lparr>sock = k, machine = h, interaction = input\<rparr>) = Inl e) \<or>
        (\<exists>e. r = Inl e \<and> killed e)) \<and> keeps tree_ok h (left_machine a) \<or>
    (\<exists>h1. keeps tree_ok h h1 \<and> left_machine a = remove_all (DROP_FILE_RECEIVER_TMP_DIR h) h1)"
proof -
  obtain ri s where i: "DropFileReceiveClient_init \<lparr>sock = k, machine = h, interaction = input\<rparr> = (ri, s)" by fastforce
  have k0: "keeps tree_ok h (machine s)" using DropFileReceiveClient_init_keeps [OF i] by simp
  show ?thesis
  proof (cases ri)
    case (Inl e)
    then show ?thesis using assms i k0 by (auto simp: run_receiver_def)
  next
    case (Inr u)
    obtain s1 where s1: "ReceiveClient.receiveFile (evp env) (zstd env) (json env) code s = Some (r, s1)"
      "left_machine a = machine (leave r DropFileReceiveClient_destroy s1)"
      using assms i Inr by (auto simp: run_receiver_def)
    have k1: "keeps tree_ok h (machine s1)" using keeps_trans [OF k0 receiveFile_keeps [OF assms(1) s1(1)]] .
    then show ?thesis using s1(2) destroy_machine(2) [OF k1]
      by (cases "\<exists>e. r = Inl e \<and> killed e") (auto simp: leave_alive)
  qed
qed

lemma runDropFileClient_keeps:
  assumes "evp_laws (evp env) digest" and "runDropFileClient env args input h = Some (r, a)"
  shows "keeps tree_ok h (left_machine a)"
proof (cases "createClientSocket env args")
  case (Inl e)
  then show ?thesis using assms(2) by (auto simp: runDropFileClient_def)
next
  case (Inr cs)
  consider (refused) "left_machine a = h"
    | (sends) path where "run_sender env path (base cs) h = Some (r, a)"
    | (receives) code where "run_receiver env code (base cs) input h = Some (r, a)"
    using assms(2) Inr by (auto simp: runDropFileClient_def split: if_splits option.splits)
  then show ?thesis
  proof cases
    case sends
    from run_sender_ends [OF this] show ?thesis using keeps_trans [OF _ keeps_remove_all] by auto
  next
    case receives
    from run_receiver_ends [OF assms(1) this] show ?thesis using keeps_trans [OF _ keeps_remove_all] by auto
  qed simp
qed

section \<open>No temporary files stay\<close>

lemma remove_all_absent:
  assumes "p = path_append d n" and "valid_name n" and "d \<noteq> []"
  shows "\<not> fs_exists (remove_all p h) p"
proof (cases "resolve h p")
  case None
  then show ?thesis by (simp add: remove_all_def fs_exists_def stat_def)
next
  case (Some q)
  obtain cs where cs: "split_slash p = cs @ [n]" using split_path_append [OF assms(2,3)] assms(1) by blast
  have "q \<noteq> []" using Some assms(2) cs
    by (auto simp: resolve_def walk_append valid_name_def split: if_splits option.splits)
  then have "lookup (FileSystem.erase q (root h)) q = None" by (rule lookup_erase)
  then show ?thesis using Some resolve_unique [OF Some, of "FileSystem.erase q (root h)"]
    by (auto simp: remove_all_def fs_exists_def stat_def split: option.splits)
qed

lemma tmp_dirs_absent:
  "\<not> fs_exists (remove_all (DROP_FILE_SENDER_TMP_DIR h) h') (DROP_FILE_SENDER_TMP_DIR h)"
  "\<not> fs_exists (remove_all (DROP_FILE_RECEIVER_TMP_DIR h) h') (DROP_FILE_RECEIVER_TMP_DIR h)"
  by (rule remove_all_absent [OF DROP_FILE_SENDER_TMP_DIR_def], simp add: valid_name_def,
      simp add: path_append_def is_absolute_def,
      rule remove_all_absent [OF DROP_FILE_RECEIVER_TMP_DIR_def], simp add: valid_name_def,
      simp add: path_append_def is_absolute_def)

lemma run_sender_alive:
  assumes "avail_ok (available env)" and "run_sender env path k h = Some (Inl e, a)"
    and "DropFileSendClient_init \<lparr>sock = k, machine = h\<rparr> = (Inr (), s)"
    and "open_in (machine s) path = Some d" and "length d < 2 ^ 64"
  shows "\<not> killed e"
proof -
  have "\<not> is_directory_at (machine s) path"
    using assms(4) by (auto simp: open_in_def is_directory_at_def split: option.splits node.splits)
  then have cn: "compressIfNecessary (zstd env) path s = Some (Inr (RAIIFSEntry_init path False, False), s)"
    by (simp add: compressIfNecessary_def Let_def)
  obtain ra s1 where an: "announce (evp env) (json env) path False s = (ra, s1)" by fastforce
  show ?thesis
  proof (cases ra)
    case (Inl x)
    then have "e = x" using assms(2,3) cn an by (auto simp: run_sender_def sendFSEntryMetadata_def RAIIFSEntry_init_def)
    then show ?thesis using announce_alive an Inl by blast
  next
    case (Inr code)
    obtain rs s2 where st: "stream_file (available env) path s1 = (rs, s2)" by fastforce
    have "machine s1 = machine s" using announce_machine [of "evp env" "json env" path False s] an by simp
    then have o: "open_in (machine s1) path = Some d" using assms(4) by simp
    have "rs = Inl e" using assms(2,3) cn an Inr st
      by (auto simp: run_sender_def sendFSEntryMetadata_def RAIIFSEntry_init_def RAIIFSEntry_move_def sendFSEntry_def Let_def)
    then show ?thesis using stream_file_any [OF assms(1) st o assms(5)] by blast
  qed
qed

text \<open>
  C24. However a run ends, unless it is killed, no temporary file of it is left: once the client object has
  been made, the sender's or the receiver's temporary directory is gone when the program is, with
  everything in it.  A sender whose path is a file of less than 2^64 bytes is never killed.
\<close>

theorem no_temporary_files:
  assumes "evp_laws (evp env) digest"
  shows "(run_sender env path k h = Some (r, a) \<and> fst (DropFileSendClient_init \<lparr>sock = k, machine = h\<rparr>) = Inr () \<and>
      (\<forall>e. r = Inl e \<longrightarrow> main_catch e \<noteq> Killed) \<longrightarrow> \<not> fs_exists (left_machine a) (DROP_FILE_SENDER_TMP_DIR h)) \<and>
    (run_receiver env code k input h = Some (r, a) \<and>
      fst (DropFileReceiveClient_init \<lparr>sock = k, machine = h, interaction = input\<rparr>) = Inr () \<and>
      (\<forall>e. r = Inl e \<longrightarrow> main_catch e \<noteq> Killed) \<longrightarrow> \<not> fs_exists (left_machine a) (DROP_FILE_RECEIVER_TMP_DIR h)) \<and>
    (avail_ok (available env) \<and> run_sender env path k h = Some (Inl e, a) \<and>
      DropFileSendClient_init \<lparr>sock = k, machine = h\<rparr> = (Inr (), s) \<and> open_in (machine s) path = Some d \<and>
      length d < 2 ^ 64 \<longrightarrow> main_catch e \<noteq> Killed)"
proof (intro conjI impI; elim conjE)
  assume run: "run_sender env path k h = Some (r, a)" and "fst (DropFileSendClient_init \<lparr>sock = k, machine = h\<rparr>) = Inr ()"
    and "\<forall>e. r = Inl e \<longrightarrow> main_catch e \<noteq> Killed"
  with run_sender_ends [OF run] show "\<not> fs_exists (left_machine a) (DROP_FILE_SENDER_TMP_DIR h)"
    using tmp_dirs_absent(1) by (auto simp: main_catch_killed)
next
  assume run: "run_receiver env code k input h = Some (r, a)"
    and "fst (DropFileReceiveClient_init \<lparr>sock = k, machine = h, interaction = input\<rparr>) = Inr ()"
    and "\<forall>e. r = Inl e \<longrightarrow> main_catch e \<noteq> Killed"
  with run_receiver_ends [OF assms run] show "\<not> fs_exists (left_machine a) (DROP_FILE_RECEIVER_TMP_DIR h)"
    using tmp_dirs_absent(2) by (auto simp: main_catch_killed)
next
  assume "avail_ok (available env)" "run_sender env path k h = Some (Inl e, a)"
    "DropFileSendClient_init \<lparr>sock = k, machine = h\<rparr> = (Inr (), s)" "open_in (machine s) path = Some d" "length d < 2 ^ 64"
  from run_sender_alive [OF this] show "main_catch e \<noteq> Killed" by (simp add: main_catch_killed)
qed

section \<open>What success means\<close>

lemma main_catch_not_0: "main_catch e \<noteq> Exit 0"
  by (cases e) simp_all

lemma main_exit_0:
  assumes "main parse env argv input h = Some (Exit 0, a)" and "parseClientArgs parse argv = Inr args"
  shows "runDropFileClient env args input h = Some (Inr (), a)"
proof -
  obtain r b where "runDropFileClient env args input h = Some (r, b)" using assms by (auto simp: main_def)
  then show ?thesis using assms main_catch_not_0 by (cases r) (auto simp: main_def)
qed

lemma run_receiver_success:
  assumes "evp_laws (evp env) digest" and "run_receiver env code k input h = Some (Inr (), a)"
  shows "\<exists>s j name n c q d h'. DropFileReceiveClient_init \<lparr>sock = k, machine = h, interaction = input\<rparr> = (Inr (), s) \<and>
    offers (json env) s j name n c \<and> says_yes input \<and> new_file (machine s) (target_path c (machine s) name) q \<and>
    length d = unat n \<and> json_get (json_get_string (json env)) (json env) j FILE_HASH_KEY = Inr (binaryToHumanReadable (digest d)) \<and>
    handleCompressedFile (zstd env) c (target_path c (machine s) name)
      ((machine s)\<lparr>root := put q (File d) (root (machine s))\<rparr>) = Some (Inr (), h') \<and>
    left_machine a = remove_all (DROP_FILE_RECEIVER_TMP_DIR h) h'"
proof -
  obtain ri s where i: "DropFileReceiveClient_init \<lparr>sock = k, machine = h, interaction = input\<rparr> = (ri, s)" by fastforce
  then have ri: "ri = Inr ()" using assms(2) by (cases ri) (auto simp: run_receiver_def)
  obtain s1 where s1: "ReceiveClient.receiveFile (evp env) (zstd env) (json env) code s = Some (Inr (), s1)"
    "left_machine a = machine (DropFileReceiveClient_destroy s1)"
    using assms(2) i ri by (auto simp: run_receiver_def)
  have int: "interaction s = input" using i by (auto simp: DropFileReceiveClient_init_def on_machine_def split: prod.splits)
  have k1: "keeps tree_ok h (machine s1)"
    using keeps_trans [OF _ receiveFile_keeps [OF assms(1) s1(1)]] DropFileReceiveClient_init_keeps [OF i] by simp
  obtain x s2 where dl: "download (evp env) (json env) code s = (Inr x, s2)"
    and hc: "handleCompressedFile (zstd env) (fst x) (snd x) (machine s2) = Some (Inr (), machine s1)"
    using s1(1) by (auto simp: ReceiveClient.receiveFile_def split: prod.splits sum.splits)
  from download_any [OF assms(1) dl] obtain j name n c q d where
    o: "offers (json env) s j name n c" "says_yes (interaction s)" "new_file (machine s) (target_path c (machine s) name) q"
    "machine s2 = (machine s)\<lparr>root := put q (File d) (root (machine s))\<rparr>"
    "x = (c, target_path c (machine s) name)" "length d = unat n"
    "json_get (json_get_string (json env)) (json env) j FILE_HASH_KEY = Inr (binaryToHumanReadable (digest d))"
    by auto
  have "handleCompressedFile (zstd env) c (target_path c (machine s) name)
      ((machine s)\<lparr>root := put q (File d) (root (machine s))\<rparr>) = Some (Inr (), machine s1)"
    using hc unfolding o(4,5) by simp
  moreover have "left_machine a = remove_all (DROP_FILE_RECEIVER_TMP_DIR h) (machine s1)"
    unfolding s1(2) by (rule destroy_machine(2) [OF k1])
  ultimately show ?thesis using i o(1,2,3,6,7) unfolding ri int by blast
qed

lemma run_sender_success:
  assumes "avail_ok (available env)"
    and short: "\<forall>msg t. createSendMessage (evp env) (json env) (machine s) path False = Inr msg \<and>
      json_dump (json env) msg = Some t \<longrightarrow> length t < 2 ^ 64"
    and "run_sender env path k h = Some (Inr (), a)"
    and "DropFileSendClient_init \<lparr>sock = k, machine = h\<rparr> = (ri, s)"
    and "open_in (machine s) path = Some d" and "length d < 2 ^ 64"
  shows "\<exists>code msg t w. printed a = [''Receive code: '' @ code] \<and>
    createSendMessage (evp env) (json env) (machine s) path False = Inr msg \<and> json_dump (json env) msg = Some t \<and>
    transmitted a = tx k @ wire t @ w \<and> sent_all d w \<and> left_machine a = remove_all (DROP_FILE_SENDER_TMP_DIR h) (machine s)"
proof -
  have ri: "ri = Inr ()" using assms(3,4) by (cases ri) (auto simp: run_sender_def)
  have k0: "keeps tree_ok h (machine s)" using DropFileSendClient_init_keeps [OF assms(4)] by simp
  have sk: "sock s = k" using assms(4) by (auto simp: DropFileSendClient_init_def on_machine_def split: prod.splits)
  have "\<not> is_directory_at (machine s) path"
    using assms(5) by (auto simp: open_in_def is_directory_at_def split: option.splits node.splits)
  then have cn: "compressIfNecessary (zstd env) path s = Some (Inr (RAIIFSEntry_init path False, False), s)"
    by (simp add: compressIfNecessary_def Let_def)
  obtain ra s1 where an: "announce (evp env) (json env) path False s = (ra, s1)" by fastforce
  obtain code where ra: "ra = Inr code"
    using assms(3,4) ri cn an by (cases ra) (auto simp: run_sender_def sendFSEntryMetadata_def RAIIFSEntry_init_def)
  from announce_success [OF an [unfolded ra] short] obtain msg t where m:
    "createSendMessage (evp env) (json env) (machine s) path False = Inr msg" "json_dump (json env) msg = Some t"
    "tx (sock s1) = tx (sock s) @ wire t" "machine s1 = machine s" by blast
  obtain rs s2 where st: "stream_file (available env) path s1 = (rs, s2)" by fastforce
  have fin: "rs = Inr ()" "printed a = [''Receive code: '' @ code]" "transmitted a = tx (sock s2)"
    "left_machine a = machine (DropFileSendClient_destroy s2)"
    using assms(3,4) ri cn an ra st
    by (auto simp: run_sender_def sendFSEntryMetadata_def RAIIFSEntry_init_def RAIIFSEntry_move_def sendFSEntry_def
        RAIIFSEntry_destroy_def Let_def DropFileSendClient_destroy_def)
  have "open_in (machine s1) path = Some d" using assms(5) m(4) by simp
  from stream_file_any [OF assms(1) st this assms(6)] fin(1) obtain w where
    w: "machine s2 = machine s1" "tx (sock s2) = tx (sock s1) @ w" "sent_all d w" by auto
  have "left_machine a = remove_all (DROP_FILE_SENDER_TMP_DIR h) (machine s)"
    using destroy_machine(1) [of h s2] k0 fin(4) w(1) m(4) by simp
  then show ?thesis using fin(2,3) m(1,2,3) w(2,3) sk by auto
qed


text \<open>
  C22. Exit status 0 of a receiving run means a verified file: the server offered a file, the user said
  yes, a new file was made with exactly the announced size and the announced digest, an archive was
  unpacked and removed, and what the run leaves is that machine without the temporary directory.
\<close>

theorem exit_0_received:
  assumes "evp_laws (evp env) digest" and "main parse env argv input h = Some (Exit 0, a)"
    and "parseClientArgs parse argv = Inr args" and "action args = receive_action"
  shows "\<exists>cs s j name n c q d h'. createClientSocket env args = Inr cs \<and>
    DropFileReceiveClient_init \<lparr>sock = base cs, machine = h, interaction = input\<rparr> = (Inr (), s) \<and>
    offers (json env) s j name n c \<and> says_yes input \<and> new_file (machine s) (target_path c (machine s) name) q \<and>
    length d = unat n \<and> json_get (json_get_string (json env)) (json env) j FILE_HASH_KEY = Inr (binaryToHumanReadable (digest d)) \<and>
    handleCompressedFile (zstd env) c (target_path c (machine s) name)
      ((machine s)\<lparr>root := put q (File d) (root (machine s))\<rparr>) = Some (Inr (), h') \<and>
    left_machine a = remove_all (DROP_FILE_RECEIVER_TMP_DIR h) h'"
proof -
  have run: "runDropFileClient env args input h = Some (Inr (), a)" using assms(2,3) by (rule main_exit_0)
  obtain cs where cs: "createClientSocket env args = Inr cs"
    using run by (cases "createClientSocket env args") (auto simp: runDropFileClient_def)
  then obtain code where "run_receiver env code (base cs) input h = Some (Inr (), a)"
    using run assms(4) by (auto simp: runDropFileClient_def split: option.splits)
  from run_receiver_success [OF assms(1) this] cs show ?thesis by blast
qed

text \<open>
  C23. Exit status 0 of a sending run of a file means that all of it was sent: the announcement and the
  file's whole content, cut into messages, are what the server was sent after the code was printed.
\<close>

theorem exit_0_sent:
  assumes "avail_ok (available env)" and "main parse env argv input h = Some (Exit 0, a)"
    and "parseClientArgs parse argv = Inr args" and "action args = send_action" and "file_to_send_path args = Some path"
    and "createClientSocket env args = Inr cs" and "DropFileSendClient_init \<lparr>sock = base cs, machine = h\<rparr> = (ri, s)"
    and "open_in (machine s) path = Some d" and "length d < 2 ^ 64"
    and "\<forall>msg t. createSendMessage (evp env) (json env) (machine s) path False = Inr msg \<and>
      json_dump (json env) msg = Some t \<longrightarrow> length t < 2 ^ 64"
  shows "\<exists>code msg t w. printed a = [''Receive code: '' @ code] \<and>
    createSendMessage (evp env) (json env) (machine s) path False = Inr msg \<and> json_dump (json env) msg = Some t \<and>
    transmitted a = tx (base cs) @ wire t @ w \<and> sent_all d w \<and>
    left_machine a = remove_all (DROP_FILE_SENDER_TMP_DIR h) (machine s)"
proof -
  have "runDropFileClient env args input h = Some (Inr (), a)" using assms(2,3) by (rule main_exit_0)
  then have "run_sender env path (base cs) h = Some (Inr (), a)" using assms(4-6) by (simp add: runDropFileClient_def)
  from run_sender_success [OF assms(1,10) this assms(7-9)] show ?thesis .
qed

section \<open>Runs\<close>

text \<open>A network that connects every name to a server of which this socket is the client's end.\<close>

definition sample_env :: "socket \<Rightarrow> (bytes, bytes, bool, flat, unit, unit, unit) env" where
  "sample_env k = \<lparr>evp = take4_evp, zstd = held_zstd, json = flat_json,
     net = \<lparr>net_resolve = (\<lambda>_ _. Inr [()]), net_connect = (\<lambda>_. Inr ()), net_handshake = (\<lambda>_ _ _. Inr k)\<rparr>,
     available = (\<lambda>_. 3), error_value = (\<lambda>_. 0)\<rparr>"

definition prepared_host :: "string \<Rightarrow> host" where
  "prepared_host who = Utils.sample_host\<lparr>root := Dir [(''tmp'', Dir [(''drop-file'', Dir [(who, Dir [])])]),
     (''home'', Dir [(''f'', File ''data'')])]\<rparr>"

lemma sample_tmp_dirs:
  "DROP_FILE_SENDER_TMP_DIR Utils.sample_host = ''/tmp/drop-file/sender''"
  "DROP_FILE_RECEIVER_TMP_DIR Utils.sample_host = ''/tmp/drop-file/receiver''"
  by (simp_all add: DROP_FILE_SENDER_TMP_DIR_def DROP_FILE_RECEIVER_TMP_DIR_def Utils.sample_host_def path_append_def
      is_absolute_def filename_def)

lemma sample_init:
  "DropFileSendClient_init \<lparr>sock = k, machine = Utils.sample_host\<rparr> = (Inr (), \<lparr>sock = k, machine = prepared_host ''sender''\<rparr>)"
  "DropFileReceiveClient_init \<lparr>sock = k, machine = Utils.sample_host, interaction = i\<rparr> =
     (Inr (), \<lparr>sock = k, machine = prepared_host ''receiver'', interaction = i\<rparr>)"
  unfolding DropFileSendClient_init_def DropFileReceiveClient_init_def client.select_convs sample_tmp_dirs
  by (simp_all add: Utils.sample_host_def remove_all_def resolve_def is_absolute_def create_directories_def on_machine_def
      prepared_host_def)


definition receiving_end :: socket where
  "receiving_end = sock (sample_receiver ''g'' [''dat'', ''a+''] ''y'')"

definition sending_end :: socket where
  "sending_end = \<lparr>rx = frame sample_answer @ frame ACK @ frame ACK, tx = [], tx_open = True, tx_quota = None, data_buffer = []\<rparr>"

lemma prepared_g:
  "\<not> fs_exists (prepared_host w) ''g''" "target_path False (prepared_host w) ''g'' = ''/home/g''"
  "new_file (prepared_host w) (target_path False (prepared_host w) ''g'') [''home'', ''g'']"
proof -
  show "\<not> fs_exists (prepared_host w) ''g''"
    by (simp add: prepared_host_def Utils.sample_host_def fs_exists_def stat_def resolve_def is_absolute_def)
  show p: "target_path False (prepared_host w) ''g'' = ''/home/g''"
    by (simp add: prepared_host_def Utils.sample_host_def target_path_def current_path_def path_append_def is_absolute_def filename_def)
  show "new_file (prepared_host w) (target_path False (prepared_host w) ''g'') [''home'', ''g'']"
    unfolding p by (simp add: new_file_def prepared_host_def Utils.sample_host_def resolve_def is_absolute_def)
qed

lemma sample_receive_run:
  "\<exists>a. run_receiver (sample_env receiving_end) ''red-fox'' receiving_end ''y'' Utils.sample_host = Some (Inr (), a)"
proof -
  let ?s = "\<lparr>sock = receiving_end, machine = prepared_host ''receiver'', interaction = ''y''\<rparr>"
  have off: "offered flat_json (put_flat (offer_json ''g'')) (offer_json ''g'') ''g'' 4
      (binaryToHumanReadable (take 4 (take (unat (4 :: size_t)) (concat [''dat'', ''a+''])))) False (machine ?s)"
    using offer_json_size [of "''g''"] prepared_g(1) send_fields_object(2) [OF flat_json_laws]
    by (simp add: offered_def offer_json_def base_dir_def) (simp add: prepared_host_def Utils.sample_host_def)
  have "writable (sock ?s)" "rx (sock ?s) = frame (put_flat (offer_json ''g'')) @ concat (map frame [''dat'', ''a+'']) @ []"
    by (simp_all add: receiving_end_def sample_receiver_def writable_def)
  moreover have "says_yes (interaction ?s)" by (simp add: says_yes_def read_char_def ReceiveClient.is_space_def)
  moreover have "new_file (machine ?s) (target_path False (machine ?s) ''g'') [''home'', ''g'']" using prepared_g(3) by simp
  ultimately obtain s' where "download take4_evp flat_json ''red-fox'' ?s = (Inr (False, target_path False (machine ?s) ''g''), s')"
    using download_ok [OF take4_evp_laws sample_request _ _ off] by fastforce
  then have "ReceiveClient.receiveFile take4_evp held_zstd flat_json ''red-fox'' ?s = Some (Inr (), s')"
    by (simp add: ReceiveClient.receiveFile_def handleCompressedFile_def)
  then show ?thesis by (simp add: run_receiver_def sample_init(2)) (simp add: sample_env_def)
qed

lemma sample_send_run:
  "\<exists>a. run_sender (sample_env sending_end) ''f'' sending_end Utils.sample_host = Some (Inr (), a)"
proof -
  let ?s = "\<lparr>sock = sending_end, machine = prepared_host ''sender''\<rparr>"
  have f: "open_in (prepared_host ''sender'') ''f'' = Some ''data''" "filename ''f'' = ''f''"
    by (simp_all add: prepared_host_def Utils.sample_host_def open_in_def stat_def resolve_def is_absolute_def filename_def)
  let ?d = "binaryToHumanReadable (take 4 ''data'')"
  let ?f = "send_fields ''f'' 4 ?d False"
  have df: "distinct (map fst ?f)" "?f \<noteq> []" by (simp_all add: send_fields_def key_defs)
  have lt: "length (put_flat (json_object flat_json ?f)) < 2 ^ 64"
    using df by (simp add: flat_object) (simp add: send_fields_def key_defs put_text_def binaryToHumanReadable_def)
  have jd: "json_dump flat_json (json_object flat_json (send_fields (filename ''f'') (of_nat (length ''data''))
      (binaryToHumanReadable (take 4 ''data'')) False)) = Some (put_flat (json_object flat_json ?f))"
    by (simp add: f(2))
  have o: "open_in (machine ?s) ''f'' = Some ''data''" "writable (sock ?s)"
    "rx (sock ?s) = frame sample_answer @ frame ACK @ frame ACK"
    using f(1) by (simp_all add: sending_end_def writable_def)
  have an: "announce take4_evp flat_json ''f'' False ?s = (Inr ''red-fox'',
      ?s\<lparr>sock := (written (wire (put_flat (json_object flat_json ?f))) (sock ?s))\<lparr>rx := frame ACK @ frame ACK\<rparr>\<rparr>)"
    by (rule announce_ok [OF take4_evp_laws o(1) jd lt o(2,3) sample_answer_code])
  let ?s1 = "?s\<lparr>sock := (written (wire (put_flat (json_object flat_json ?f))) (sock ?s))\<lparr>rx := frame ACK @ frame ACK\<rparr>\<rparr>"
  have "writable (sock ?s1)" "rx (sock ?s1) = frame ACK @ frame ACK @ []" "open_in (machine ?s1) ''f'' = Some ''data''"
    using o(1,2) by (simp_all add: writable_def written_def)
  then obtain s2 where s2: "stream_file (\<lambda>_. 3) ''f'' ?s1 = (Inr (), s2)"
    using stream_file_ok [of "\<lambda>_. 3" ?s1 "[]" "''f''" "''data''"] by (auto simp: avail_ok_def)
  have "\<not> is_directory_at (machine ?s) ''f''"
    using o(1) by (auto simp: open_in_def is_directory_at_def split: option.splits node.splits)
  then have cn: "compressIfNecessary held_zstd ''f'' ?s = Some (Inr (RAIIFSEntry_init ''f'' False, False), ?s)"
    by (simp add: compressIfNecessary_def Let_def)
  have "sendFSEntryMetadata take4_evp held_zstd flat_json ''f'' ?s = Some (Inr (RAIIFSEntry_init ''f'' False, ''red-fox''), ?s1)"
    using cn an by (simp add: sendFSEntryMetadata_def RAIIFSEntry_init_def RAIIFSEntry_move_def)
  moreover have "sendFSEntry (\<lambda>_. 3) (RAIIFSEntry_init ''f'' False) ?s1 =
      (Inr (), s2\<lparr>machine := RAIIFSEntry_destroy (RAIIFSEntry_init ''f'' False) (machine s2)\<rparr>)"
    using s2 by (simp add: sendFSEntry_def RAIIFSEntry_init_def)
  ultimately show ?thesis
    by (simp add: run_sender_def sample_init(1)) (simp add: sample_env_def RAIIFSEntry_move_def RAIIFSEntry_init_def Let_def)
qed


definition sample_args :: "action \<Rightarrow> string option \<Rightarrow> string option \<Rightarrow> client_args" where
  "sample_args act f c = \<lparr>action = act, file_to_send_path = f, receive_code = c, port = 8080,
     server_domain_name = DEFAULT_SERVER_DOMAIN, verify_cert = True\<rparr>"

lemma sample_parse:
  "parseClientArgs positional_parse [''receive'', ''red-fox''] = Inr (sample_args receive_action None (Some ''red-fox''))"
  "parseClientArgs positional_parse [''send'', ''f''] = Inr (sample_args send_action (Some ''f'') None)"
  by (simp_all add: parseClientArgs_def positional_parse_def client_arguments_def fits_def check_action_def
      get_string_def get_u16_def get_bool_def sample_args_def removeTrailingSlashes_def find_last_not_of_def)

lemma sample_connects:
  "\<exists>cs. createClientSocket (sample_env k) (sample_args x f c) = Inr cs \<and> base cs = k"
  by (simp add: createClientSocket_def sample_args_def ClientSocket_init_def sample_env_def connect_def start_def Let_def)

lemma sample_main_receives:
  "\<exists>a. main positional_parse (sample_env receiving_end) [''receive'', ''red-fox''] ''y'' Utils.sample_host = Some (Exit 0, a)"
proof -
  obtain cs where "createClientSocket (sample_env receiving_end) (sample_args receive_action None (Some ''red-fox'')) = Inr cs"
    "base cs = receiving_end" using sample_connects by blast
  then have "\<exists>a. runDropFileClient (sample_env receiving_end) (sample_args receive_action None (Some ''red-fox''))
      ''y'' Utils.sample_host = Some (Inr (), a)"
    using sample_receive_run by (simp add: runDropFileClient_def) (simp add: sample_args_def)
  then show ?thesis by (auto simp: main_def sample_parse)
qed

lemma sample_main_sends:
  "\<exists>a. main positional_parse (sample_env sending_end) [''send'', ''f''] [] Utils.sample_host = Some (Exit 0, a)"
proof -
  obtain cs where "createClientSocket (sample_env sending_end) (sample_args send_action (Some ''f'') None) = Inr cs"
    "base cs = sending_end" using sample_connects by blast
  then have "\<exists>a. runDropFileClient (sample_env sending_end) (sample_args send_action (Some ''f'') None)
      [] Utils.sample_host = Some (Inr (), a)"
    using sample_send_run by (simp add: runDropFileClient_def) (simp add: sample_args_def)
  then show ?thesis by (auto simp: main_def sample_parse)
qed

lemma sample_env_sel [simp]:
  "evp (sample_env k) = take4_evp" "json (sample_env k) = flat_json" "available (sample_env k) = (\<lambda>_. 3)"
  by (simp_all add: sample_env_def)

text \<open>A server that is gone when the answer is due: the sender ends in an exception.\<close>

lemma sample_send_fails:
  "\<exists>e a. run_sender (sample_env silent) ''f'' (sending_end\<lparr>rx := []\<rparr>) Utils.sample_host = Some (Inl e, a)"
proof -
  let ?s = "\<lparr>sock = sending_end\<lparr>rx := []\<rparr>, machine = prepared_host ''sender''\<rparr>"
  have f: "open_in (prepared_host ''sender'') ''f'' = Some ''data''"
    by (simp add: prepared_host_def Utils.sample_host_def open_in_def stat_def resolve_def is_absolute_def)
  let ?f = "send_fields (filename ''f'') (of_nat (length ''data'')) (binaryToHumanReadable (take 4 ''data'')) False"
  have "distinct (map fst ?f)" "?f \<noteq> []" by (simp_all add: send_fields_def key_defs)
  then have "length (put_flat (json_object flat_json ?f)) < 2 ^ 64"
    by (simp add: flat_object) (simp add: send_fields_def key_defs put_text_def binaryToHumanReadable_def filename_def)
  then have "\<exists>e s1. announce take4_evp flat_json ''f'' False ?s = (Inl e, s1)"
    using announce_unanswered [OF take4_evp_laws, of ?s "''f''" "''data''" flat_json False] f
    by (fastforce simp: sending_end_def writable_def)
  moreover have "compressIfNecessary held_zstd ''f'' ?s = Some (Inr (RAIIFSEntry_init ''f'' False, False), ?s)"
    using f by (auto simp: compressIfNecessary_def Let_def open_in_def is_directory_at_def split: option.splits node.splits)
  ultimately have "\<exists>e s1. sendFSEntryMetadata take4_evp held_zstd flat_json ''f'' ?s = Some (Inl e, s1)"
    by (auto simp: sendFSEntryMetadata_def RAIIFSEntry_init_def)
  then show ?thesis by (auto simp: run_sender_def sample_init(1)) (simp add: sample_env_def)
qed

theorem no_temporary_files_witness:
  "(\<exists>a. run_receiver (sample_env receiving_end) ''red-fox'' receiving_end ''y'' Utils.sample_host = Some (Inr (), a) \<and>
     \<not> fs_exists (left_machine a) ''/tmp/drop-file/receiver'') \<and>
   (\<exists>e a. run_sender (sample_env receiving_end) ''f'' (sending_end\<lparr>rx := []\<rparr>) Utils.sample_host = Some (Inl e, a) \<and>
     main_catch e \<noteq> Killed \<and> \<not> fs_exists (left_machine a) ''/tmp/drop-file/sender'')"
proof -
  have laws: "evp_laws (evp (sample_env receiving_end)) (take 4)" by (simp add: take4_evp_laws)
  obtain a where a: "run_receiver (sample_env receiving_end) ''red-fox'' receiving_end ''y'' Utils.sample_host = Some (Inr (), a)"
    using sample_receive_run by blast
  obtain e b where b: "run_sender (sample_env receiving_end) ''f'' (sending_end\<lparr>rx := []\<rparr>) Utils.sample_host = Some (Inl e, b)"
    using sample_send_fails by blast
  let ?s = "\<lparr>sock = sending_end\<lparr>rx := []\<rparr>, machine = prepared_host ''sender''\<rparr> :: client"
  have f: "open_in (machine ?s) ''f'' = Some ''data''"
    by (simp add: prepared_host_def Utils.sample_host_def open_in_def stat_def resolve_def is_absolute_def)
  have av: "avail_ok (available (sample_env receiving_end))" by (simp add: avail_ok_def)
  have "main_catch e \<noteq> Killed"
    using no_temporary_files [OF laws, of "''f''" "sending_end\<lparr>rx := []\<rparr>" Utils.sample_host "Inl e" b "''red-fox''" "''y''" e ?s "''data''"]
      b f av by (simp add: sample_init(1))
  moreover have "\<not> fs_exists (left_machine b) ''/tmp/drop-file/sender''"
    using no_temporary_files [OF laws, of "''f''" "sending_end\<lparr>rx := []\<rparr>" Utils.sample_host "Inl e" b "''red-fox''" "''y''"]
      b calculation by (simp add: sample_init sample_tmp_dirs)
  moreover have "\<not> fs_exists (left_machine a) ''/tmp/drop-file/receiver''"
    using no_temporary_files [OF laws, of "[]" receiving_end Utils.sample_host "Inr ()" a "''red-fox''" "''y''"] a
    by (simp add: sample_init sample_tmp_dirs)
  ultimately show ?thesis using a b by blast
qed

theorem exit_0_received_witness:
  "\<exists>a h'. main positional_parse (sample_env receiving_end) [''receive'', ''red-fox''] ''y'' Utils.sample_host = Some (Exit 0, a) \<and>
     left_machine a = remove_all (DROP_FILE_RECEIVER_TMP_DIR Utils.sample_host) h'"
proof -
  obtain a where a: "main positional_parse (sample_env receiving_end) [''receive'', ''red-fox''] ''y'' Utils.sample_host =
    Some (Exit 0, a)" using sample_main_receives by blast
  show ?thesis
    using exit_0_received [OF _ a sample_parse(1)] a take4_evp_laws by (fastforce simp: sample_args_def)
qed

theorem exit_0_sent_witness:
  "\<exists>a w. main positional_parse (sample_env sending_end) [''send'', ''f''] [] Utils.sample_host = Some (Exit 0, a) \<and>
     sent_all ''data'' w \<and> (\<exists>t. transmitted a = wire t @ w)"
proof -
  obtain a where a: "main positional_parse (sample_env sending_end) [''send'', ''f''] [] Utils.sample_host = Some (Exit 0, a)"
    using sample_main_sends by blast
  obtain cs where cs: "createClientSocket (sample_env sending_end) (sample_args send_action (Some ''f'') None) = Inr cs"
    "base cs = sending_end" using sample_connects by blast
  have i: "DropFileSendClient_init \<lparr>sock = base cs, machine = Utils.sample_host\<rparr> =
      (Inr (), \<lparr>sock = base cs, machine = prepared_host ''sender''\<rparr>)" by (rule sample_init(1))
  let ?h = "machine \<lparr>sock = base cs, machine = prepared_host ''sender''\<rparr>"
  have f: "open_in ?h ''f'' = Some ''data''"
    by (simp add: prepared_host_def Utils.sample_host_def open_in_def stat_def resolve_def is_absolute_def)
  let ?f = "send_fields (filename ''f'') (of_nat (length ''data'')) (binaryToHumanReadable (take 4 ''data'')) False"
  have msg: "createSendMessage take4_evp flat_json ?h ''f'' False = Inr (json_object flat_json ?f)"
    by (rule createSendMessage_file [OF take4_evp_laws f])
  have "distinct (map fst ?f)" "?f \<noteq> []" by (simp_all add: send_fields_def key_defs)
  then have "length (put_flat (json_object flat_json ?f)) < 2 ^ 64"
    by (simp add: flat_object) (simp add: send_fields_def key_defs put_text_def binaryToHumanReadable_def filename_def)
  then have short: "\<forall>msg t. createSendMessage (evp (sample_env sending_end)) (json (sample_env sending_end)) ?h ''f'' False = Inr msg \<and>
      json_dump (json (sample_env sending_end)) msg = Some t \<longrightarrow> length t < 2 ^ 64"
    using msg by simp
  show ?thesis
    using exit_0_sent [OF _ a sample_parse(2) _ _ cs(1) i f _ short] a
    by (fastforce simp: avail_ok_def sample_args_def cs(2) sending_end_def)
qed

end
