(* ===== verification/SessionsManager.thy ===== *)
theory SessionsManager
  imports Utils JsonApi
begin

text \<open>
  \<open>src/server/SessionsManager.cpp\<close> and \<open>include/server/JsonWords.hpp\<close>: the table of senders that wait
  for a receiver, keyed by a code of two words and a number, with its registration loop, the
  one-time hand-out and the removal of senders that have waited too long.

  A session object is referred to by its identity, a number.  Each operation that touches the table
  holds the mutex for its whole body, so each is one function on the table.  The table is kept as
  the list of its entries in iteration order.
\<close>

section \<open>Words\<close>

definition is_space :: "char \<Rightarrow> bool" where
  "is_space c \<longleftrightarrow> c \<in> {CHR 0x20, CHR 0x09, CHR 0x0A, CHR 0x0B, CHR 0x0C, CHR 0x0D}"

definition quoted :: "string \<Rightarrow> string" where
  "quoted s = CHR 0x27 # s @ [CHR 0x27]"

fun extract_elements :: "'j json_api \<Rightarrow> string \<Rightarrow> 'j list \<Rightarrow> error + string list" where
  "extract_elements J key [] = Inr []"
| "extract_elements J key (el # els) =
     (case json_get_string J el of
        None \<Rightarrow> Inl (Runtime_error (''Json'' @ CHR 0x27 # ''s '' @ quoted key @
                  '' key is expected to be an array of strings.''))
      | Some word \<Rightarrow>
          if word = [] then Inl (Runtime_error ''Any word cannot be empty.'')
          else if list_ex is_space word then Inl (Runtime_error ''Word cannot contain any whitespace.'')
          else sum_bind (extract_elements J key els) (\<lambda>words. Inr (word # words)))"

definition extractWords :: "'j json_api \<Rightarrow> 'j \<Rightarrow> string \<Rightarrow> error + string list" where
  "extractWords J json key =
     (case json_find J json key of
        None \<Rightarrow> Inl (Runtime_error (''Words json does not contain '' @ quoted key @ '' key.''))
      | Some v \<Rightarrow>
          case json_items J v of
            None \<Rightarrow> Inl (Runtime_error (''Json'' @ CHR 0x27 # ''s '' @ quoted key @
                      '' key is expected to be an array of strings.''))
          | Some els \<Rightarrow>
              sum_bind (extract_elements J key els) (\<lambda>words.
                if words = [] then Inl (Runtime_error (''String list of '' @ key @ '' cannot be empty.''))
                else Inr words))"

definition word_ok :: "string \<Rightarrow> bool" where
  "word_ok w \<longleftrightarrow> w \<noteq> [] \<and> \<not> list_ex is_space w"

lemma extract_elements_ok:
  "extract_elements J key els = Inr words \<Longrightarrow> map (json_get_string J) els = map Some words \<and> list_all word_ok words"
proof (induction els arbitrary: words)
  case Nil
  then show ?case by simp
next
  case (Cons el els)
  then show ?case
    by (auto simp: sum_bind_Inr_iff word_ok_def split: option.splits if_splits)
qed

lemma extractWords_usable:
  assumes "extractWords J json key = Inr words"
  shows "words \<noteq> [] \<and> list_all word_ok words \<and>
    (\<exists>v els. json_find J json key = Some v \<and> json_items J v = Some els \<and>
       map (json_get_string J) els = map Some words)"
  using assms extract_elements_ok
  by (fastforce simp: extractWords_def sum_bind_Inr_iff split: option.splits if_splits)

text \<open>
  Words that pass the check are usable in a code: \<open>extractWords\<close> returns a list only when the
  key holds an array of strings, the list is exactly those strings in order, it is not empty, and no
  word is empty or contains white space.
\<close>

theorem extractWords_ok:
  assumes "extractWords J json key = Inr words"
  shows "words \<noteq> [] \<and> list_all word_ok words \<and>
    (\<exists>v els. json_find J json key = Some v \<and> json_items J v = Some els \<and>
       map (json_get_string J) els = map Some words)"
  using assms by (rule extractWords_usable)

definition sample_words :: flat where
  "sample_words = Obj [(''nouns'', F_words [''map'', ''art'']), (''adjectives'', F_words [''able''])]"

theorem extractWords_ok_witness:
  "word_ok ''map'' \<and> word_ok ''art''"
proof -
  have "extractWords flat_json sample_words ''nouns'' = Inr [''map'', ''art'']"
    by (simp add: extractWords_def sample_words_def is_space_def)
  from extractWords_ok [OF this] show ?thesis by simp
qed

section \<open>The table\<close>

record 'j timed_session =
  client_session :: nat
  session_data :: 'j
  time_point :: int

record 'j sessions_manager =
  nouns :: "string list"
  adjectives :: "string list"
  senders_sessions :: "(string \<times> 'j timed_session) list"

definition SessionsManager_init :: "'j json_api \<Rightarrow> 'j \<Rightarrow> error + 'j sessions_manager" where
  "SessionsManager_init J words_json =
     sum_bind (extractWords J words_json ''nouns'') (\<lambda>ns.
     sum_bind (extractWords J words_json ''adjectives'') (\<lambda>adjs.
       Inr \<lparr>nouns = ns, adjectives = adjs, senders_sessions = []\<rparr>))"

text \<open>Three draws make one candidate code.\<close>

type_synonym draws = "nat \<times> nat \<times> nat"

fun generateSessionID :: "'j sessions_manager \<Rightarrow> draws \<Rightarrow> error + string" where
  "generateSessionID m (d1, d2, d3) =
     sum_bind (pickRandom d1 (adjectives m)) (\<lambda>adjective.
     sum_bind (pickRandom d2 (nouns m)) (\<lambda>noun.
     sum_bind (getRandom d3 0 100) (\<lambda>k.
       Inr (adjective @ ''-'' @ noun @ ''-'' @ show_nat (unat k)))))"

text \<open>
  The loop draws until a code is free.  The draws are the ones the generator will give; \<open>None\<close> means
  that all of them were taken and the loop goes on.
\<close>

fun registerSender ::
  "draws list \<Rightarrow> int \<Rightarrow> nat \<Rightarrow> 'j \<Rightarrow> 'j sessions_manager \<Rightarrow> ((error + string) \<times> 'j sessions_manager) option" where
  "registerSender [] now sender json m = None"
| "registerSender (d # ds) now sender json m =
     (case generateSessionID m d of
        Inl e \<Rightarrow> Some (Inl e, m)
      | Inr session_id \<Rightarrow>
          if map_of (senders_sessions m) session_id \<noteq> None then registerSender ds now sender json m
          else Some (Inr session_id,
            m\<lparr>senders_sessions := AList.update session_id
                \<lparr>client_session = sender, session_data = json, time_point = now\<rparr> (senders_sessions m)\<rparr>))"

definition getSenderWithMetadata :: "string \<Rightarrow> 'j sessions_manager \<Rightarrow> (error + nat \<times> 'j) \<times> 'j sessions_manager" where
  "getSenderWithMetadata session_code m =
     (case map_of (senders_sessions m) session_code of
        None \<Rightarrow> (Inl (SessionsManagerException ''Unknown session code.''), m)
      | Some node \<Rightarrow>
          (Inr (client_session node, session_data node),
           m\<lparr>senders_sessions := AList.delete session_code (senders_sessions m)\<rparr>))"

text \<open>Times are in nanoseconds; the clock is read once for each entry.\<close>

fun sweep_entries ::
  "int \<Rightarrow> (nat \<Rightarrow> int) \<Rightarrow> nat \<Rightarrow> (string \<times> 'j timed_session) list \<Rightarrow> (string \<times> 'j timed_session) list" where
  "sweep_entries client_timeout clock i [] = []"
| "sweep_entries client_timeout clock i ((code, s) # rest) =
     (let now = clock i; elapsed_time = now - time_point s in
      if client_timeout * 1000000000 < elapsed_time then sweep_entries client_timeout clock (Suc i) rest
      else (code, s) # sweep_entries client_timeout clock (Suc i) rest)"

definition terminateTimeoutClients :: "int \<Rightarrow> (nat \<Rightarrow> int) \<Rightarrow> 'j sessions_manager \<Rightarrow> 'j sessions_manager" where
  "terminateTimeoutClients client_timeout clock m =
     m\<lparr>senders_sessions := sweep_entries client_timeout clock 0 (senders_sessions m)\<rparr>"

definition currentSessions :: "'j sessions_manager \<Rightarrow> nat" where
  "currentSessions m = length (senders_sessions m)"

section \<open>Abstract view and invariant\<close>

definition sessions :: "'j sessions_manager \<Rightarrow> string \<rightharpoonup> 'j timed_session" where
  "sessions m = map_of (senders_sessions m)"

definition words_usable :: "string list \<Rightarrow> bool" where
  "words_usable ws \<longleftrightarrow> ws \<noteq> [] \<and> length ws < 2 ^ 64 \<and> list_all word_ok ws"

definition manager_ok :: "'j sessions_manager \<Rightarrow> bool" where
  "manager_ok m \<longleftrightarrow>
     distinct (map fst (senders_sessions m)) \<and> words_usable (nouns m) \<and> words_usable (adjectives m)"

text \<open>The codes that can be drawn.\<close>

definition session_codes :: "'j sessions_manager \<Rightarrow> string set" where
  "session_codes m =
     {a @ ''-'' @ n @ ''-'' @ show_nat k | a n k. a \<in> set (adjectives m) \<and> n \<in> set (nouns m) \<and> k \<le> 100}"

lemma finite_session_codes: "finite (session_codes m)"
proof (rule finite_subset)
  let ?code = "\<lambda>(a, n, k). a @ ''-'' @ n @ ''-'' @ show_nat k"
  show "session_codes m \<subseteq> ?code ` (set (adjectives m) \<times> set (nouns m) \<times> {..100})"
  proof
    fix c assume "c \<in> session_codes m"
    then obtain a n k where "c = ?code (a, n, k)"
      "(a, n, k) \<in> set (adjectives m) \<times> set (nouns m) \<times> {..100}"
      by (auto simp: session_codes_def)
    then show "c \<in> ?code ` (set (adjectives m) \<times> set (nouns m) \<times> {..100})" by (rule image_eqI)
  qed
qed simp

lemma generateSessionID_code:
  assumes "manager_ok m"
  shows "\<exists>code. generateSessionID m d = Inr code \<and> code \<in> session_codes m"
proof -
  obtain d1 d2 d3 where d: "d = (d1, d2, d3)" by (cases d) auto
  obtain a where a: "pickRandom d1 (adjectives m) = Inr a" "a \<in> set (adjectives m)"
    using pickRandom_member [of "adjectives m" d1] assms by (auto simp: manager_ok_def words_usable_def)
  obtain n where n: "pickRandom d2 (nouns m) = Inr n" "n \<in> set (nouns m)"
    using pickRandom_member [of "nouns m" d2] assms by (auto simp: manager_ok_def words_usable_def)
  obtain k where k: "getRandom d3 0 100 = Inr k" "k \<le> 100"
    using getRandom_range [of 0 100 d3] by auto
  from k(2) have "unat k \<le> 100" by (simp add: word_le_nat_alt)
  with a n k show ?thesis unfolding d session_codes_def by auto
qed

lemma every_code_drawn:
  assumes "manager_ok m" and "code \<in> session_codes m"
  shows "\<exists>d. generateSessionID m d = Inr code"
proof -
  have pick: "\<exists>d. pickRandom d ws = Inr w" if w: "words_usable ws" "w \<in> set ws" for ws w
  proof -
    obtain i where i: "i < length ws" "ws ! i = w" using w(2) by (auto simp: in_set_conv_nth)
    let ?b = "of_nat (length ws) - 1 :: size_t"
    have l: "0 < length ws" "length ws < 2 ^ 64" using w by (auto simp: words_usable_def)
    then have b: "unat ?b = length ws - 1" by (cases ws) (simp_all add: unat_of_nat_size)
    have "unat (of_nat i :: size_t) = i" using i l by (intro unat_of_nat_size) linarith
    moreover have "getRandom i 0 ?b = Inr (of_nat i)"
      using i l by (simp add: getRandom_def b)
    ultimately show ?thesis using i by (intro exI [of _ i]) (simp add: pickRandom_def)
  qed
  obtain a n k where code: "code = a @ ''-'' @ n @ ''-'' @ show_nat k"
    and m: "a \<in> set (adjectives m)" "n \<in> set (nouns m)" "k \<le> 100"
    using assms(2) by (auto simp: session_codes_def)
  obtain d1 d2 where "pickRandom d1 (adjectives m) = Inr a" "pickRandom d2 (nouns m) = Inr n"
    using pick m assms(1) by (metis manager_ok_def)
  moreover have "getRandom k 0 100 = Inr (of_nat k)" using m by (simp add: getRandom_def)
  moreover have "unat (of_nat k :: size_t) = k" using m by (intro unat_of_nat_size) simp
  ultimately show ?thesis using code by (intro exI [of _ "(d1, d2, k)"]) simp
qed

section \<open>The table as a store of one-time tickets\<close>

text \<open>
  What the sessions of the server rely on: registering gives a code that was not in use and adds
  exactly that entry; a code can be redeemed when it is in the table, and this removes it.
\<close>

locale ticket_store =
  fixes view :: "'m \<Rightarrow> string \<rightharpoonup> 'v"
    and invar :: "'m \<Rightarrow> bool"
    and register :: "'d \<Rightarrow> 'v \<Rightarrow> 'm \<Rightarrow> ((error + string) \<times> 'm) option"
    and redeem :: "string \<Rightarrow> 'm \<Rightarrow> 'v option \<times> 'm"
  assumes register_spec: "invar m \<Longrightarrow> register d v m = Some (r, m') \<Longrightarrow>
      \<exists>code. r = Inr code \<and> view m code = None \<and> view m' = (view m)(code \<mapsto> v) \<and> invar m'"
    and redeem_spec: "invar m \<Longrightarrow> redeem code m = (t, m') \<Longrightarrow>
      t = view m code \<and> view m' = (view m)(code := None) \<and> invar m'"
begin

lemma redeem_after_register:
  assumes "invar m" and "register d v m = Some (Inr code, m')"
  shows "fst (redeem code m') = Some v"
proof -
  obtain r m'' where "redeem code m' = (r, m'')" by fastforce
  with register_spec [OF assms] redeem_spec [of m' code] show ?thesis by auto
qed

lemma redeem_once:
  assumes "invar m" and "redeem code m = (r, m')"
  shows "fst (redeem code m') = None"
proof -
  obtain r2 m2 where "redeem code m' = (r2, m2)" by fastforce
  with redeem_spec [OF assms] redeem_spec [of m' code] show ?thesis by auto
qed

lemma register_keeps_others:
  assumes "invar m" and "register d v m = Some (Inr code, m')" and "view m c = Some w"
  shows "view m' c = Some w \<and> c \<noteq> code"
  using register_spec [OF assms(1,2)] assms(3) by auto

lemma redeem_keeps_others:
  assumes "invar m" and "redeem code m = (r, m')" and "c \<noteq> code"
  shows "view m' c = view m c"
  using redeem_spec [OF assms(1,2)] assms(3) by simp

end

lemma sessions_delete: "sessions (m\<lparr>senders_sessions := AList.delete c (senders_sessions m)\<rparr>) = (sessions m)(c := None)"
  by (simp add: sessions_def delete_conv')

lemma map_of_snoc: "map_of xs k = None \<Longrightarrow> map_of (xs @ [(k, v)]) = (map_of xs)(k \<mapsto> v)"
  by (auto simp: map_add_def fun_eq_iff split: option.split)

lemma registerSender_spec:
  assumes "manager_ok m" and "registerSender ds now sender json m = Some (r, m')"
  shows "\<exists>code. r = Inr code \<and> code \<in> session_codes m \<and> sessions m code = None \<and>
    sessions m' = (sessions m)(code \<mapsto> \<lparr>client_session = sender, session_data = json, time_point = now\<rparr>) \<and>
    manager_ok m' \<and> nouns m' = nouns m \<and> adjectives m' = adjectives m \<and>
    currentSessions m' = Suc (currentSessions m)"
  using assms
proof (induction ds)
  case Nil
  then show ?case by simp
next
  case (Cons d ds)
  obtain code where code: "generateSessionID m d = Inr code" "code \<in> session_codes m"
    using generateSessionID_code [OF Cons.prems(1)] by blast
  show ?case
  proof (cases "map_of (senders_sessions m) code")
    case (Some s)
    with Cons code show ?thesis by simp
  next
    case None
    then have "code \<notin> fst ` set (senders_sessions m)" by (simp add: map_of_eq_None_iff)
    then have up: "AList.update code v (senders_sessions m) = senders_sessions m @ [(code, v)]" for v
      by (rule update_new)
    with None Cons.prems code have "r = Inr code"
      "m' = m\<lparr>senders_sessions := senders_sessions m @
         [(code, \<lparr>client_session = sender, session_data = json, time_point = now\<rparr>)]\<rparr>"
      by simp_all
    with None code Cons.prems(1) \<open>code \<notin> _\<close> show ?thesis
      by (auto simp: sessions_def manager_ok_def currentSessions_def map_of_snoc simp del: map_of_append)
  qed
qed

lemma getSender_spec:
  assumes "manager_ok m" and "getSenderWithMetadata code m = (r, m')"
  shows "manager_ok m' \<and> nouns m' = nouns m \<and> adjectives m' = adjectives m \<and>
    sessions m' = (sessions m)(code := None) \<and>
    (case sessions m code of
       None \<Rightarrow> r = Inl (SessionsManagerException ''Unknown session code.'') \<and> m' = m
     | Some s \<Rightarrow> r = Inr (client_session s, session_data s))"
proof (cases "map_of (senders_sessions m) code")
  case None
  then have "(sessions m)(code := None) = sessions m" by (simp add: sessions_def fun_eq_iff)
  with None assms show ?thesis by (simp add: getSenderWithMetadata_def sessions_def)
next
  case (Some s)
  with assms have "m' = m\<lparr>senders_sessions := AList.delete code (senders_sessions m)\<rparr>"
    "r = Inr (client_session s, session_data s)"
    by (simp_all add: getSenderWithMetadata_def)
  with Some assms show ?thesis
    by (simp add: sessions_delete manager_ok_def distinct_delete) (simp add: sessions_def)
qed

interpretation sender_store: ticket_store sessions manager_ok
    "\<lambda>ds s m. registerSender ds (time_point s) (client_session s) (session_data s) m"
    "\<lambda>code m. (sessions m code, snd (getSenderWithMetadata code m))"
proof unfold_locales
  fix m ds r m' and s :: "'a timed_session"
  assume "manager_ok m"
    and "registerSender ds (time_point s) (client_session s) (session_data s) m = Some (r, m')"
  from registerSender_spec [OF this]
  show "\<exists>code. r = Inr code \<and> sessions m code = None \<and> sessions m' = (sessions m)(code \<mapsto> s) \<and> manager_ok m'"
    by (cases s) auto
next
  fix m :: "'a sessions_manager" and code r m'
  assume "manager_ok m" and "(sessions m code, snd (getSenderWithMetadata code m)) = (r, m')"
  with getSender_spec [of m code "fst (getSenderWithMetadata code m)" m']
  show "r = sessions m code \<and> sessions m' = (sessions m)(code := None) \<and> manager_ok m'"
    by auto
qed

text \<open>
  C26. A code is a ticket for one receiver: the code \<open>registerSender\<close> returns was not in use, the next
  look-up of it yields the registered sender and its metadata, a second look-up is refused as an
  unknown code, and no other waiting sender is affected by either operation.
\<close>

theorem ticket_lifecycle:
  assumes "manager_ok m" and "registerSender ds now sender json m = Some (r, m1)"
  shows "\<exists>code. r = Inr code \<and> sessions m code = None \<and>
    fst (getSenderWithMetadata code m1) = Inr (sender, json) \<and>
    fst (getSenderWithMetadata code (snd (getSenderWithMetadata code m1))) =
      Inl (SessionsManagerException ''Unknown session code.'') \<and>
    sessions (snd (getSenderWithMetadata code m1)) = sessions m"
proof -
  let ?s = "\<lparr>client_session = sender, session_data = json, time_point = now\<rparr>"
  obtain code where r: "r = Inr code" and fresh: "sessions m code = None"
    and m1: "sessions m1 = (sessions m)(code \<mapsto> ?s)" "manager_ok m1"
    using registerSender_spec [OF assms] by auto
  obtain q m2 where q: "getSenderWithMetadata code m1 = (q, m2)" by fastforce
  from getSender_spec [OF m1(2) q] m1 have q': "q = Inr (sender, json)" and ok2: "manager_ok m2"
    and m2: "sessions m2 = (sessions m)(code := None)" by auto
  then have "sessions m2 code = None" by simp
  obtain p m3 where p: "getSenderWithMetadata code m2 = (p, m3)" by fastforce
  from getSender_spec [OF ok2 p] m2 have "p = Inl (SessionsManagerException ''Unknown session code.'')"
    by simp
  moreover have "(sessions m)(code := None) = sessions m" using fresh by (simp add: fun_eq_iff)
  ultimately show ?thesis using r fresh q q' p m2 by auto
qed

definition sample_manager :: "flat sessions_manager" where
  "sample_manager = \<lparr>nouns = [''map'', ''art''], adjectives = [''able''],
     senders_sessions = [(''able-map-7'', \<lparr>client_session = 0, session_data = Scalar F_null, time_point = 5\<rparr>)]\<rparr>"

lemma sample_manager_ok: "manager_ok sample_manager"
  by (simp add: sample_manager_def manager_ok_def words_usable_def word_ok_def is_space_def)

lemma sample_registers:
  "registerSender [(0, 1, 3)] 9 4 (Scalar F_null) sample_manager =
     Some (Inr ''able-art-3'', sample_manager\<lparr>senders_sessions := senders_sessions sample_manager @
       [(''able-art-3'', \<lparr>client_session = 4, session_data = Scalar F_null, time_point = 9\<rparr>)]\<rparr>)"
proof -
  have "show_nat 3 = ''3''" by code_simp
  then show ?thesis by (simp add: sample_manager_def pickRandom_def getRandom_def)
qed

theorem ticket_lifecycle_witness:
  "\<exists>m1. fst (getSenderWithMetadata ''able-art-3'' m1) = Inr (4, Scalar F_null) \<and>
     sessions (snd (getSenderWithMetadata ''able-art-3'' m1)) = sessions sample_manager"
  using ticket_lifecycle [OF sample_manager_ok sample_registers] by auto

section \<open>Registration returns\<close>

lemma registerSender_loops_iff:
  assumes "manager_ok m"
  shows "registerSender ds now sender json m = None \<longleftrightarrow>
    (\<forall>d \<in> set ds. \<exists>code. generateSessionID m d = Inr code \<and> sessions m code \<noteq> None)"
proof (induction ds)
  case Nil
  then show ?case by simp
next
  case (Cons d ds)
  obtain code where "generateSessionID m d = Inr code" using generateSessionID_code [OF assms] by blast
  with Cons show ?case by (auto simp: sessions_def)
qed

lemma currentSessions_card: "manager_ok m \<Longrightarrow> currentSessions m = card (dom (sessions m))"
  by (simp add: manager_ok_def sessions_def currentSessions_def dom_map_of_conv_image_fst)
    (metis distinct_card length_map list.set_map)

lemma registerSender_some_draw:
  assumes "manager_ok m" and few: "currentSessions m < card (session_codes m)"
  shows "\<exists>d. \<forall>ds now sender json. d \<in> set ds \<longrightarrow> registerSender ds now sender json m \<noteq> None"
proof -
  have "\<not> session_codes m \<subseteq> dom (sessions m)"
  proof
    assume "session_codes m \<subseteq> dom (sessions m)"
    then have "card (session_codes m) \<le> card (dom (sessions m))"
      by (intro card_mono) (simp_all add: sessions_def finite_dom_map_of)
    with few assms show False by (simp add: currentSessions_card)
  qed
  then obtain code where "code \<in> session_codes m" and "sessions m code = None" by auto
  moreover from this(1) obtain d where "generateSessionID m d = Inr code"
    using every_code_drawn [OF assms(1)] by blast
  ultimately show ?thesis
    by (intro exI [of _ d]) (auto simp: registerSender_loops_iff [OF assms(1)] intro!: bexI [of _ d])
qed

text \<open>
  C27. The registration loop returns as soon as a free code is drawn, and only then: it is still
  looping after the draws \<open>ds\<close> just when each of them gave a code in use; and as long as fewer senders
  wait than there are codes, some draw makes it return, whatever is drawn before it.
\<close>

theorem registerSender_returns:
  assumes "manager_ok m"
  shows "(registerSender ds now sender json m = None \<longleftrightarrow>
      (\<forall>d \<in> set ds. \<exists>code. generateSessionID m d = Inr code \<and> sessions m code \<noteq> None)) \<and>
    (currentSessions m < card (session_codes m) \<longrightarrow>
      (\<exists>d. \<forall>ds. d \<in> set ds \<longrightarrow> registerSender ds now sender json m \<noteq> None))"
  using registerSender_loops_iff [OF assms] registerSender_some_draw [OF assms] by blast

theorem registerSender_returns_witness:
  "registerSender [(0, 0, 7)] 9 4 (Scalar F_null) sample_manager = None"
proof -
  have "show_nat 7 = ''7''" by code_simp
  then have "generateSessionID sample_manager (0, 0, 7) = Inr ''able-map-7''"
    by (simp add: sample_manager_def pickRandom_def getRandom_def)
  moreover have "sessions sample_manager ''able-map-7'' \<noteq> None"
    by (simp add: sample_manager_def sessions_def)
  ultimately show ?thesis
    using registerSender_returns [OF sample_manager_ok, of "[(0, 0, 7)]" 9 4 "Scalar F_null"] by auto
qed

section \<open>Removal of senders that have waited too long\<close>

lemma sweep_Cons:
  "sweep_entries T clock i (e # rest) =
     (if T * 1000000000 < clock i - time_point (snd e) then sweep_entries T clock (Suc i) rest
      else e # sweep_entries T clock (Suc i) rest)"
  by (cases e) simp

declare sweep_entries.simps(2) [simp del] sweep_Cons [simp]

lemma sweep_subset: "set (sweep_entries T clock i es) \<subseteq> set es"
  by (induction es arbitrary: i) auto

lemma sweep_distinct: "distinct (map fst es) \<Longrightarrow> distinct (map fst (sweep_entries T clock i es))"
proof (induction es arbitrary: i)
  case (Cons e es)
  have "fst ` set (sweep_entries T clock (Suc i) es) \<subseteq> fst ` set es"
    using sweep_subset by (rule image_mono)
  with Cons show ?case by auto
qed simp

lemma sweep_keeps_young:
  assumes "\<And>k. clock k \<le> hi"
  shows "(c, s) \<in> set es \<Longrightarrow> hi - time_point s \<le> T * 1000000000 \<Longrightarrow> (c, s) \<in> set (sweep_entries T clock i es)"
proof (induction es arbitrary: i)
  case (Cons e es)
  with assms [of i] show ?case by auto
qed simp

lemma sweep_removes_old:
  assumes "\<And>k. lo \<le> clock k"
  shows "(c, s) \<in> set (sweep_entries T clock i es) \<Longrightarrow> lo - time_point s \<le> T * 1000000000"
proof (induction es arbitrary: i)
  case (Cons e es)
  with assms [of i] show ?case by (auto split: if_splits)
qed simp

lemma sessions_entry: "manager_ok m \<Longrightarrow> sessions m c = Some s \<longleftrightarrow> (c, s) \<in> set (senders_sessions m)"
  by (simp add: sessions_def manager_ok_def)

lemma terminate_manager_ok: "manager_ok m \<Longrightarrow> manager_ok (terminateTimeoutClients T clock m)"
  by (simp add: manager_ok_def terminateTimeoutClients_def sweep_distinct)

lemma sweep_exact:
  assumes "manager_ok m" and "\<And>i. lo \<le> clock i" and "\<And>i. clock i \<le> hi"
  shows "manager_ok (terminateTimeoutClients T clock m) \<and>
    (\<forall>c s. sessions (terminateTimeoutClients T clock m) c = Some s \<longrightarrow>
       sessions m c = Some s \<and> lo - time_point s \<le> T * 1000000000) \<and>
    (\<forall>c s. sessions m c = Some s \<and> hi - time_point s \<le> T * 1000000000 \<longrightarrow>
       sessions (terminateTimeoutClients T clock m) c = Some s)"
proof (intro conjI allI impI)
  let ?m = "terminateTimeoutClients T clock m"
  have es: "senders_sessions ?m = sweep_entries T clock 0 (senders_sessions m)"
    by (simp add: terminateTimeoutClients_def)
  show ok: "manager_ok ?m" using assms(1) by (rule terminate_manager_ok)
  fix c s
  show "sessions ?m c = Some s \<Longrightarrow> sessions m c = Some s"
    using sweep_subset [of T clock 0] by (auto simp: sessions_entry ok assms(1) es)
  show "sessions ?m c = Some s \<Longrightarrow> lo - time_point s \<le> T * 1000000000"
    using sweep_removes_old [of lo clock, OF assms(2)] by (simp add: sessions_entry ok es)
  show "sessions m c = Some s \<and> hi - time_point s \<le> T * 1000000000 \<Longrightarrow> sessions ?m c = Some s"
    using sweep_keeps_young [of clock hi, OF assms(3)] by (auto simp add: sessions_entry ok assms(1) es)
qed

text \<open>
  The sweep removes the senders past the timeout and no others: with every clock reading
  between \<open>lo\<close> and \<open>hi\<close>, a sender older than the timeout at \<open>lo\<close> is gone, a sender within the timeout
  at \<open>hi\<close> is still there with its data, and nothing is added or changed.
\<close>

theorem terminateTimeoutClients_exact:
  assumes "manager_ok m" and "\<And>i. lo \<le> clock i" and "\<And>i. clock i \<le> hi"
  shows "manager_ok (terminateTimeoutClients T clock m) \<and>
    (\<forall>c s. sessions (terminateTimeoutClients T clock m) c = Some s \<longrightarrow>
       sessions m c = Some s \<and> lo - time_point s \<le> T * 1000000000) \<and>
    (\<forall>c s. sessions m c = Some s \<and> hi - time_point s \<le> T * 1000000000 \<longrightarrow>
       sessions (terminateTimeoutClients T clock m) c = Some s)"
  using sweep_exact [OF assms] .

theorem terminateTimeoutClients_exact_witness:
  "sessions (terminateTimeoutClients 3 (\<lambda>_. 3000000006) sample_manager) ''able-map-7'' = None"
proof (rule ccontr)
  let ?m = "terminateTimeoutClients 3 (\<lambda>_. 3000000006) sample_manager"
  assume "sessions ?m ''able-map-7'' \<noteq> None"
  then obtain s where s: "sessions ?m ''able-map-7'' = Some s" by blast
  note ex = terminateTimeoutClients_exact [where lo = 3000000006 and clock = "\<lambda>_. 3000000006"
      and hi = 3000000006 and T = 3, OF sample_manager_ok order_refl order_refl]
  from ex s have "sessions sample_manager ''able-map-7'' = Some s"
    and old: "3000000006 - time_point s \<le> 3 * 1000000000" by blast+
  then have "time_point s = 5" by (auto simp: sample_manager_def sessions_def)
  with old show False by simp
qed

end
