(* ===== verification/ServerSession.thy ===== *)
theory ServerSession
  imports ByteRelay SessionsManager InitSessionMessage
begin

text \<open>
  \<open>src/server/ServerSideClientSession.cpp\<close>: what the server does with the first message of a
  connection.  A sender is put into the table and told its code; a receiver is handed the waiting
  sender, and the file is relayed from the one connection to the other within the same call.

  The server state holds the socket of every session by the session's identity and the table of
  waiting senders; the table is \<open>None\<close> when the weak pointer to it has expired.
\<close>

section \<open>State and steps\<close>

record 'j server =
  conn :: "nat \<Rightarrow> socket"
  manager :: "'j sessions_manager option"

text \<open>A socket operation of session \<open>i\<close>.\<close>

definition on :: "nat \<Rightarrow> (socket, 'a) prog \<Rightarrow> ('j server, 'a) prog" where
  "on i p s = (case p (conn s i) of (r, k) \<Rightarrow> (r, s\<lparr>conn := (conn s)(i := k)\<rparr>))"

lemma on_manager [simp]: "manager (snd (on i p s)) = manager s"
  by (simp add: on_def split: prod.splits)

lemma on_conn: "conn (snd (on i p s)) = (conn s)(i := snd (p (conn s i)))"
  by (simp add: on_def split: prod.splits)

lemma fst_on: "fst (on i p s) = fst (p (conn s i))"
  by (simp add: on_def split: prod.splits)

lemma on_ok: "p (conn s i) = (r, k) \<Longrightarrow> on i p s = (r, s\<lparr>conn := (conn s)(i := k)\<rparr>)"
  by (simp add: on_def)

section \<open>The relay\<close>

lemma receive_then_send_rx:
  assumes "on sender receive s = (Inr data, s1)" and "on receiver (send (take n data)) s1 = (r, s2)"
  shows "length (rx (conn s2 sender)) < length (rx (conn s sender))"
proof -
  from assms(1) have rec: "receive (conn s sender) = (Inr data, conn s1 sender)"
    by (auto simp: on_def split: prod.splits)
  then have "length data < 2 ^ 64" using receive_success [OF rec] by simp
  then have "rx (snd (send (take n data) (conn s1 receiver))) = rx (conn s1 receiver)"
    using send_rx [of "take n data"] by simp
  then have "rx (conn s2 sender) = rx (conn s1 sender)"
    using assms(2) by (auto simp: on_def split: prod.splits)
  then show ?thesis using receive_consumes [OF rec] by simp
qed

text \<open>The loop of \<open>receiveFile\<close>: it ends because each message takes bytes off the sender's stream.\<close>

function relay_loop :: "nat \<Rightarrow> nat \<Rightarrow> size_t \<Rightarrow> size_t \<Rightarrow> ('j server, unit) prog" where
  "relay_loop receiver sender total_received_bytes expected_bytes s =
     (if total_received_bytes < expected_bytes then
        (case on sender receive s of
           (Inl e, s1) \<Rightarrow> (Inl e, s1)
         | (Inr data, s1) \<Rightarrow>
             let left_to_transfer = expected_bytes - total_received_bytes;
                 write_size = min left_to_transfer (of_nat (length data))
             in (case on receiver (send (take (unat write_size) data)) s1 of
                   (Inl e, s2) \<Rightarrow> (Inl e, s2)
                 | (Inr _, s2) \<Rightarrow> relay_loop receiver sender (total_received_bytes + write_size) expected_bytes s2))
      else (Inr (), s))"
  by pat_completeness auto
termination
proof (relation "measure (\<lambda>(receiver, sender, t, e, s). length (rx (conn s sender)))", goal_cases)
  case (2 receiver sender t e s x s1 data left write_size y s2 u)
  from 2(2)[symmetric] 2(6)[symmetric] 2(3,7) show ?case
    using receive_then_send_rx [of sender s data s1 receiver "unat write_size" "Inr u" s2] by simp
qed auto

declare relay_loop.simps [simp del]

section \<open>The session\<close>

definition receiveFile :: "'j json_api \<Rightarrow> nat \<Rightarrow> nat \<Rightarrow> 'j \<Rightarrow> ('j server, unit) prog" where
  "receiveFile J receiver sender session_metadata =
     andthen (of_option (Json_exception ''type_error'') (json_dump J session_metadata)) (\<lambda>text.
     andthen (on receiver (send text)) (\<lambda>_.
     andthen (on receiver receiveACK) (\<lambda>_.
     andthen (on sender sendACK) (\<lambda>_.
     andthen (of_sum (json_get (json_get_string J) J session_metadata FILENAME_KEY)) (\<lambda>_.
     andthen (of_sum (json_get (json_get_size J) J session_metadata FILE_SIZE_KEY)) (\<lambda>fsize.
     andthen (of_sum (bytesToHumanReadable fsize)) (\<lambda>_.
     andthen (of_sum (json_get (json_get_size J) J session_metadata FILE_SIZE_KEY)) (\<lambda>expected_bytes.
     andthen (relay_loop receiver sender 0 expected_bytes) (\<lambda>_.
     andthen (on receiver receiveACK) (\<lambda>_.
     andthen (on sender sendACK) (\<lambda>_.
     andthen (of_sum (json_get (json_get_string J) J session_metadata FILENAME_KEY)) (\<lambda>_.
       ret ()))))))))))))"

text \<open>
  A registration may go on drawing codes; then the call does not return and the result is \<open>None\<close>.
  The first message has passed \<open>create\<close>, so it has an action.
\<close>

definition registerSession ::
  "'j json_api \<Rightarrow> draws list \<Rightarrow> int \<Rightarrow> nat \<Rightarrow> 'j \<Rightarrow> 'j server \<Rightarrow> ((error + unit) \<times> 'j server) option" where
  "registerSession J ds now self json s =
     (case manager s of
        None \<Rightarrow> Some (on self (safeDisconnect (Some ''Internal error'')) s)
      | Some m \<Rightarrow>
          if json_get (json_get_string J) J json ACTION_KEY = Inr ''send'' then
            (case registerSender ds now self json m of
               None \<Rightarrow> None
             | Some (Inl e, m') \<Rightarrow> Some (Inl e, s\<lparr>manager := Some m'\<rparr>)
             | Some (Inr session_code, m') \<Rightarrow>
                 let response = json_set J (json_null J) CODE_WORDS_KEY (J_string session_code) in
                 Some (andthen (of_option (Json_exception ''type_error'') (json_dump J response))
                         (\<lambda>text. on self (send text)) (s\<lparr>manager := Some m'\<rparr>)))
          else
            Some (case json_get (json_get_string J) J json CODE_WORDS_KEY of
                    Inl e \<Rightarrow> (Inl e, s)
                  | Inr code_words_key \<Rightarrow>
                      case getSenderWithMetadata code_words_key m of
                        (Inl e, m') \<Rightarrow> (Inl e, s\<lparr>manager := Some m'\<rparr>)
                      | (Inr (sender, session_metadata), m') \<Rightarrow>
                          receiveFile J self sender session_metadata (s\<lparr>manager := Some m'\<rparr>)))"

text \<open>The handlers of \<open>handleFirstRead\<close>; what none of them catches leaves the handler.\<close>

definition catch_first_read :: "nat \<Rightarrow> (error + unit) \<times> 'j server \<Rightarrow> (error + unit) \<times> 'j server" where
  "catch_first_read self r =
     (case r of
        (Inr u, s) \<Rightarrow> (Inr u, s)
      | (Inl e, s) \<Rightarrow>
          if is_DropFileBaseException e then on self (safeDisconnect (Some (what e))) s
          else (case e of System_error _ \<Rightarrow> (Inr (), s) | _ \<Rightarrow> (Inl e, s)))"

definition handleFirstRead ::
  "'j json_api \<Rightarrow> draws list \<Rightarrow> int \<Rightarrow> nat \<Rightarrow> bytes \<Rightarrow> 'j server \<Rightarrow> ((error + unit) \<times> 'j server) option" where
  "handleFirstRead J ds now self content s =
     map_option (catch_first_read self)
       (case sum_bind (create J content) (\<lambda>json.
               sum_bind (json_get (json_get_string J) J json ACTION_KEY) (\<lambda>_. Inr json)) of
          Inl e \<Rightarrow> Some (Inl e, s)
        | Inr json \<Rightarrow> registerSession J ds now self json s)"

definition MAX_FIRST_MESSAGE_SIZE :: size_t where
  "MAX_FIRST_MESSAGE_SIZE = 1000"

text \<open>
  \<open>start\<close> schedules the first read after the handshake; \<open>first_read\<close> is what the scheduled read does
  when it completes: it passes the message to \<open>handleFirstRead\<close>, or gives the session up.
\<close>

definition first_read ::
  "'j json_api \<Rightarrow> draws list \<Rightarrow> int \<Rightarrow> nat \<Rightarrow> 'j server \<Rightarrow> ((error + unit) \<times> 'j server) option" where
  "first_read J ds now self s =
     (case on self (asyncReadMessage MAX_FIRST_MESSAGE_SIZE) s of
        (Inl e, s') \<Rightarrow> Some (Inl e, s')
      | (Inr Dropped, s') \<Rightarrow> Some (Inr (), s')
      | (Inr (Message content), s') \<Rightarrow> handleFirstRead J ds now self content s')"

section \<open>The relay passes on the declared bytes\<close>

text \<open>What the sender has on the way, and what has reached the receiver's connection.\<close>

definition relay_inbox :: "nat \<Rightarrow> nat \<Rightarrow> bytes \<Rightarrow> 'j server \<Rightarrow> bytes list \<Rightarrow> bool" where
  "relay_inbox receiver sender rest s ms \<longleftrightarrow>
     receiver \<noteq> sender \<and> rx (conn s sender) = concat (map frame ms) @ rest \<and> short_messages ms"

definition relay_sunk :: "nat \<Rightarrow> nat \<Rightarrow> 'j server \<Rightarrow> 'j server \<Rightarrow> bytes \<Rightarrow> bool" where
  "relay_sunk receiver sender s0 s out \<longleftrightarrow>
     writable (conn s0 receiver) \<and> (\<exists>ps rest. short_messages ps \<and> concat ps = out \<and>
       s = s0\<lparr>conn := (conn s0)(sender := (conn s0 sender)\<lparr>rx := rest\<rparr>,
                                receiver := written (concat (map frame ps)) (conn s0 receiver))\<rparr>)"

lemma relay_loop_unfold:
  "relay_loop w a got expected s =
     (if got < expected then
        andthen (on a receive) (\<lambda>data.
          let write_size = min (expected - got) (of_nat (length data)) in
          andthen (on w (send (take (unat write_size) data))) (\<lambda>_.
            relay_loop w a (got + write_size) expected)) s
      else (Inr (), s))"
  by (subst relay_loop.simps) (auto simp: andthen_def Let_def split: prod.splits sum.splits)

interpretation relay: byte_relay "relay_loop w a" "on a receive" "\<lambda>got expected d. on w (send d)"
    "relay_inbox w a rest" "relay_sunk w a s0"
proof unfold_locales
  fix got expected and s :: "'a server"
  show "relay_loop w a got expected s =
     (if got < expected then
        andthen (on a receive) (\<lambda>data.
          let write_size = min (expected - got) (of_nat (length data)) in
          andthen (on w (send (take (unat write_size) data))) (\<lambda>_.
            relay_loop w a (got + write_size) expected)) s
      else (Inr (), s))" by (rule relay_loop_unfold)
next
  fix s :: "'a server" and m ms
  assume "relay_inbox w a rest s (m # ms)"
  then show "length m \<le> unat BUFFER_SIZE" by (simp add: relay_inbox_def)
next
  fix s :: "'a server" and m ms out
  assume i: "relay_inbox w a rest s (m # ms)" and o: "relay_sunk w a s0 s out"
  let ?s = "s\<lparr>conn := (conn s)(a := (conn s a)\<lparr>rx := concat (map frame ms) @ rest\<rparr>)\<rparr>"
  have "receive (conn s a) = (Inr m, (conn s a)\<lparr>rx := concat (map frame ms) @ rest\<rparr>)"
    using i by (intro receive_frame) (auto simp: relay_inbox_def)
  then have "on a receive s = (Inr m, ?s)" by (simp add: on_ok)
  moreover have "relay_inbox w a rest ?s ms" using i by (simp add: relay_inbox_def)
  moreover have "relay_sunk w a s0 ?s out"
  proof -
    from o obtain ps r where "writable (conn s0 w)" "short_messages ps" "concat ps = out"
      and s: "s = s0\<lparr>conn := (conn s0)(a := (conn s0 a)\<lparr>rx := r\<rparr>,
                                w := written (concat (map frame ps)) (conn s0 w))\<rparr>"
      by (auto simp: relay_sunk_def)
    moreover have "?s = s0\<lparr>conn := (conn s0)(a := (conn s0 a)\<lparr>rx := concat (map frame ms) @ rest\<rparr>,
                                w := written (concat (map frame ps)) (conn s0 w))\<rparr>"
      using i by (simp add: s relay_inbox_def fun_upd_twist)
    ultimately show ?thesis unfolding relay_sunk_def by blast
  qed
  ultimately show "\<exists>s'. on a receive s = (Inr m, s') \<and> relay_inbox w a rest s' ms \<and> relay_sunk w a s0 s' out"
    by blast
next
  fix s :: "'a server" and ms out and d :: bytes and got expected :: size_t
  assume i: "relay_inbox w a rest s ms" and o: "relay_sunk w a s0 s out"
    and d: "length d \<le> unat BUFFER_SIZE"
  from o obtain ps r where wr: "writable (conn s0 w)" "short_messages ps" "concat ps = out"
    and s: "s = s0\<lparr>conn := (conn s0)(a := (conn s0 a)\<lparr>rx := r\<rparr>,
                              w := written (concat (map frame ps)) (conn s0 w))\<rparr>"
    by (auto simp: relay_sunk_def)
  let ?s = "s\<lparr>conn := (conn s)(w := written (wire d) (conn s w))\<rparr>"
  have "send d (conn s w) = (Inr (), written (wire d) (conn s w))"
    using d wr by (intro send_ok writable_carries) (simp_all add: s)
  then have "on w (send d) s = (Inr (), ?s)" by (simp add: on_ok)
  moreover have "relay_inbox w a rest ?s ms" using i by (simp add: relay_inbox_def)
  moreover have "?s = s0\<lparr>conn := (conn s0)(a := (conn s0 a)\<lparr>rx := r\<rparr>,
                              w := written (concat (map frame (ps @ chunks d))) (conn s0 w))\<rparr>"
    by (simp add: s written_append wire_def)
  then have "relay_sunk w a s0 ?s (out @ d)"
    unfolding relay_sunk_def using wr chunks_short
    by (intro conjI exI [of _ "ps @ chunks d"] exI [of _ r]) auto
  ultimately show "\<exists>s'. on w (send d) s = (Inr (), s') \<and> relay_inbox w a rest s' ms \<and> relay_sunk w a s0 s' (out @ d)"
    by blast
qed

lemma relay_forwards:
  assumes "w \<noteq> a" and "writable (conn s w)" and "short_messages ms"
    and "rx (conn s a) = concat (map frame ms) @ rest" and "unat expected \<le> length (concat ms)"
  shows "\<exists>k ps. relay_loop w a 0 expected s =
      (Inr (), s\<lparr>conn := (conn s)(a := (conn s a)\<lparr>rx := concat (map frame (drop k ms)) @ rest\<rparr>,
                                 w := written (concat (map frame ps)) (conn s w))\<rparr>) \<and>
    short_messages ps \<and> concat ps = take (unat expected) (concat ms)"
proof -
  have "relay_inbox w a rest s ms" using assms by (simp add: relay_inbox_def)
  moreover have "relay_sunk w a s s []"
    unfolding relay_sunk_def using assms
    by (intro conjI exI [of _ "[]"] exI [of _ "rx (conn s a)"]) (auto simp: fun_upd_idem)
  ultimately obtain s' k where s': "relay_loop w a 0 expected s = (Inr (), s')"
    "relay_inbox w a rest s' (drop k ms)" "relay_sunk w a s s' (take (unat expected) (concat ms))"
    using relay.loop_transfers [of w a rest s ms s "[]" 0 expected] assms(5) by auto
  from s'(3) obtain ps r where ps: "short_messages ps" "concat ps = take (unat expected) (concat ms)"
    and eq: "s' = s\<lparr>conn := (conn s)(a := (conn s a)\<lparr>rx := r\<rparr>,
                                w := written (concat (map frame ps)) (conn s w))\<rparr>"
    by (auto simp: relay_sunk_def)
  with s'(2) assms(1) have "r = concat (map frame (drop k ms)) @ rest" by (simp add: relay_inbox_def)
  with s' ps eq show ?thesis by blast
qed

subsection \<open>A whole transfer\<close>

lemma send_text_ok:
  "writable (conn s i) \<Longrightarrow> length d < 2 ^ 64 \<Longrightarrow>
   on i (send d) s = (Inr (), s\<lparr>conn := (conn s)(i := written (wire d) (conn s i))\<rparr>)"
  by (simp add: on_ok send_ok writable_carries)

lemma on_sendACK_ok:
  "writable (conn s i) \<Longrightarrow>
   on i sendACK s = (Inr (), s\<lparr>conn := (conn s)(i := written (frame ACK) (conn s i))\<rparr>)"
  by (simp add: on_ok sendACK_ok writable_carries)

lemma on_receiveACK_ok:
  "rx (conn s i) = frame ACK @ rest \<Longrightarrow>
   on i receiveACK s = (Inr (), s\<lparr>conn := (conn s)(i := (conn s i)\<lparr>rx := rest,
     data_buffer := overwrite ACK (data_buffer (conn s i))\<rparr>)\<rparr>)"
  by (simp add: on_ok receiveACK_ok)

text \<open>
  \<open>receiveFile\<close> up to the last acknowledgements: the metadata, the confirmation, its forwarding and the
  relay.
\<close>

definition relay_content :: "'j json_api \<Rightarrow> nat \<Rightarrow> nat \<Rightarrow> 'j \<Rightarrow> ('j server, unit) prog" where
  "relay_content J receiver sender session_metadata =
     andthen (of_option (Json_exception ''type_error'') (json_dump J session_metadata)) (\<lambda>text.
     andthen (on receiver (send text)) (\<lambda>_.
     andthen (on receiver receiveACK) (\<lambda>_.
     andthen (on sender sendACK) (\<lambda>_.
     andthen (of_sum (json_get (json_get_string J) J session_metadata FILENAME_KEY)) (\<lambda>_.
     andthen (of_sum (json_get (json_get_size J) J session_metadata FILE_SIZE_KEY)) (\<lambda>fsize.
     andthen (of_sum (bytesToHumanReadable fsize)) (\<lambda>_.
     andthen (of_sum (json_get (json_get_size J) J session_metadata FILE_SIZE_KEY)) (\<lambda>expected_bytes.
       relay_loop receiver sender 0 expected_bytes))))))))"

lemma receiveFile_content:
  "receiveFile J w a meta = andthen (relay_content J w a meta) (\<lambda>_. andthen (on w receiveACK) (\<lambda>_.
     andthen (on a sendACK) (\<lambda>_. andthen (of_sum (json_get (json_get_string J) J meta FILENAME_KEY)) (\<lambda>_. ret ()))))"
  by (simp add: receiveFile_def relay_content_def andthen_assoc)

lemma relay_content_confirmed:
  assumes "w \<noteq> a" and "json_dump J meta = Some d" and "length d < 2 ^ 64"
    and "writable (conn s w)" and "writable (conn s a)" and "rx (conn s w) = frame ACK @ rw"
    and "announces J meta name n hash c"
  shows "\<exists>b s1. relay_content J w a meta s = andthen (of_sum (bytesToHumanReadable n)) (\<lambda>_. relay_loop w a 0 n) s1 \<and>
    s1 = s\<lparr>conn := (conn s)(w := (written (wire d) (conn s w))\<lparr>rx := rw, data_buffer := b\<rparr>,
                            a := written (frame ACK) (conn s a))\<rparr>"
proof -
  let ?b = "overwrite ACK (data_buffer (conn s w))"
  let ?s1 = "s\<lparr>conn := (conn s)(w := written (wire d) (conn s w))\<rparr>"
  let ?s2 = "s\<lparr>conn := (conn s)(w := (written (wire d) (conn s w))\<lparr>rx := rw, data_buffer := ?b\<rparr>)\<rparr>"
  let ?s3 = "s\<lparr>conn := (conn s)(w := (written (wire d) (conn s w))\<lparr>rx := rw, data_buffer := ?b\<rparr>,
                                a := written (frame ACK) (conn s a))\<rparr>"
  have 1: "on w (send d) s = (Inr (), ?s1)" using assms by (simp add: send_text_ok)
  have 2: "on w receiveACK ?s1 = (Inr (), ?s2)"
    using on_receiveACK_ok [of ?s1 w rw] assms by simp
  have 3: "on a sendACK ?s2 = (Inr (), ?s3)"
    using on_sendACK_ok [of ?s2 a] assms by simp
  show ?thesis
    using assms(2,7) 1 2 3
    by (intro exI [of _ ?b] exI [of _ ?s3]) (simp add: relay_content_def announces_def, simp add: andthen_def)
qed

lemma relay_content_ok:
  assumes "w \<noteq> a" and "json_dump J meta = Some d" and "length d < 2 ^ 64"
    and "announces J meta name n hash c" and "n \<noteq> 0"
    and "writable (conn s w)" and "writable (conn s a)" and "rx (conn s w) = frame ACK @ rw"
    and "rx (conn s a) = concat (map frame ms) @ ra" and "short_messages ms"
    and "unat n \<le> length (concat ms)"
  shows "\<exists>s' ps. relay_content J w a meta s = (Inr (), s') \<and>
    tx (conn s' w) = tx (conn s w) @ wire d @ concat (map frame ps) \<and>
    concat ps = take (unat n) (concat ms) \<and> short_messages ps \<and>
    tx (conn s' a) = tx (conn s a) @ frame ACK \<and> rx (conn s' w) = rw \<and> writable (conn s' a) \<and>
    manager s' = manager s \<and> (\<forall>i. i \<noteq> w \<and> i \<noteq> a \<longrightarrow> conn s' i = conn s i)"
proof -
  obtain b s1 where run: "relay_content J w a meta s = andthen (of_sum (bytesToHumanReadable n)) (\<lambda>_. relay_loop w a 0 n) s1"
    and s1: "s1 = s\<lparr>conn := (conn s)(w := (written (wire d) (conn s w))\<lparr>rx := rw, data_buffer := b\<rparr>,
                            a := written (frame ACK) (conn s a))\<rparr>"
    using relay_content_confirmed [OF assms(1-3,6-8,4)] by blast
  obtain t where t: "bytesToHumanReadable n = Inr t"
    using bytesToHumanReadable_positive assms(5) by blast
  have "writable (conn s1 w)" "rx (conn s1 a) = concat (map frame ms) @ ra"
    using assms(1,6,9) by (simp_all add: s1 writable_def written_def)
  then obtain k ps where relay: "relay_loop w a 0 n s1 =
      (Inr (), s1\<lparr>conn := (conn s1)(a := (conn s1 a)\<lparr>rx := concat (map frame (drop k ms)) @ ra\<rparr>,
                                 w := written (concat (map frame ps)) (conn s1 w))\<rparr>)"
    and ps: "short_messages ps" "concat ps = take (unat n) (concat ms)"
    using relay_forwards [OF assms(1) _ assms(10)] assms(11) by blast
  show ?thesis using run t relay ps assms(1,7)
    by (intro exI [of _ "s1\<lparr>conn := (conn s1)(a := (conn s1 a)\<lparr>rx := concat (map frame (drop k ms)) @ ra\<rparr>,
          w := written (concat (map frame ps)) (conn s1 w))\<rparr>"] exI [of _ ps])
      (simp add: andthen_def s1 writable_def written_def)
qed

text \<open>The last acknowledgements.\<close>

lemma receiveFile_acknowledged:
  assumes "w \<noteq> a" and "relay_content J w a meta s = (Inr (), s1)" and "rx (conn s1 w) = frame ACK @ rw"
    and "writable (conn s1 a)" and "announces J meta name n hash c"
  shows "\<exists>s'. receiveFile J w a meta s = (Inr (), s') \<and> tx (conn s' w) = tx (conn s1 w) \<and>
    tx (conn s' a) = tx (conn s1 a) @ frame ACK \<and> rx (conn s' w) = rw \<and> manager s' = manager s1 \<and>
    (\<forall>i. i \<noteq> w \<and> i \<noteq> a \<longrightarrow> conn s' i = conn s1 i)"
proof -
  note 3 = on_receiveACK_ok [OF assms(3)]
  let ?s3 = "snd (on w receiveACK s1)"
  have "writable (conn ?s3 a)" using 3 assms(1,4) by (simp add: writable_def)
  note 4 = on_sendACK_ok [OF this]
  have "receiveFile J w a meta s = (Inr (), snd (on a sendACK ?s3))"
    using assms(2,5) 3 4 by (simp add: receiveFile_content andthen_def announces_def)
  then show ?thesis using 3 4 assms(1) by (intro exI [of _ "snd (on a sendACK ?s3)"]) simp
qed

lemma receiveFile_transfers:
  assumes "w \<noteq> a" and "json_dump J meta = Some d" and "length d < 2 ^ 64"
    and "announces J meta name n hash c" and "n \<noteq> 0"
    and "writable (conn s w)" and "writable (conn s a)"
    and "rx (conn s w) = frame ACK @ frame ACK @ rw"
    and "rx (conn s a) = concat (map frame ms) @ ra" and "short_messages ms"
    and "unat n \<le> length (concat ms)"
  shows "\<exists>s' ps. receiveFile J w a meta s = (Inr (), s') \<and>
    tx (conn s' w) = tx (conn s w) @ wire d @ concat (map frame ps) \<and>
    concat ps = take (unat n) (concat ms) \<and> short_messages ps \<and>
    tx (conn s' a) = tx (conn s a) @ frame ACK @ frame ACK \<and>
    rx (conn s' w) = rw \<and> manager s' = manager s \<and> (\<forall>i. i \<noteq> w \<and> i \<noteq> a \<longrightarrow> conn s' i = conn s i)"
proof -
  obtain s1 ps where s1: "relay_content J w a meta s = (Inr (), s1)" "rx (conn s1 w) = frame ACK @ rw" "writable (conn s1 a)"
    "tx (conn s1 w) = tx (conn s w) @ wire d @ concat (map frame ps)" "tx (conn s1 a) = tx (conn s a) @ frame ACK"
    "manager s1 = manager s" "\<forall>i. i \<noteq> w \<and> i \<noteq> a \<longrightarrow> conn s1 i = conn s i"
    and ps: "concat ps = take (unat n) (concat ms)" "short_messages ps"
    using relay_content_ok [OF assms] by blast
  from receiveFile_acknowledged [OF assms(1) s1(1-3) assms(4)] s1(4-7) ps show ?thesis by force
qed

text \<open>
  C6. A transfer relays the file and nothing else: when the receiver has confirmed, and the sender's
  messages hold at least the declared number of bytes, \<open>receiveFile\<close> succeeds; the receiver gets the
  metadata followed by messages whose contents are together exactly the first declared bytes of what
  the sender sent, the sender gets the two acknowledgements, and no other session is touched.
\<close>

theorem receiveFile_relays:
  assumes "w \<noteq> a" and "json_dump J meta = Some d" and "length d < 2 ^ 64"
    and "announces J meta name n hash c" and "n \<noteq> 0"
    and "writable (conn s w)" and "writable (conn s a)"
    and "rx (conn s w) = frame ACK @ frame ACK @ rw"
    and "rx (conn s a) = concat (map frame ms) @ ra" and "short_messages ms"
    and "unat n \<le> length (concat ms)"
  shows "\<exists>s' ps. receiveFile J w a meta s = (Inr (), s') \<and>
    tx (conn s' w) = tx (conn s w) @ wire d @ concat (map frame ps) \<and>
    concat ps = take (unat n) (concat ms) \<and> short_messages ps \<and>
    tx (conn s' a) = tx (conn s a) @ frame ACK @ frame ACK \<and>
    rx (conn s' w) = rw \<and> manager s' = manager s \<and> (\<forall>i. i \<noteq> w \<and> i \<noteq> a \<longrightarrow> conn s' i = conn s i)"
  by (rule receiveFile_transfers [OF assms])

text \<open>A server with a sender and a confirmed receiver, for the instances.\<close>

definition sample_meta :: "size_t \<Rightarrow> flat" where
  "sample_meta n = json_object flat_json (send_fields ''f'' n ''00'' False)"

definition sample_socket :: "bytes \<Rightarrow> socket" where
  "sample_socket d = \<lparr>rx = d, tx = [], tx_open = True, tx_quota = None, data_buffer = []\<rparr>"

definition sample_server :: "flat server" where
  "sample_server = \<lparr>conn = (\<lambda>i. if i = 0 then sample_socket (frame ''dat'' @ frame ''a++'')
     else sample_socket (frame ACK @ frame ACK)), manager = None\<rparr>"

lemma sample_meta_announces: "announces flat_json (sample_meta n) ''f'' n ''00'' False"
  unfolding sample_meta_def by (rule send_fields_object [OF flat_json_laws])

lemma sample_meta_fields:
  "sample_meta n = Obj (map (\<lambda>(k, v). (k, F_scalar v)) (send_fields ''f'' n ''00'' False))"
proof -
  have "distinct (map fst (send_fields ''f'' n ''00'' False))" "send_fields ''f'' n ''00'' False \<noteq> []"
    by (simp_all add: send_fields_def key_defs)
  then show ?thesis by (simp add: sample_meta_def flat_object)
qed

lemma sample_meta_dump: "length (put_flat (sample_meta n)) < 2 ^ 64"
  by (simp add: sample_meta_fields send_fields_def key_defs put_text_def)

theorem receiveFile_relays_witness:
  "\<exists>s' ps. receiveFile flat_json 1 0 (sample_meta 4) sample_server = (Inr (), s') \<and>
     tx (conn s' 1) = wire (put_flat (sample_meta 4)) @ concat (map frame ps) \<and> concat ps = ''data''"
  using receiveFile_relays [of 1 0 flat_json "sample_meta 4" _ "''f''" 4 "''00''" False sample_server "[]"
      "[''dat'', ''a++'']" "[]"] sample_meta_announces [of 4] sample_meta_dump [of 4]
  by (auto simp: sample_server_def sample_socket_def writable_def)

section \<open>What a transfer can do at most\<close>

lemma receive_rx_tx:
  assumes "receive s = (Inr m, s')"
  shows "rx s = frame m @ rx s' \<and> tx s' = tx s" and "length m \<le> 1048576"
  using receive_success [OF assms] receive_not_writing [OF assms] by auto

text \<open>
  One run of the loop, however it ends: \<open>relayed r expected s s' ms ps k\<close> says that the messages \<open>ms\<close>
  have been taken from the sender, their contents up to the \<open>expected\<close> bytes have been cut into
  \<open>ps\<close>, and the first \<open>k\<close> bytes of their frames are on the receiver's connection.  After an error either
  the sender's bytes or those on the receiver's connection fall short.
\<close>

definition relayed ::
  "nat \<Rightarrow> nat \<Rightarrow> error + unit \<Rightarrow> nat \<Rightarrow> 'j server \<Rightarrow> 'j server \<Rightarrow> bytes list \<Rightarrow> bytes list \<Rightarrow> nat \<Rightarrow> bool" where
  "relayed w a r left s s' ms ps k \<longleftrightarrow>
     short_messages ms \<and> (\<exists>rest. rx (conn s a) = concat (map frame ms) @ rest) \<and>
     concat ps = take left (concat ms) \<and> short_messages ps \<and> [] \<notin> set ps \<and>
     tx (conn s' w) = tx (conn s w) @ take k (concat (map frame ps)) \<and>
     manager s' = manager s \<and> (\<forall>i. i \<noteq> w \<and> i \<noteq> a \<longrightarrow> conn s' i = conn s i) \<and>
     (case r of
        Inr _ \<Rightarrow> left \<le> length (concat ms) \<and> length (concat (map frame ps)) \<le> k
      | Inl e \<Rightarrow> transport_error e \<and> (length (concat ms) < left \<or> k < length (concat (map frame ps))))"

lemma chunks_nonempty: "[] \<notin> set (chunks d)"
proof (induction d rule: chunks.induct)
  case (1 d)
  then show ?case by (subst chunks.simps) (auto simp: BUFFER_SIZE_def)
qed

lemma relayed_Cons:
  assumes "w \<noteq> a" and "receive (conn s a) = (Inr m, u)" and "wr = min left (length m)"
    and "send (take wr m) (conn s w) = (Inr (), v)"
    and "relayed w a r (left - wr) (s\<lparr>conn := (conn s)(a := u, w := v)\<rparr>) s' ms ps k"
  shows "relayed w a r left s s' (m # ms) (chunks (take wr m) @ ps) (length (wire (take wr m)) + k)"
proof -
  have rx: "rx (conn s a) = frame m @ rx u" and l: "length m \<le> 1048576"
    using receive_rx_tx [OF assms(2)] by auto
  have "length (take wr m) < 2 ^ 64" using l by simp
  with assms(4) have v: "v = written (wire (take wr m)) (conn s w)"
    using send_ok [of "take wr m" "conn s w"] send_failed [of "take wr m" "conn s w"]
    by (cases "carries (conn s w) (length (wire (take wr m)))") auto
  have cut: "take wr m @ take (left - wr) (concat ms) = take left (concat (m # ms))"
    using assms(3) by (auto simp: min_def)
  show ?thesis
    using assms(1,3,5) rx l v cut chunks_short [of "take wr m"] chunks_nonempty [of "take wr m"]
    by (auto simp: relayed_def wire_def split: sum.splits)
qed

lemma relay_loop_relayed:
  assumes "w \<noteq> a" and "relay_loop w a got expected s = (r, s')" and "got \<le> expected"
  shows "\<exists>ms ps k. relayed w a r (unat expected - unat got) s s' ms ps k"
  using assms(2,3)
proof (induction "length (rx (conn s a))" arbitrary: got s rule: less_induct)
  case less
  let ?left = "unat expected - unat got"
  show ?case
  proof (cases "got < expected")
    case False
    then have "(r, s') = (Inr (), s)" using less.prems(1) by (subst (asm) relay_loop.simps) simp
    moreover have "?left = 0" using False by (simp add: word_less_nat_alt)
    ultimately show ?thesis
      by (intro exI [of _ "[]"] exI [of _ 0]) (simp add: relayed_def)
  next
    case True
    obtain rr u where rec: "receive (conn s a) = (rr, u)" by fastforce
    then have on_a: "on a receive s = (rr, s\<lparr>conn := (conn s)(a := u)\<rparr>)" by (rule on_ok)
    show ?thesis
    proof (cases rr)
      case (Inl e)
      then have "(r, s') = (Inl e, s\<lparr>conn := (conn s)(a := u)\<rparr>)"
        using less.prems(1) True on_a by (subst (asm) relay_loop.simps) simp
      then show ?thesis using rec Inl assms(1) True
        by (intro exI [of _ "[]"] exI [of _ 0]) (auto simp: relayed_def word_less_nat_alt dest: receive_error)
    next
      case (Inr m)
      then have lm: "length m \<le> 1048576" and rx: "rx (conn s a) = frame m @ rx u"
        using receive_rx_tx [of "conn s a" m u] rec by auto
      let ?w = "min (expected - got) (of_nat (length m)) :: size_t"
      have "unat (expected - got) = ?left" using less.prems(2) by (simp add: unat_sub)
      moreover have "unat (of_nat (length m) :: size_t) = length m"
        using lm by (intro unat_of_nat_size) simp
      ultimately have wn: "unat ?w = min ?left (length m)" by (auto simp: min_def word_le_nat_alt)
      obtain sr v where snd: "send (take (unat ?w) m) (conn s w) = (sr, v)" by fastforce
      let ?s2 = "s\<lparr>conn := (conn s)(a := u, w := v)\<rparr>"
      have on_w: "on w (send (take (unat ?w) m)) (s\<lparr>conn := (conn s)(a := u)\<rparr>) = (sr, ?s2)"
        using snd assms(1) by (simp add: on_def)
      show ?thesis
      proof (cases sr)
        case (Inl e)
        then have res: "(r, s') = (Inl e, ?s2)"
          using less.prems(1) True on_a Inr on_w by (subst (asm) relay_loop.simps) (simp add: Let_def)
        have l64: "length (take (unat ?w) m) < 2 ^ 64" using lm by simp
        have nc: "\<not> carries (conn s w) (length (wire (take (unat ?w) m)))"
          using send_ok [OF l64, of "conn s w"] snd Inl by auto
        obtain k q e' where v: "v = (conn s w)\<lparr>tx := tx (conn s w) @ take k (wire (take (unat ?w) m)), tx_quota := q\<rparr>"
          and e: "e = System_error e'" and short: "k < length (wire (take (unat ?w) m))"
          using send_failed [OF l64 nc] snd Inl by auto
        have "relayed w a r ?left s s' [m] (chunks (take (unat ?w) m)) k"
          using res rx lm v e short wn assms(1) chunks_short [of "take (unat ?w) m"] chunks_nonempty [of "take (unat ?w) m"]
          by (auto simp: relayed_def wire_def transport_error_def min_def)
        then show ?thesis by blast
      next
        case (Inr u1)
        have tw: "unat (got + ?w) = unat got + unat ?w"
        proof -
          have "unat expected < 2 ^ 64" using unsigned_less [of expected, where ?'a = nat] by simp
          then show ?thesis using wn True
            by (intro unat_add_lem [THEN iffD1]) (simp add: word_less_nat_alt)
        qed
        have "relay_loop w a (got + ?w) expected ?s2 = (r, s')"
          using less.prems(1) True on_a \<open>rr = Inr m\<close> on_w Inr
          by (subst (asm) relay_loop.simps) (simp add: Let_def)
        moreover have "length (rx (conn ?s2 a)) < length (rx (conn s a))" using rx assms(1) by simp
        moreover have "got + ?w \<le> expected"
          using tw wn True by (simp add: word_le_nat_alt word_less_nat_alt)
        ultimately obtain ms ps k where
          IH: "relayed w a r (unat expected - unat (got + ?w)) ?s2 s' ms ps k"
          using less.hyps by blast
        have left: "unat expected - unat (got + ?w) = ?left - unat ?w" by (simp add: tw)
        have "send (take (unat ?w) m) (conn s w) = (Inr (), v)" using snd Inr by simp
        with relayed_Cons [OF assms(1) _ wn, where u = u and s = s and v = v and r = r and s' = s' and ms = ms
            and ps = ps and k = k] IH rec \<open>rr = Inr m\<close>
        show ?thesis unfolding left by blast
      qed
    qed
  qed
qed

text \<open>The messages that have reached the receiver's connection completely are those that were written.\<close>

lemma frame_unique:
  assumes "frame p @ x = frame q @ y" and "length p \<le> 1048576" and "length q \<le> 1048576"
  shows "p = q" and "x = y"
proof -
  have b: "unat BUFFER_SIZE = 1048576" by (simp add: BUFFER_SIZE_def)
  let ?s = "\<lparr>rx = frame p @ x, tx = [], tx_open = True, tx_quota = None, data_buffer = []\<rparr>"
  have "receive ?s = (Inr p, ?s\<lparr>rx := x\<rparr>)" using assms(2) by (intro receive_frame) (simp_all add: b)
  moreover have "receive ?s = (Inr q, ?s\<lparr>rx := y\<rparr>)" using assms by (intro receive_frame) (simp_all add: b)
  ultimately show "p = q" "x = y" by simp_all
qed

lemma frames_prefix:
  "concat (map frame ps) @ z = concat (map frame qs) \<Longrightarrow> short_messages ps \<Longrightarrow> short_messages qs \<Longrightarrow> \<exists>rs. qs = ps @ rs"
proof (induction ps arbitrary: qs)
  case (Cons p ps)
  then obtain q qs' where qs: "qs = q # qs'" by (cases qs) auto
  have fr: "frame p @ concat (map frame ps) @ z = frame q @ concat (map frame qs')" using Cons.prems(1) qs by simp
  have "length p \<le> 1048576" "length q \<le> 1048576" using Cons.prems(2,3) qs by simp_all
  from frame_unique [OF fr this] have "p = q" "concat (map frame ps) @ z = concat (map frame qs')" by simp_all
  with Cons.IH [of qs'] Cons.prems(2,3) qs show ?case by auto
qed simp

lemma concat_proper_prefix: "[] \<notin> set rs \<Longrightarrow> length (concat (ps @ rs)) \<le> length (concat ps) \<Longrightarrow> rs = []"
  by (cases rs) auto

text \<open>
  C12. The relay never passes on more than was declared, and nothing the sender did not send: however
  the loop ends, the receiver's connection has gained a prefix of messages whose contents are the
  first declared bytes, at most, of the messages the sender sent; and it returns normally just when
  complete messages with all of them have reached the connection, and otherwise with an error of a
  connection.
\<close>

theorem relay_never_exceeds:
  assumes "w \<noteq> a" and "relay_loop w a 0 expected s = (r, s')"
  shows "\<exists>ms ps k rest. rx (conn s a) = concat (map frame ms) @ rest \<and>
    concat ps = take (unat expected) (concat ms) \<and>
    tx (conn s' w) = tx (conn s w) @ take k (concat (map frame ps)) \<and>
    (r = Inr () \<longrightarrow> length (concat ps) = unat expected \<and> length (concat (map frame ps)) \<le> k) \<and>
    (r = Inr () \<longleftrightarrow> (\<exists>qs. short_messages qs \<and> length (concat qs) = unat expected \<and>
       tx (conn s' w) = tx (conn s w) @ concat (map frame qs))) \<and>
    (\<forall>e. r = Inl e \<longrightarrow> transport_error e) \<and>
    manager s' = manager s \<and> (\<forall>i. i \<noteq> w \<and> i \<noteq> a \<longrightarrow> conn s' i = conn s i)"
proof -
  obtain ms ps k where rel: "relayed w a r (unat expected) s s' ms ps k"
    using relay_loop_relayed [OF assms] by auto
  then obtain rest where rest: "rx (conn s a) = concat (map frame ms) @ rest" by (auto simp: relayed_def)
  have complete: "r = Inr ()" if qs: "short_messages qs" "length (concat qs) = unat expected"
      "tx (conn s' w) = tx (conn s w) @ concat (map frame qs)" for qs
  proof (rule ccontr)
    assume "r \<noteq> Inr ()"
    then obtain e where "r = Inl e" by (cases r) auto
    with rel have short: "length (concat ms) < unat expected \<or> k < length (concat (map frame ps))"
      and ps: "concat ps = take (unat expected) (concat ms)" "short_messages ps" "[] \<notin> set ps"
      and tx: "concat (map frame qs) = take k (concat (map frame ps))"
      using qs(3) by (auto simp: relayed_def)
    have "concat (map frame qs) @ drop k (concat (map frame ps)) = concat (map frame ps)"
      unfolding tx by (rule append_take_drop_id)
    from frames_prefix [OF this qs(1) ps(2)] obtain rs where rs: "ps = qs @ rs" by blast
    have "length (concat ps) \<le> length (concat qs)" using ps(1) qs(2) by simp
    then have "rs = []" using concat_proper_prefix [of rs qs] ps(3) rs by simp
    then have "ps = qs" using rs by simp
    then have "length (concat (map frame ps)) \<le> k" "unat expected \<le> length (concat ms)"
      using tx ps(1) qs(2) by (metis length_take min.cobounded2, metis length_take min.cobounded1)
    with short show False by simp
  qed
  moreover have "\<exists>qs. short_messages qs \<and> length (concat qs) = unat expected \<and>
      tx (conn s' w) = tx (conn s w) @ concat (map frame qs)" if "r = Inr ()"
    using rel that by (intro exI [of _ ps]) (auto simp: relayed_def)
  ultimately have iff: "r = Inr () \<longleftrightarrow> (\<exists>qs. short_messages qs \<and> length (concat qs) = unat expected \<and>
      tx (conn s' w) = tx (conn s w) @ concat (map frame qs))" by blast
  show ?thesis using rel rest
    by (intro exI [of _ ms] exI [of _ ps] exI [of _ k] exI [of _ rest] conjI iff) (auto simp: relayed_def)
qed

text \<open>The sample sender has sent seven bytes, so nine can not be relayed and four can.\<close>

theorem relay_never_exceeds_witness:
  "(\<exists>ps k. tx (conn (snd (relay_loop 1 0 0 9 sample_server)) 1) = take k (concat (map frame ps)) \<and>
     length (concat ps) \<le> 9) \<and>
   (\<exists>qs. tx (conn (snd (relay_loop 1 0 0 4 sample_server)) 1) = concat (map frame qs) \<and> length (concat qs) = 4)"
proof (intro conjI)
  obtain ps ms k where "concat ps = take (unat (9 :: size_t)) (concat ms)"
    "tx (conn (snd (relay_loop 1 0 0 9 sample_server)) 1) =
       tx (conn sample_server 1) @ take k (concat (map frame ps))"
    using relay_never_exceeds [of 1 0 9 sample_server, OF _ surjective_pairing] by auto
  then show "\<exists>ps k. tx (conn (snd (relay_loop 1 0 0 9 sample_server)) 1) = take k (concat (map frame ps)) \<and>
     length (concat ps) \<le> 9" by (intro exI [of _ ps] exI [of _ k]) (simp add: sample_server_def sample_socket_def)
  have "writable (conn sample_server 1)" "short_messages [''dat'', ''a++'']"
    "rx (conn sample_server 0) = concat (map frame [''dat'', ''a++'']) @ []" "unat (4 :: size_t) \<le> length (concat [''dat'', ''a++''])"
    by (simp_all add: sample_server_def sample_socket_def writable_def)
  from relay_forwards [OF one_neq_zero this] have ret: "fst (relay_loop 1 0 0 4 sample_server) = Inr ()" by auto
  obtain r s' where rs: "relay_loop 1 0 0 4 sample_server = (r, s')" by fastforce
  with relay_never_exceeds [OF one_neq_zero rs] ret obtain qs where "length (concat qs) = unat (4 :: size_t)"
    "tx (conn s' 1) = tx (conn sample_server 1) @ concat (map frame qs)" by auto
  then show "\<exists>qs. tx (conn (snd (relay_loop 1 0 0 4 sample_server)) 1) = concat (map frame qs) \<and> length (concat qs) = 4"
    using rs by (intro exI [of _ qs]) (simp add: sample_server_def sample_socket_def)
qed

section \<open>No client can bring the server down, but for empty files\<close>

text \<open>What the table holds came through \<open>create\<close>: a send request that was parsed from a message.\<close>

definition stored_ok :: "'j json_api \<Rightarrow> 'j \<Rightarrow> bool" where
  "stored_ok J j \<longleftrightarrow> valid_send J j \<and> (\<exists>b. json_parse J b = Some j)"

definition server_ok :: "'j json_api \<Rightarrow> (string \<Rightarrow> bool) \<Rightarrow> 'j server \<Rightarrow> bool" where
  "server_ok J text s \<longleftrightarrow>
     (case manager s of None \<Rightarrow> True
      | Some m \<Rightarrow> manager_ok m \<and> (\<forall>code \<in> session_codes m. text code) \<and>
          (\<forall>code t. sessions m code = Some t \<longrightarrow> stored_ok J (session_data t)))"

text \<open>Some waiting session declares a file of no bytes.\<close>

definition empty_file_waiting :: "'j json_api \<Rightarrow> 'j server \<Rightarrow> bool" where
  "empty_file_waiting J s \<longleftrightarrow>
     (\<exists>m code t. manager s = Some m \<and> sessions m code = Some t \<and>
        json_get (json_get_size J) J (session_data t) FILE_SIZE_KEY = Inr 0)"

lemma on_error: "on i p s = (Inl e, s') \<Longrightarrow> (\<And>k. p (conn s i) = (Inl e, k) \<Longrightarrow> Q) \<Longrightarrow> Q"
  by (auto simp: on_def split: prod.splits)

lemma on_any_manager: "on i p s = (r, s') \<Longrightarrow> manager s' = manager s \<and> (\<forall>j. j \<noteq> i \<longrightarrow> conn s' j = conn s j)"
  by (auto simp: on_def split: prod.splits)

lemma relay_loop_any:
  "relay_loop w a got expected s = (r, s') \<Longrightarrow> manager s' = manager s \<and>
     (\<forall>i. i \<noteq> w \<and> i \<noteq> a \<longrightarrow> conn s' i = conn s i) \<and> (\<forall>e. r = Inl e \<longrightarrow> transport_error e)"
proof (induction "length (rx (conn s a))" arbitrary: got s rule: less_induct)
  case less
  show ?case
  proof (cases "got < expected")
    case False
    then show ?thesis using less.prems by (subst (asm) relay_loop.simps) auto
  next
    case True
    obtain rr s1 where rec: "on a receive s = (rr, s1)" by fastforce
    show ?thesis
    proof (cases rr)
      case (Inl e)
      then show ?thesis using less.prems rec True on_any_manager [OF rec]
        by (subst (asm) relay_loop.simps) (auto elim: on_error dest: receive_error)
    next
      case (Inr m)
      let ?w = "min (expected - got) (of_nat (length m)) :: size_t"
      obtain sr s2 where snd: "on w (send (take (unat ?w) m)) s1 = (sr, s2)" by fastforce
      have m: "manager s2 = manager s" "\<forall>i. i \<noteq> w \<and> i \<noteq> a \<longrightarrow> conn s2 i = conn s i" using on_any_manager [OF rec] on_any_manager [OF snd] by auto
      show ?thesis
      proof (cases sr)
        case (Inl e)
        then have "(r, s') = (Inl e, s2)" using less.prems rec True \<open>rr = Inr m\<close> snd
          by (subst (asm) relay_loop.simps) (simp add: Let_def)
        then show ?thesis using snd Inl m by (auto elim: on_error dest: send_error)
      next
        case (Inr u)
        then have "relay_loop w a (got + ?w) expected s2 = (r, s')" using less.prems rec True \<open>rr = Inr m\<close> snd
          by (subst (asm) relay_loop.simps) (simp add: Let_def)
        moreover have "length (rx (conn s2 a)) < length (rx (conn s a))"
          using receive_then_send_rx rec snd \<open>rr = Inr m\<close> by metis
        ultimately show ?thesis using less.hyps m by metis
      qed
    qed
  qed
qed

text \<open>Errors of a sequence are errors of its parts, and the table stays as long as they leave it.\<close>

definition harmless :: "'v \<Rightarrow> (error \<Rightarrow> bool) \<Rightarrow> ('s \<Rightarrow> 'v) \<Rightarrow> (error + 'a) \<times> 's \<Rightarrow> bool" where
  "harmless v E f r \<longleftrightarrow> f (snd r) = v \<and> (\<forall>e. fst r = Inl e \<longrightarrow> E e)"

lemma harmless_andthen:
  assumes "harmless v E f (p s)"
    and "\<And>x s'. p s = (Inr x, s') \<Longrightarrow> f s' = v \<Longrightarrow> harmless v E f (k x s')"
  shows "harmless v E f (andthen p k s)"
  using assms by (cases "p s") (auto simp: andthen_def harmless_def split: sum.splits)

lemma harmless_on:
  assumes "manager s = v" and "\<And>e. transport_error e \<Longrightarrow> E e"
    and "\<And>e k. p (conn s i) = (Inl e, k) \<Longrightarrow> transport_error e"
  shows "harmless v E manager (on i p s)"
  using assms by (auto simp: harmless_def on_def split: prod.splits)

lemma harmless_sockets:
  assumes "manager s = v" and "\<And>e. transport_error e \<Longrightarrow> E e"
  shows "harmless v E manager (on i (send x) s)" "harmless v E manager (on i receiveACK s)"
    "harmless v E manager (on i sendACK s)"
  by (rule harmless_on [OF assms], assumption, erule send_error)
    (rule harmless_on [OF assms], assumption, erule receiveACK_error,
     rule harmless_on [OF assms], assumption, erule sendACK_error)

lemma harmless_pure: "f s = v \<Longrightarrow> (\<And>e. r = Inl e \<Longrightarrow> E e) \<Longrightarrow> harmless v E f (of_sum r s)"
  by (simp add: harmless_def)

lemma harmless_ret: "f s = v \<Longrightarrow> harmless v E f (ret x s)"
  by (simp add: harmless_def)

lemma receiveFile_harmless:
  assumes "json_dump J meta = Some d" and "announces J meta name n hash c" and "n \<noteq> 0"
  shows "harmless (manager s) transport_error manager (receiveFile J w a meta s)"
proof -
  obtain t where t: "bytesToHumanReadable n = Inr t" using bytesToHumanReadable_positive assms(3) by blast
  have relay: "manager (snd (relay_loop w a 0 n s')) = manager s'"
    "fst (relay_loop w a 0 n s') = Inl e \<Longrightarrow> transport_error e" for s' e
    using relay_loop_any [of w a 0 n s', OF surjective_pairing] by auto
  show ?thesis
    using assms(1,2) t unfolding receiveFile_def announces_def
    by (intro harmless_andthen harmless_sockets harmless_pure harmless_ret)
      (auto simp: of_option_def harmless_def relay(1) dest: relay(2))
qed

lemma receiveFile_empty:
  assumes "json_dump J meta = Some d" and "announces J meta name 0 hash c"
  shows "manager (snd (receiveFile J w a meta s)) = manager s \<and>
    (\<forall>e. fst (receiveFile J w a meta s) = Inl e \<longrightarrow> transport_error e \<or> (\<exists>u. e = Undefined_behaviour u))"
proof -
  have "harmless (manager s) (\<lambda>e. transport_error e \<or> (\<exists>u. e = Undefined_behaviour u)) manager (receiveFile J w a meta s)"
    using assms unfolding receiveFile_def announces_def
    by (intro harmless_andthen harmless_sockets harmless_pure harmless_ret)
      (auto simp: of_option_def harmless_def bytesToHumanReadable_def)
  then show ?thesis by (auto simp: harmless_def)
qed

lemma json_get_string_member:
  "has_string J j key \<Longrightarrow> \<exists>x. json_get (json_get_string J) J j key = Inr x"
  by (auto simp: has_string_def json_get_def)

lemma catch_first_read_manager: "manager (snd (catch_first_read w (r, s))) = manager s"
  by (auto simp: catch_first_read_def split: sum.splits error.splits)

lemma catch_first_read_caught:
  "(\<And>e. r = Inl e \<Longrightarrow> is_DropFileBaseException e \<or> (\<exists>m. e = System_error m)) \<Longrightarrow> fst (catch_first_read w (r, s)) = Inr ()"
  using safeDisconnect_returns
  by (cases r) (auto simp: catch_first_read_def on_def split: prod.splits, (metis fst_conv)+)

lemma transport_caught: "transport_error e \<Longrightarrow> is_DropFileBaseException e \<or> (\<exists>m. e = System_error m)"
  by (auto simp: transport_error_def)

text \<open>A registered sender is stored with the message it sent, and is told its code.\<close>

lemma register_sender_safe:
  assumes "json_laws J text" and "server_ok J text s" and "manager s = Some m"
    and "stored_ok J json" and "registerSender ds now w json m = Some (r, m1)"
  shows "\<exists>code d. r = Inr code \<and> server_ok J text (s\<lparr>manager := Some m1\<rparr>) \<and> text code \<and>
    json_dump J (json_set J (json_null J) CODE_WORDS_KEY (J_string code)) = Some d"
proof -
  have ok: "manager_ok m" "\<forall>code \<in> session_codes m. text code"
    "\<forall>code t. sessions m code = Some t \<longrightarrow> stored_ok J (session_data t)"
    using assms(2,3) by (auto simp: server_ok_def)
  obtain code where c: "r = Inr code" "code \<in> session_codes m"
    and m1: "sessions m1 = (sessions m)(code \<mapsto> \<lparr>client_session = w, session_data = json, time_point = now\<rparr>)"
      "manager_ok m1" "nouns m1 = nouns m" "adjectives m1 = adjectives m"
    using registerSender_spec [OF ok(1) assms(5)] by auto
  have codes: "session_codes m1 = session_codes m" using m1 by (simp add: session_codes_def)
  have t: "text code" using ok(2) c(2) by blast
  have "distinct (map fst [(CODE_WORDS_KEY, J_string code)])" by simp
  moreover have "\<forall>(k, v) \<in> set [(CODE_WORDS_KEY, J_string code)]. text k \<and> (\<forall>s. v = J_string s \<longrightarrow> text s)"
    using t ascii_constants(6) [OF assms(1)] by auto
  ultimately obtain d where "json_dump J (json_object J [(CODE_WORDS_KEY, J_string code)]) = Some d"
    using json_laws_dump_object [OF assms(1)] by blast
  moreover have "server_ok J text (s\<lparr>manager := Some m1\<rparr>)"
    using m1 codes ok assms(4) by (auto simp: server_ok_def)
  ultimately show ?thesis using c(1) t by (simp add: json_object_def)
qed

text \<open>A session is handed over with its entry removed.\<close>

lemma handover_safe:
  assumes "json_laws J text" and "server_ok J text s" and "manager s = Some m"
    and "getSenderWithMetadata code m = (Inr (a, meta), m1)"
  shows "server_ok J text (s\<lparr>manager := Some m1\<rparr>) \<and> stored_ok J meta \<and>
    (\<exists>t. sessions m code = Some t \<and> session_data t = meta \<and> client_session t = a)"
proof -
  have ok: "manager_ok m" "\<forall>code \<in> session_codes m. text code"
    "\<forall>code t. sessions m code = Some t \<longrightarrow> stored_ok J (session_data t)"
    using assms(2,3) by (auto simp: server_ok_def)
  note g = getSender_spec [OF ok(1) assms(4)]
  then obtain t where t: "sessions m code = Some t" "client_session t = a" "session_data t = meta"
    by (auto split: option.splits)
  have "session_codes m1 = session_codes m" using g by (simp add: session_codes_def)
  then have "server_ok J text (s\<lparr>manager := Some m1\<rparr>)" using g ok by (auto simp: server_ok_def)
  with t ok(3) show ?thesis by auto
qed

definition escapes_only_if_empty :: "'j json_api \<Rightarrow> 'j server \<Rightarrow> error + unit \<Rightarrow> bool" where
  "escapes_only_if_empty J s r \<longleftrightarrow>
     (\<forall>e. r = Inl e \<longrightarrow> is_DropFileBaseException e \<or> (\<exists>m. e = System_error m) \<or>
        (empty_file_waiting J s \<and> (\<exists>u. e = Undefined_behaviour u)))"

lemma receiveFile_guarded:
  assumes "json_laws J text" and "server_ok J text s" and "manager s = Some m"
    and "getSenderWithMetadata code m = (Inr (a, meta), m1)"
    and "receiveFile J w a meta (s\<lparr>manager := Some m1\<rparr>) = (r, s')"
  shows "server_ok J text s' \<and> escapes_only_if_empty J s r"
proof -
  obtain t where ok1: "server_ok J text (s\<lparr>manager := Some m1\<rparr>)" and st: "stored_ok J meta"
    and t: "sessions m code = Some t" "session_data t = meta"
    using handover_safe [OF assms(1-4)] by blast
  obtain name n hash c where an: "announces J meta name n hash c"
    using valid_send_announces [OF assms(1), of meta] st by (auto simp: stored_ok_def)
  obtain d where d: "json_dump J meta = Some d"
    using json_laws_dump [OF assms(1)] st by (auto simp: stored_ok_def)
  have res: "fst (receiveFile J w a meta (s\<lparr>manager := Some m1\<rparr>)) = r"
    "snd (receiveFile J w a meta (s\<lparr>manager := Some m1\<rparr>)) = s'" using assms(5) by simp_all
  have "manager s' = Some m1 \<and> escapes_only_if_empty J s r"
  proof (cases "n = 0")
    case False
    have "harmless (Some m1) transport_error manager (r, s')"
      using receiveFile_harmless [OF d an False, of "s\<lparr>manager := Some m1\<rparr>" w a] assms(5) by simp
    then show ?thesis using transport_caught by (auto simp: harmless_def escapes_only_if_empty_def)
  next
    case True
    then have "empty_file_waiting J s"
      using an t assms(3) unfolding empty_file_waiting_def announces_def by auto
    moreover have "manager s' = Some m1 \<and>
        (\<forall>e. r = Inl e \<longrightarrow> transport_error e \<or> (\<exists>u. e = Undefined_behaviour u))"
      using receiveFile_empty [OF d, of name hash c w a "s\<lparr>manager := Some m1\<rparr>"] an True assms(5) by auto
    ultimately show ?thesis using transport_caught by (auto simp: escapes_only_if_empty_def)
  qed
  then show ?thesis using ok1 by (simp add: server_ok_def)
qed

lemma registerSession_safe:
  assumes "json_laws J text" and "server_ok J text s" and "json_parse J str = Some json"
    and "valid_send J json \<or> valid_receive J json"
    and "registerSession J ds now w json s = Some (r, s')"
  shows "server_ok J text s' \<and> escapes_only_if_empty J s r"
proof (cases "manager s")
  case None
  then have "on w (safeDisconnect (Some ''Internal error'')) s = (r, s')"
    using assms(5) by (simp add: registerSession_def)
  moreover obtain k where "safeDisconnect (Some ''Internal error'') (conn s w) = (Inr (), k)"
    using safeDisconnect_returns by blast
  ultimately have "r = Inr ()" "manager s' = None" using None by (auto simp: on_def)
  then show ?thesis by (simp add: server_ok_def escapes_only_if_empty_def)
next
  case (Some m)
  show ?thesis
  proof (cases "json_get (json_get_string J) J json ACTION_KEY = Inr ''send''")
    case True
    then have vs: "valid_send J json" using assms(4)
      by (auto simp: valid_receive_def json_get_def)
    then have st: "stored_ok J json" using assms(3) by (auto simp: stored_ok_def)
    obtain rr m1 where reg: "registerSender ds now w json m = Some (rr, m1)"
      using assms(5) Some True by (auto simp: registerSession_def split: option.splits)
    obtain code d where c: "rr = Inr code" and ok1: "server_ok J text (s\<lparr>manager := Some m1\<rparr>)"
      and d: "json_dump J (json_set J (json_null J) CODE_WORDS_KEY (J_string code)) = Some d"
      using register_sender_safe [OF assms(1,2) Some st reg] by blast
    have "on w (send d) (s\<lparr>manager := Some m1\<rparr>) = (r, s')"
      using assms(5) Some True reg c d by (simp add: registerSession_def andthen_def)
    then have "harmless (Some m1) transport_error manager (r, s')"
      using harmless_sockets(1) [of "s\<lparr>manager := Some m1\<rparr>" "Some m1" transport_error w d] by simp
    then show ?thesis using ok1 transport_caught
      by (auto simp: harmless_def escapes_only_if_empty_def server_ok_def)
  next
    case False
    then have vr: "valid_receive J json" using assms(4) by (auto simp: valid_send_def json_get_def)
    then obtain code where code: "json_get (json_get_string J) J json CODE_WORDS_KEY = Inr code"
      using json_get_string_member [of J json CODE_WORDS_KEY] by (auto simp: valid_receive_def)
    obtain g m1 where g: "getSenderWithMetadata code m = (g, m1)" by fastforce
    show ?thesis
    proof (cases g)
      case (Inl e)
      have "manager_ok m" using assms(2) Some by (simp add: server_ok_def)
      from getSender_spec [OF this g] Inl have "e = SessionsManagerException ''Unknown session code.''" "m1 = m"
        by (auto split: option.splits)
      moreover have "r = Inl e" "s' = s\<lparr>manager := Some m1\<rparr>"
        using assms(5) Some False code g Inl by (auto simp: registerSession_def)
      ultimately show ?thesis using assms(2) Some
        by (simp add: escapes_only_if_empty_def server_ok_def)
    next
      case (Inr am)
      obtain a meta where am: "am = (a, meta)" by fastforce
      have "receiveFile J w a meta (s\<lparr>manager := Some m1\<rparr>) = (r, s')"
        using assms(5) Some False code g Inr am by (simp add: registerSession_def)
      then show ?thesis using receiveFile_guarded [OF assms(1,2) Some] g Inr am by blast
    qed
  qed
qed

lemma handleFirstRead_outcome:
  assumes "json_laws J text" and "server_ok J text s"
    and "handleFirstRead J ds now w content s = Some (r, s')"
  shows "server_ok J text s' \<and>
    (r = Inr () \<or> (empty_file_waiting J s \<and> (\<exists>u. r = Inl (Undefined_behaviour u))))"
proof -
  obtain r1 s1 where caught: "(r, s') = catch_first_read w (r1, s1)"
    and inner: "server_ok J text s1 \<and> escapes_only_if_empty J s r1"
  proof (cases "create J content")
    case (Inl e)
    then have "\<exists>x. e = InitSessionMessageException x"
      using create_safe [of J content] by (simp add: only_init_errors_def)
    then show thesis using that [of "Inl e" s] assms(2,3) Inl
      by (auto simp: handleFirstRead_def escapes_only_if_empty_def)
  next
    case (Inr json)
    then have p: "json_parse J content = Some json" "valid_send J json \<or> valid_receive J json"
      using create_Inr [OF Inr] by auto
    then obtain x where "json_get (json_get_string J) J json ACTION_KEY = Inr x"
      by (auto simp: valid_send_def valid_receive_def json_get_def)
    with Inr assms(3) obtain r1 s1 where "registerSession J ds now w json s = Some (r1, s1)"
      "(r, s') = catch_first_read w (r1, s1)"
      by (auto simp: handleFirstRead_def)
    with registerSession_safe [OF assms(1,2) p] that show thesis by blast
  qed
  have "manager s' = manager s1" using caught catch_first_read_manager [of w r1 s1] by (metis snd_conv)
  then have "server_ok J text s'" using inner by (simp add: server_ok_def)
  moreover have "r = Inr () \<or> (empty_file_waiting J s \<and> (\<exists>u. r = Inl (Undefined_behaviour u)))"
  proof (cases "\<forall>e. r1 = Inl e \<longrightarrow> is_DropFileBaseException e \<or> (\<exists>m. e = System_error m)")
    case True
    then have "fst (catch_first_read w (r1, s1)) = Inr ()" by (intro catch_first_read_caught) auto
    then show ?thesis using caught by (metis fst_conv)
  next
    case False
    then obtain u where "r1 = Inl (Undefined_behaviour u)" "empty_file_waiting J s"
      using inner by (auto simp: escapes_only_if_empty_def)
    then show ?thesis using caught by (simp add: catch_first_read_def)
  qed
  ultimately show ?thesis by blast
qed

text \<open>The handler goes on only in the registration of a send request, while every draw gives a code in use.\<close>

lemma registerSession_loops_iff:
  assumes "server_ok J text s"
  shows "registerSession J ds now w json s = None \<longleftrightarrow>
    json_get (json_get_string J) J json ACTION_KEY = Inr ''send'' \<and>
    (\<exists>m. manager s = Some m \<and> (\<forall>d \<in> set ds. \<exists>code. generateSessionID m d = Inr code \<and> sessions m code \<noteq> None))"
proof (cases "manager s")
  case None
  then show ?thesis by (simp add: registerSession_def)
next
  case (Some m)
  then have "manager_ok m" using assms by (simp add: server_ok_def)
  note iff = registerSender_loops_iff [OF this, of ds now w json]
  have "registerSession J ds now w json s = None \<longleftrightarrow>
      json_get (json_get_string J) J json ACTION_KEY = Inr ''send'' \<and> registerSender ds now w json m = None"
    using Some by (simp add: registerSession_def Let_def split: option.splits sum.splits)
  then show ?thesis using Some unfolding iff by simp
qed

lemma handleFirstRead_loops_iff:
  assumes "server_ok J text s"
  shows "handleFirstRead J ds now w content s = None \<longleftrightarrow>
    (\<exists>json m. create J content = Inr json \<and> json_get (json_get_string J) J json ACTION_KEY = Inr ''send'' \<and>
       manager s = Some m \<and> (\<forall>d \<in> set ds. \<exists>code. generateSessionID m d = Inr code \<and> sessions m code \<noteq> None))"
proof (cases "create J content")
  case (Inl e)
  then show ?thesis by (simp add: handleFirstRead_def)
next
  case (Inr json)
  then show ?thesis using registerSession_loops_iff [OF assms, of ds now w json]
    by (cases "json_get (json_get_string J) J json ACTION_KEY") (simp_all add: handleFirstRead_def)
qed

text \<open>
  C14. No first message brings the server down, with one exception: whatever bytes a client sends
  first, the handler does not return only while it registers a send request and every code drawn is in
  use; otherwise it returns normally, with the table's invariant kept (distinct codes, each with
  the parsed send request of its sender); only when some waiting sender has declared a file of no
  bytes can the undefined conversion of the log line be reached.
\<close>

theorem handleFirstRead_safe:
  assumes "json_laws J text" and "server_ok J text s"
  shows "case handleFirstRead J ds now w content s of
      None \<Rightarrow> \<exists>json m. create J content = Inr json \<and> json_get (json_get_string J) J json ACTION_KEY = Inr ''send'' \<and>
        manager s = Some m \<and> (\<forall>d \<in> set ds. \<exists>code. generateSessionID m d = Inr code \<and> sessions m code \<noteq> None)
    | Some (r, s') \<Rightarrow> server_ok J text s' \<and>
        (r = Inr () \<or> (empty_file_waiting J s \<and> (\<exists>u. r = Inl (Undefined_behaviour u))))"
proof (cases "handleFirstRead J ds now w content s")
  case None
  with handleFirstRead_loops_iff [OF assms(2), of ds now w content] have "\<exists>json m. create J content = Inr json \<and>
      json_get (json_get_string J) J json ACTION_KEY = Inr ''send'' \<and> manager s = Some m \<and>
      (\<forall>d \<in> set ds. \<exists>code. generateSessionID m d = Inr code \<and> sessions m code \<noteq> None)" by blast
  then show ?thesis unfolding None option.case .
next
  case (Some q)
  with handleFirstRead_outcome [OF assms] show ?thesis by (cases q) simp
qed

text \<open>A server with one waiting sender whose file has \<open>n\<close> bytes.\<close>

definition waiting_server :: "size_t \<Rightarrow> flat server" where
  "waiting_server n = sample_server\<lparr>manager := Some \<lparr>nouns = [''map'', ''art''], adjectives = [''able''],
     senders_sessions = [(''able-map-7'', \<lparr>client_session = 0, session_data = sample_meta n, time_point = 5\<rparr>)]\<rparr>\<rparr>"

lemma sample_meta_stored: "stored_ok flat_json (sample_meta n)"
proof -
  have "valid_send flat_json (sample_meta n)"
    unfolding sample_meta_def by (rule send_fields_object [OF flat_json_laws])
  moreover have "json_parse flat_json (put_flat (sample_meta n)) = Some (sample_meta n)" by simp
  ultimately show ?thesis unfolding stored_ok_def by blast
qed

lemma waiting_server_ok: "server_ok flat_json (\<lambda>_. True) (waiting_server n)"
  using sample_meta_stored [of n]
  by (auto simp: waiting_server_def server_ok_def manager_ok_def words_usable_def word_ok_def is_space_def
      sessions_def split: if_splits)

lemma waiting_server_size: "n \<noteq> 0 \<Longrightarrow> \<not> empty_file_waiting flat_json (waiting_server n)"
  using sample_meta_announces [of n]
  by (auto simp: waiting_server_def empty_file_waiting_def announces_def sessions_def split: if_splits)

theorem handleFirstRead_safe_witness:
  "\<exists>s'. handleFirstRead flat_json [] 9 1 (put_flat (createReceiveMessage flat_json ''able-map-7''))
     (waiting_server 4) = Some (Inr (), s') \<and> server_ok flat_json (\<lambda>_. True) s'"
proof -
  let ?j = "createReceiveMessage flat_json ''able-map-7''"
  have c: "create flat_json (put_flat ?j) = Inr ?j"
    using createReceiveMessage_valid(1) [OF flat_json_laws] by (intro create_ok) auto
  have "json_get (json_get_string flat_json) flat_json ?j ACTION_KEY = Inr ''receive''"
    by (simp add: createReceiveMessage_def json_get_def key_defs)
  then have "handleFirstRead flat_json [] 9 1 (put_flat ?j) (waiting_server 4) \<noteq> None"
    by (simp add: handleFirstRead_def c registerSession_def waiting_server_def)
  then obtain r s' where h: "handleFirstRead flat_json [] 9 1 (put_flat ?j) (waiting_server 4) = Some (r, s')"
    by (metis not_None_eq prod.collapse)
  from handleFirstRead_safe [OF flat_json_laws waiting_server_ok [of 4], where ds = "[]" and now = 9 and w = 1 and content = "put_flat ?j"] waiting_server_size [of 4]
  show ?thesis using h by auto
qed

text \<open>
  C39. An empty file cannot be transferred: a send request of size 0 is accepted, and once a receiver
  has confirmed it the server tells the sender to go on and then converts \<open>log2(0)\<close> to an integer,
  which is undefined; no byte is relayed and the second acknowledgement is not sent.
\<close>

theorem receiveFile_empty_file:
  assumes "w \<noteq> a" and "json_dump J meta = Some d" and "length d < 2 ^ 64"
    and "announces J meta name 0 hash c" and "writable (conn s w)" and "writable (conn s a)"
    and "rx (conn s w) = frame ACK @ rw"
  shows "\<exists>u s'. receiveFile J w a meta s = (Inl (Undefined_behaviour u), s') \<and>
    tx (conn s' a) = tx (conn s a) @ frame ACK \<and> tx (conn s' w) = tx (conn s w) @ wire d"
proof -
  obtain b s1 where run: "relay_content J w a meta s = andthen (of_sum (bytesToHumanReadable 0)) (\<lambda>_. relay_loop w a 0 0) s1"
    and s1: "s1 = s\<lparr>conn := (conn s)(w := (written (wire d) (conn s w))\<lparr>rx := rw, data_buffer := b\<rparr>,
                            a := written (frame ACK) (conn s a))\<rparr>"
    using relay_content_confirmed [OF assms(1-3,5-7) assms(4)] by blast
  then show ?thesis using assms(1)
    by (simp add: receiveFile_content bytesToHumanReadable_def andthen_def)
qed

theorem receiveFile_empty_file_witness:
  "\<exists>u s'. receiveFile flat_json 1 0 (sample_meta 0) sample_server = (Inl (Undefined_behaviour u), s')"
proof -
  have "json_dump flat_json (sample_meta 0) = Some (put_flat (sample_meta 0))" by simp
  moreover have "writable (conn sample_server 1)" "writable (conn sample_server 0)"
    "rx (conn sample_server 1) = frame ACK @ frame ACK"
    by (simp_all add: sample_server_def sample_socket_def writable_def)
  ultimately show ?thesis
    using receiveFile_empty_file [OF _ _ sample_meta_dump sample_meta_announces, of 1 0 0 sample_server "frame ACK"]
    by auto
qed

section \<open>What a first message touches\<close>

lemma keeps_conn_on: "i \<noteq> j \<Longrightarrow> conn s i = v \<Longrightarrow> harmless v (\<lambda>_. True) (\<lambda>s. conn s i) (on j p s)"
  by (simp add: harmless_def on_conn)

lemma receiveFile_frame:
  "manager (snd (receiveFile J w a meta s)) = manager s \<and>
   (\<forall>i. i \<noteq> w \<and> i \<noteq> a \<longrightarrow> conn (snd (receiveFile J w a meta s)) i = conn s i)"
proof -
  have relay: "manager (snd (relay_loop w a 0 n s')) = manager s'"
    "i \<noteq> w \<Longrightarrow> i \<noteq> a \<Longrightarrow> conn (snd (relay_loop w a 0 n s')) i = conn s' i" for n s' i
    using relay_loop_any [of w a 0 n s', OF surjective_pairing] by auto
  have "harmless (manager s) (\<lambda>_. True) manager (receiveFile J w a meta s)"
    unfolding receiveFile_def
    by (intro harmless_andthen harmless_sockets harmless_pure harmless_ret)
      (auto simp: of_option_def harmless_def relay split: option.splits)
  moreover have "harmless (conn s i) (\<lambda>_. True) (\<lambda>s. conn s i) (receiveFile J w a meta s)"
    if "i \<noteq> w" "i \<noteq> a" for i
    unfolding receiveFile_def
    by (intro harmless_andthen keeps_conn_on harmless_pure harmless_ret)
      (auto simp: of_option_def harmless_def relay that split: option.splits)
  ultimately show ?thesis by (auto simp: harmless_def)
qed

lemma catch_first_read_frame: "i \<noteq> w \<Longrightarrow> conn (snd (catch_first_read w (r, s))) i = conn s i"
  by (auto simp: catch_first_read_def on_conn split: sum.splits error.splits)

text \<open>A session is waiting when it has an entry in the table.\<close>

definition waits :: "'j sessions_manager \<Rightarrow> nat \<Rightarrow> bool" where
  "waits m i \<longleftrightarrow> (\<exists>code t. sessions m code = Some t \<and> client_session t = i)"

text \<open>The table after a first message: unchanged, one entry less, or one new entry for the session.\<close>

definition table_step :: "nat \<Rightarrow> 'j sessions_manager \<Rightarrow> 'j sessions_manager \<Rightarrow> bool" where
  "table_step w m m' \<longleftrightarrow>
     sessions m' = sessions m \<or> (\<exists>code. sessions m' = (sessions m)(code := None)) \<or>
     (\<exists>code t. sessions m code = None \<and> client_session t = w \<and> sessions m' = (sessions m)(code \<mapsto> t))"

lemma registerSession_frame:
  assumes "manager s = Some m" and "manager_ok m" and "registerSession J ds now w json s = Some (r, s')"
  shows "\<exists>m'. manager s' = Some m' \<and> manager_ok m' \<and> table_step w m m' \<and>
    (\<forall>i. i \<noteq> w \<and> \<not> waits m i \<longrightarrow> conn s' i = conn s i)"
proof (cases "json_get (json_get_string J) J json ACTION_KEY = Inr ''send''")
  case True
  obtain rr m1 where reg: "registerSender ds now w json m = Some (rr, m1)"
    using assms(1,3) True by (auto simp: registerSession_def split: option.splits)
  obtain code where c: "rr = Inr code" "sessions m code = None" "manager_ok m1"
    and m1: "sessions m1 = (sessions m)(code \<mapsto> \<lparr>client_session = w, session_data = json, time_point = now\<rparr>)"
    using registerSender_spec [OF assms(2) reg] by auto
  then have "table_step w m m1" unfolding table_step_def
    by (intro disjI2 exI [of _ code] exI [of _ "\<lparr>client_session = w, session_data = json, time_point = now\<rparr>"]) simp
  moreover have "(r, s') = andthen (of_option (Json_exception ''type_error'')
        (json_dump J (json_set J (json_null J) CODE_WORDS_KEY (J_string code))))
      (\<lambda>text. on w (send text)) (s\<lparr>manager := Some m1\<rparr>)"
    using assms(1,3) True reg c by (simp add: registerSession_def)
  then have "manager s' = Some m1 \<and> (\<forall>i. i \<noteq> w \<longrightarrow> conn s' i = conn s i)"
    by (auto simp: andthen_def of_option_def dest!: sym [of "(r, s')"] on_any_manager split: option.splits)
  ultimately show ?thesis using c(3) by blast
next
  case False
  show ?thesis
  proof (cases "json_get (json_get_string J) J json CODE_WORDS_KEY")
    case (Inl e)
    then have "s' = s" using assms(1,3) False by (simp add: registerSession_def)
    then show ?thesis using assms(1,2) by (auto simp: table_step_def)
  next
    case (Inr code)
    obtain g m1 where g: "getSenderWithMetadata code m = (g, m1)" by fastforce
    note spec = getSender_spec [OF assms(2) g]
    then have m1: "manager_ok m1" "table_step w m m1" by (auto simp: table_step_def)
    show ?thesis
    proof (cases g)
      case (Inl e)
      then have "s' = s\<lparr>manager := Some m1\<rparr>"
        using assms(1,3) False Inr g by (simp add: registerSession_def)
      with m1 show ?thesis by auto
    next
      case (Inr am)
      obtain a meta where am: "am = (a, meta)" by fastforce
      have "snd (receiveFile J w a meta (s\<lparr>manager := Some m1\<rparr>)) = s'"
        using assms(1,3) False \<open>json_get _ J json CODE_WORDS_KEY = Inr code\<close> g Inr am
        by (simp add: registerSession_def)
      moreover have "waits m a" using spec Inr am by (auto simp: waits_def split: option.splits)
      ultimately show ?thesis
        using receiveFile_frame [of J w a meta "s\<lparr>manager := Some m1\<rparr>"] m1 by auto
    qed
  qed
qed

lemma handleFirstRead_frame:
  assumes "manager s = Some m" and "manager_ok m" and "handleFirstRead J ds now w content s = Some (r, s')"
  shows "\<exists>m'. manager s' = Some m' \<and> manager_ok m' \<and> table_step w m m' \<and>
    (\<forall>i. i \<noteq> w \<and> \<not> waits m i \<longrightarrow> conn s' i = conn s i)"
proof -
  let ?q = "sum_bind (create J content) (\<lambda>json.
     sum_bind (json_get (json_get_string J) J json ACTION_KEY) (\<lambda>_. Inr json))"
  have "\<exists>r1 s1. (r, s') = catch_first_read w (r1, s1) \<and>
      (s1 = s \<or> (\<exists>json. registerSession J ds now w json s = Some (r1, s1)))"
  proof (cases ?q)
    case (Inl e)
    then have "(r, s') = catch_first_read w (Inl e, s)" using assms(3) by (simp add: handleFirstRead_def)
    then show ?thesis by blast
  next
    case (Inr json)
    then obtain q where "registerSession J ds now w json s = Some q" "(r, s') = catch_first_read w q"
      using assms(3) by (auto simp: handleFirstRead_def)
    then show ?thesis by (cases q) blast
  qed
  then obtain r1 s1 where c: "(r, s') = catch_first_read w (r1, s1)"
    and s1: "s1 = s \<or> (\<exists>json. registerSession J ds now w json s = Some (r1, s1))" by blast
  have "\<exists>m'. manager s1 = Some m' \<and> manager_ok m' \<and> table_step w m m' \<and>
    (\<forall>i. i \<noteq> w \<and> \<not> waits m i \<longrightarrow> conn s1 i = conn s i)"
    using s1 registerSession_frame [OF assms(1,2)] assms(1,2) by (auto simp: table_step_def)
  then show ?thesis using c catch_first_read_manager [of w r1 s1] catch_first_read_frame [of _ w r1 s1]
    by (metis snd_conv)
qed

lemma first_read_cases:
  assumes "first_read J ds now w s = Some (r, s')"
  obtains (dropped) s1 where "on w (asyncReadMessage MAX_FIRST_MESSAGE_SIZE) s = (Inr Dropped, s1)" "r = Inr ()" "s' = s1"
    | (message) content s1 where "on w (asyncReadMessage MAX_FIRST_MESSAGE_SIZE) s = (Inr (Message content), s1)"
        "handleFirstRead J ds now w content s1 = Some (r, s')"
proof -
  have ok: "MAX_FIRST_MESSAGE_SIZE \<le> BUFFER_SIZE" by (simp add: BUFFER_SIZE_def MAX_FIRST_MESSAGE_SIZE_def)
  obtain q s1 where q: "on w (asyncReadMessage MAX_FIRST_MESSAGE_SIZE) s = (q, s1)" by fastforce
  obtain x where x: "q = Inr x"
    using asyncReadMessage_returns [OF ok, of "conn s w"] q
      fst_on [of w "asyncReadMessage MAX_FIRST_MESSAGE_SIZE" s] by auto
  show thesis
  proof (cases x)
    case (Message content)
    then show thesis using assms q x by (intro message) (simp_all add: first_read_def)
  next
    case Dropped
    then show thesis using assms q x by (intro dropped) (simp_all add: first_read_def)
  qed
qed

section \<open>What a first message asks for\<close>

text \<open>
  The request on a connection: what its first message says, before the server does anything about it.
  Offers carry the parsed message, requests the code.
\<close>

datatype 'j request = Offer 'j | Ask string | No_request

definition message_request :: "'j json_api \<Rightarrow> bytes \<Rightarrow> 'j request" where
  "message_request J content =
     (case create J content of
        Inl e \<Rightarrow> No_request
      | Inr json \<Rightarrow>
          if json_get (json_get_string J) J json ACTION_KEY = Inr ''send'' then Offer json
          else case json_get (json_get_string J) J json CODE_WORDS_KEY of Inl e \<Rightarrow> No_request | Inr code \<Rightarrow> Ask code)"

definition request_on :: "'j json_api \<Rightarrow> socket \<Rightarrow> 'j request" where
  "request_on J k =
     (case fst (asyncReadMessage MAX_FIRST_MESSAGE_SIZE k) of
        Inr (Message content) \<Rightarrow> message_request J content
      | _ \<Rightarrow> No_request)"

text \<open>What the table is after a request: one more entry, under a free code; without the entry that was
  asked for; or as it was.\<close>

definition answered :: "'j request \<Rightarrow> nat \<Rightarrow> int \<Rightarrow> 'j sessions_manager \<Rightarrow> 'j sessions_manager \<Rightarrow> bool" where
  "answered q i now m m' \<longleftrightarrow>
     (case q of
        Offer json \<Rightarrow> \<exists>code. sessions m code = None \<and>
          sessions m' = (sessions m)(code \<mapsto> \<lparr>client_session = i, session_data = json, time_point = now\<rparr>)
      | Ask code \<Rightarrow> sessions m' = (sessions m)(code := None)
      | No_request \<Rightarrow> sessions m' = sessions m)"

lemma registerSession_answers:
  assumes "manager s = Some m" and "manager_ok m" and "create J content = Inr json"
    and "registerSession J ds now w json s = Some (r, s')"
  shows "\<exists>m'. manager s' = Some m' \<and> answered (message_request J content) w now m m'"
proof (cases "json_get (json_get_string J) J json ACTION_KEY = Inr ''send''")
  case True
  obtain rr m1 where reg: "registerSender ds now w json m = Some (rr, m1)"
    using assms(1,4) True by (auto simp: registerSession_def split: option.splits)
  obtain code where c: "rr = Inr code" "sessions m code = None"
    and m1: "sessions m1 = (sessions m)(code \<mapsto> \<lparr>client_session = w, session_data = json, time_point = now\<rparr>)"
    using registerSender_spec [OF assms(2) reg] by auto
  have "(r, s') = andthen (of_option (Json_exception ''type_error'')
        (json_dump J (json_set J (json_null J) CODE_WORDS_KEY (J_string code))))
      (\<lambda>text. on w (send text)) (s\<lparr>manager := Some m1\<rparr>)"
    using assms(1,4) True reg c by (simp add: registerSession_def)
  then have "manager s' = Some m1"
    by (auto simp: andthen_def of_option_def dest!: sym [of "(r, s')"] on_any_manager split: option.splits)
  then show ?thesis using assms(3) True c(2) m1 by (auto simp: answered_def message_request_def)
next
  case False
  show ?thesis
  proof (cases "json_get (json_get_string J) J json CODE_WORDS_KEY")
    case (Inl e)
    then have "s' = s" using assms(1,4) False by (simp add: registerSession_def)
    then show ?thesis using assms(1,3) False Inl by (simp add: answered_def message_request_def)
  next
    case (Inr code)
    obtain g m1 where g: "getSenderWithMetadata code m = (g, m1)" by fastforce
    note spec = getSender_spec [OF assms(2) g]
    have "manager s' = Some m1"
    proof (cases g)
      case (Inl e)
      then have "s' = s\<lparr>manager := Some m1\<rparr>"
        using assms(1,4) False Inr g by (simp add: registerSession_def)
      then show ?thesis by simp
    next
      case (Inr am)
      obtain a meta where am: "am = (a, meta)" by fastforce
      have "snd (receiveFile J w a meta (s\<lparr>manager := Some m1\<rparr>)) = s'"
        using assms(1,4) False \<open>json_get _ J json CODE_WORDS_KEY = Inr code\<close> g Inr am
        by (simp add: registerSession_def)
      then show ?thesis using receiveFile_frame [of J w a meta "s\<lparr>manager := Some m1\<rparr>"] by auto
    qed
    then show ?thesis using assms(3) False Inr spec by (simp add: answered_def message_request_def)
  qed
qed

lemma first_read_answers:
  assumes "manager s = Some m" and "manager_ok m" and "first_read J ds now w s = Some (r, s')"
  shows "\<exists>m'. manager s' = Some m' \<and> answered (request_on J (conn s w)) w now m m'"
  using assms(3)
proof (cases rule: first_read_cases)
  case (dropped s1)
  have "fst (asyncReadMessage MAX_FIRST_MESSAGE_SIZE (conn s w)) = Inr Dropped"
    using dropped(1) fst_on by (metis fst_conv)
  then have "request_on J (conn s w) = No_request" by (simp add: request_on_def)
  then show ?thesis using dropped assms(1) on_any_manager [OF dropped(1)] by (simp add: answered_def)
next
  case (message content s1)
  have m1: "manager s1 = Some m" using assms(1) on_any_manager [OF message(1)] by simp
  have "fst (asyncReadMessage MAX_FIRST_MESSAGE_SIZE (conn s w)) = Inr (Message content)"
    using message(1) fst_on by (metis fst_conv)
  then have rq: "request_on J (conn s w) = message_request J content" by (simp add: request_on_def)
  let ?q = "sum_bind (create J content) (\<lambda>json. sum_bind (json_get (json_get_string J) J json ACTION_KEY) (\<lambda>_. Inr json))"
  have "\<exists>r1 s2 m'. (r, s') = catch_first_read w (r1, s2) \<and> manager s2 = Some m' \<and> answered (message_request J content) w now m m'"
  proof (cases ?q)
    case (Inl e)
    then have "(r, s') = catch_first_read w (Inl e, s1)" using message(2) by (simp add: handleFirstRead_def)
    moreover have "message_request J content = No_request"
      using Inl create_Inr [of J content]
      by (auto simp: message_request_def valid_send_def valid_receive_def json_get_def split: sum.splits)
    ultimately show ?thesis using m1 by (auto simp: answered_def)
  next
    case (Inr json)
    then obtain q where q: "registerSession J ds now w json s1 = Some q" "(r, s') = catch_first_read w q"
      using message(2) by (auto simp: handleFirstRead_def)
    have c: "create J content = Inr json" using Inr by (auto simp: sum_bind_Inr_iff)
    obtain r1 s2 where "q = (r1, s2)" by fastforce
    with q registerSession_answers [OF m1 assms(2) c] show ?thesis by blast
  qed
  then obtain r1 s2 m' where "(r, s') = catch_first_read w (r1, s2)" "manager s2 = Some m'"
    "answered (message_request J content) w now m m'" by blast
  then show ?thesis using catch_first_read_manager [of w r1 s2] unfolding rq by (metis snd_conv)
qed

text \<open>A first message is served as soon as the draws it may need contain a free code.\<close>

lemma registerSession_returns:
  assumes "\<And>m json. manager s = Some m \<Longrightarrow> registerSender ds now w json m \<noteq> None"
  shows "registerSession J ds now w json s \<noteq> None"
proof (cases "manager s")
  case (Some m)
  then obtain r m' where "registerSender ds now w json m = Some (r, m')" using assms by fastforce
  with Some show ?thesis by (simp add: registerSession_def Let_def split: sum.splits)
qed (simp add: registerSession_def)

lemma handleFirstRead_returns:
  assumes "\<And>m json. manager s = Some m \<Longrightarrow> registerSender ds now w json m \<noteq> None"
  shows "handleFirstRead J ds now w content s \<noteq> None"
  using registerSession_returns [OF assms] by (simp add: handleFirstRead_def split: sum.splits)

lemma first_read_returns:
  assumes "\<And>m json. manager s = Some m \<Longrightarrow> registerSender ds now w json m \<noteq> None"
  shows "first_read J ds now w s \<noteq> None"
proof -
  obtain q s1 where q: "on w (asyncReadMessage MAX_FIRST_MESSAGE_SIZE) s = (q, s1)" by fastforce
  then have "manager s1 = manager s" using on_any_manager by blast
  then have "handleFirstRead J ds now w content s1 \<noteq> None" for content
    using assms by (intro handleFirstRead_returns) simp
  then show ?thesis by (auto simp: first_read_def q split: sum.splits async_result.splits)
qed

end
