(* ===== verification/Server.thy ===== *)
theory Server
  imports ServerSession
begin

text \<open>
  \<open>include/server/DropFileServer.hpp\<close> and the sweeping thread of \<open>SessionsManager\<close>: the server as a
  transition system.  A step accepts a connection, completes the first read of a session (with the
  whole transfer, when it is a receiver's), or sweeps the table.  The table's mutex and the single
  thread of the \<open>io_context\<close> make these steps atomic: a transfer in progress does not look at the
  table, so a sweep during it is a sweep after it.
\<close>

section \<open>Invariants of transition systems\<close>

locale step_system =
  fixes init :: "'s \<Rightarrow> bool" and step :: "'s \<Rightarrow> 's \<Rightarrow> bool" and inv :: "'s \<Rightarrow> bool"
  assumes init_inv: "init s \<Longrightarrow> inv s"
    and step_inv: "inv s \<Longrightarrow> step s s' \<Longrightarrow> inv s'"
begin

lemma run_inv:
  assumes "step\<^sup>*\<^sup>* s s'" and "inv s"
  shows "inv s'"
  using assms by (induction) (auto intro: step_inv)

lemma reachable_inv: "init s \<Longrightarrow> step\<^sup>*\<^sup>* s s' \<Longrightarrow> inv s'"
  using init_inv run_inv by blast

end

text \<open>Where each step moves every part of the state up a ranking, and what has reached the top stays.\<close>

locale ranked_system = step_system init step inv
  for init :: "'s \<Rightarrow> bool" and step and inv +
  fixes rank :: "'s \<Rightarrow> 'i \<Rightarrow> 'r :: linorder" and top_rank :: 'r and view :: "'s \<Rightarrow> 'i \<Rightarrow> 'v"
  assumes step_rank: "inv s \<Longrightarrow> step s s' \<Longrightarrow> rank s i \<le> rank s' i"
    and top: "r \<le> top_rank"
    and top_fixed: "inv s \<Longrightarrow> step s s' \<Longrightarrow> rank s i = top_rank \<Longrightarrow> view s' i = view s i"
begin

lemma run_rank:
  assumes "step\<^sup>*\<^sup>* s s'" and "inv s"
  shows "rank s i \<le> rank s' i"
  using assms
proof (induction)
  case (step s1 s2)
  then have "inv s1" using run_inv by blast
  with step show ?case using step_rank [of s1 s2 i] by (auto intro: order_trans)
qed simp

lemma run_top_fixed:
  assumes "step\<^sup>*\<^sup>* s s'" and "inv s" and "rank s i = top_rank"
  shows "rank s' i = top_rank \<and> view s' i = view s i"
  using assms
proof (induction)
  case (step s1 s2)
  then have i1: "inv s1" using run_inv by blast
  have "top_rank \<le> rank s2 i" using step step_rank [OF i1 step.hyps(2), of i] by simp
  then have "rank s2 i = top_rank" using top [of "rank s2 i"] by simp
  with step i1 show ?case using top_fixed [OF i1 step.hyps(2), of i] by simp
qed simp

end

section \<open>Sessions\<close>

text \<open>
  The life of a session object: its identity is not used yet; its first read is scheduled; the table
  keeps it alive; it has been destroyed.
\<close>

datatype phase = Unused | Reading | Waiting | Finished

fun phase_rank :: "phase \<Rightarrow> nat" where
  "phase_rank Unused = 0"
| "phase_rank Reading = 1"
| "phase_rank Waiting = 2"
| "phase_rank Finished = 3"

lemma phase_rank_inject [simp]: "phase_rank p = phase_rank q \<longleftrightarrow> p = q"
  by (cases p; cases q) auto

instantiation phase :: linorder
begin

definition less_eq_phase :: "phase \<Rightarrow> phase \<Rightarrow> bool" where
  "less_eq_phase p q \<longleftrightarrow> phase_rank p \<le> phase_rank q"

definition less_phase :: "phase \<Rightarrow> phase \<Rightarrow> bool" where
  "less_phase p q \<longleftrightarrow> phase_rank p < phase_rank q"

instance
  by standard (auto simp: less_eq_phase_def less_phase_def antisym)

end

lemma le_Finished [simp]: "p \<le> Finished" "Unused \<le> p"
  by (cases p; simp add: less_eq_phase_def)+

record 'j world =
  srv :: "'j server"
  phase_of :: "nat \<Rightarrow> phase"
  down :: bool

definition holds_session :: "'j sessions_manager option \<Rightarrow> nat \<Rightarrow> bool" where
  "holds_session mo i =
     (case mo of None \<Rightarrow> False | Some m \<Rightarrow> list_ex (\<lambda>(code, t). client_session t = i) (senders_sessions m))"

text \<open>After an event: the session that has been served, and any whose entry has gone, is destroyed
  unless the table holds it.\<close>

definition settle :: "'j sessions_manager option \<Rightarrow> nat set \<Rightarrow> (nat \<Rightarrow> phase) \<Rightarrow> nat \<Rightarrow> phase" where
  "settle mo served ph i =
     (if i \<in> served \<or> ph i = Waiting then (if holds_session mo i then Waiting else Finished) else ph i)"

section \<open>Events\<close>

text \<open>The accept handler: a failed accept changes nothing; an exception of \<open>start\<close> (the handshake) is
  logged and the session dropped; then the next accept is scheduled, so the event can come again.\<close>

definition acceptNewConnection :: "bool \<Rightarrow> error + unit \<Rightarrow> nat \<Rightarrow> socket \<Rightarrow> 'j world \<Rightarrow> 'j world" where
  "acceptNewConnection failed handshake i k w =
     (if failed then w
      else w\<lparr>srv := (srv w)\<lparr>conn := (conn (srv w))(i := k)\<rparr>,
             phase_of := (phase_of w)(i := (case handshake of Inl e \<Rightarrow> Finished | Inr _ \<Rightarrow> Reading))\<rparr>)"

text \<open>The completion of a first read; an exception that leaves the handler leaves \<open>run\<close> and \<open>main\<close>.\<close>

definition serveFirstRead :: "'j json_api \<Rightarrow> draws list \<Rightarrow> int \<Rightarrow> nat \<Rightarrow> 'j world \<Rightarrow> 'j world option" where
  "serveFirstRead J ds now i w =
     (case first_read J ds now i (srv w) of
        None \<Rightarrow> None
      | Some (r, s') \<Rightarrow>
          Some (w\<lparr>srv := s', phase_of := settle (manager s') {i} (phase_of w),
                  down := (case r of Inl e \<Rightarrow> True | Inr _ \<Rightarrow> False)\<rparr>))"

definition sweepSessions :: "int \<Rightarrow> (nat \<Rightarrow> int) \<Rightarrow> 'j world \<Rightarrow> 'j world" where
  "sweepSessions client_timeout clock w =
     (let m = map_option (terminateTimeoutClients client_timeout clock) (manager (srv w))
      in w\<lparr>srv := (srv w)\<lparr>manager := m\<rparr>, phase_of := settle m {} (phase_of w)\<rparr>)"

inductive server_step :: "'j json_api \<Rightarrow> int \<Rightarrow> 'j world \<Rightarrow> 'j world \<Rightarrow> bool" for J T where
  accept: "\<not> down w \<Longrightarrow> phase_of w i = Unused \<Longrightarrow>
    server_step J T w (acceptNewConnection failed handshake i k w)"
| serve: "\<not> down w \<Longrightarrow> phase_of w i = Reading \<Longrightarrow> serveFirstRead J ds now i w = Some w' \<Longrightarrow>
    server_step J T w w'"
| sweep: "\<not> down w \<Longrightarrow> server_step J T w (sweepSessions T clock w)"

inductive_cases server_stepE: "server_step J T w w'"

text \<open>The constructors of \<open>SessionsManager\<close> and of \<open>DropFileServer\<close>.\<close>

definition initial :: "'j json_api \<Rightarrow> (string \<Rightarrow> bool) \<Rightarrow> 'j world \<Rightarrow> bool" where
  "initial J text w \<longleftrightarrow> json_laws J text \<and> \<not> down w \<and> (\<forall>i. phase_of w i = Unused) \<and>
     (\<exists>j m. SessionsManager_init J j = Inr m \<and> manager (srv w) = Some m \<and>
        length (nouns m) < 2 ^ 64 \<and> length (adjectives m) < 2 ^ 64 \<and> (\<forall>code \<in> session_codes m. text code))"

section \<open>Invariant\<close>

definition world_ok :: "'j json_api \<Rightarrow> (string \<Rightarrow> bool) \<Rightarrow> 'j world \<Rightarrow> bool" where
  "world_ok J text w \<longleftrightarrow> json_laws J text \<and> server_ok J text (srv w) \<and>
     (\<exists>m. manager (srv w) = Some m \<and> (\<forall>i. waits m i \<longleftrightarrow> phase_of w i = Waiting) \<and>
        (\<forall>c1 c2 t1 t2. sessions m c1 = Some t1 \<and> sessions m c2 = Some t2 \<and>
           client_session t1 = client_session t2 \<longrightarrow> c1 = c2))"

lemma holds_session_waits: "manager_ok m \<Longrightarrow> holds_session (Some m) i \<longleftrightarrow> waits m i"
  by (auto simp: holds_session_def waits_def list_ex_iff sessions_entry)

lemma initial_world_ok:
  assumes "initial J text w"
  shows "world_ok J text w"
proof -
  obtain j m where i: "SessionsManager_init J j = Inr m" and m: "manager (srv w) = Some m"
    and l: "length (nouns m) < 2 ^ 64" "length (adjectives m) < 2 ^ 64" "\<forall>code \<in> session_codes m. text code"
    and ph: "json_laws J text" "\<forall>i. phase_of w i = Unused" using assms by (auto simp: initial_def)
  obtain ns adjs where w: "extractWords J j ''nouns'' = Inr ns" "extractWords J j ''adjectives'' = Inr adjs"
    and meq: "m = \<lparr>nouns = ns, adjectives = adjs, senders_sessions = []\<rparr>"
    using i by (auto simp: SessionsManager_init_def sum_bind_Inr_iff)
  then have "words_usable ns" "words_usable adjs"
    using l extractWords_usable [OF w(1)] extractWords_usable [OF w(2)]
    by (auto simp: words_usable_def)
  then have "manager_ok m" using meq by (simp add: manager_ok_def)
  moreover have "sessions m = Map.empty" using meq by (simp add: sessions_def)
  ultimately show ?thesis using m l ph by (auto simp: world_ok_def server_ok_def waits_def)
qed

lemma waits_table_step:
  assumes "table_step i m m'" and "waits m' j"
  shows "waits m j \<or> j = i"
proof -
  obtain c t where t: "sessions m' c = Some t" "client_session t = j"
    using assms(2) by (auto simp: waits_def)
  then have "sessions m c = Some t \<or> j = i"
    using assms(1) by (auto simp: table_step_def split: if_splits)
  with t show ?thesis unfolding waits_def by blast
qed

definition one_code :: "'j sessions_manager \<Rightarrow> bool" where
  "one_code m \<longleftrightarrow> (\<forall>c1 c2 t1 t2. sessions m c1 = Some t1 \<and> sessions m c2 = Some t2 \<and>
     client_session t1 = client_session t2 \<longrightarrow> c1 = c2)"

lemma one_code_step:
  assumes "table_step i m m'" and "one_code m" and "\<not> waits m i"
  shows "one_code m'"
  using assms by (fastforce simp: table_step_def waits_def one_code_def split: if_splits)

lemma one_code_sub:
  assumes "one_code m" and "\<And>c t. sessions m' c = Some t \<Longrightarrow> sessions m c = Some t"
  shows "one_code m'"
  using assms unfolding one_code_def by blast

lemma world_ok_code: "world_ok J text w \<longleftrightarrow> json_laws J text \<and> server_ok J text (srv w) \<and>
     (\<exists>m. manager (srv w) = Some m \<and> (\<forall>i. waits m i \<longleftrightarrow> phase_of w i = Waiting) \<and> one_code m)"
  by (simp add: world_ok_def one_code_def)

lemma settle_waiting:
  assumes "manager_ok m" and "\<And>i. waits m i \<Longrightarrow> i \<in> served \<or> ph i = Waiting"
  shows "settle (Some m) served ph i = Waiting \<longleftrightarrow> waits m i"
  using assms(2) [of i] by (auto simp: settle_def holds_session_waits [OF assms(1)])

lemma settle_rank: "(\<And>i. i \<in> served \<Longrightarrow> ph i \<le> Waiting) \<Longrightarrow> ph i \<le> settle mo served ph i"
  by (auto simp: settle_def)

text \<open>What serving a first read does to the state.\<close>

lemma first_read_frame:
  assumes "manager s = Some m" and "manager_ok m" and "first_read J ds now i s = Some (r, s')"
  shows "\<exists>m'. manager s' = Some m' \<and> manager_ok m' \<and> table_step i m m' \<and>
    (\<forall>j. j \<noteq> i \<and> \<not> waits m j \<longrightarrow> conn s' j = conn s j)"
  using assms(3)
proof (cases rule: first_read_cases)
  case (dropped s1)
  then show ?thesis using assms(1,2) on_any_manager [OF dropped(1)] by (auto simp: table_step_def)
next
  case (message content s1)
  have k: "manager s1 = Some m" "\<forall>j. j \<noteq> i \<longrightarrow> conn s1 j = conn s j"
    using assms(1) on_any_manager [OF message(1)] by auto
  show ?thesis using handleFirstRead_frame [OF k(1) assms(2) message(2)] k(2) by auto
qed

lemma first_read_safe:
  assumes "json_laws J text" and "server_ok J text s" and "first_read J ds now i s = Some (r, s')"
  shows "server_ok J text s' \<and> (r = Inr () \<or> empty_file_waiting J s)"
  using assms(3)
proof (cases rule: first_read_cases)
  case (dropped s1)
  then have "server_ok J text s'" using assms(2) on_any_manager [OF dropped(1)] by (simp add: server_ok_def)
  then show ?thesis using dropped by simp
next
  case (message content s1)
  have m: "manager s1 = manager s" using on_any_manager [OF message(1)] by simp
  then have "server_ok J text s1" using assms(2) by (simp add: server_ok_def)
  from handleFirstRead_outcome [OF assms(1) this message(2)] m show ?thesis
    by (auto simp: empty_file_waiting_def)
qed

lemma serve_world:
  assumes "world_ok J text w" and "phase_of w i = Reading" and "serveFirstRead J ds now i w = Some w'"
  shows "world_ok J text w'" and "\<And>j. phase_of w j \<le> phase_of w' j"
    and "\<And>j. phase_of w j = Finished \<Longrightarrow> conn (srv w') j = conn (srv w) j"
    and "down w' \<Longrightarrow> empty_file_waiting J (srv w)"
    and "phase_of w' i = Waiting \<or> phase_of w' i = Finished"
proof -
  obtain m where laws: "json_laws J text" and sok: "server_ok J text (srv w)" and m: "manager (srv w) = Some m"
    and wt: "\<And>j. waits m j \<longleftrightarrow> phase_of w j = Waiting" and oc: "one_code m"
    using assms(1) by (auto simp: world_ok_code)
  then have mok: "manager_ok m" by (simp add: server_ok_def)
  obtain r s' where fr: "first_read J ds now i (srv w) = Some (r, s')"
    and w': "w' = w\<lparr>srv := s', phase_of := settle (manager s') {i} (phase_of w),
                  down := (case r of Inl e \<Rightarrow> True | Inr _ \<Rightarrow> False)\<rparr>"
    using assms(3) by (auto simp: serveFirstRead_def split: option.splits)
  obtain m' where m': "manager s' = Some m'" "manager_ok m'" "table_step i m m'"
    and cf: "\<forall>j. j \<noteq> i \<and> \<not> waits m j \<longrightarrow> conn s' j = conn (srv w) j"
    using first_read_frame [OF m mok fr] by blast
  note safe = first_read_safe [OF laws sok fr]
  have ni: "\<not> waits m i" using wt [of i] assms(2) by simp
  have sub: "waits m' j \<Longrightarrow> j \<in> {i} \<or> phase_of w j = Waiting" for j
    using waits_table_step [OF m'(3)] wt by auto
  have "one_code m'" by (rule one_code_step [OF m'(3) oc ni])
  with settle_waiting [OF m'(2) sub] laws safe m'(1) show "world_ok J text w'"
    by (simp add: w' world_ok_code)
  show "phase_of w j \<le> phase_of w' j" for j
    using settle_rank [of "{i}" "phase_of w" j] assms(2) by (simp add: w' less_eq_phase_def)
  show "conn (srv w') j = conn (srv w) j" if "phase_of w j = Finished" for j
  proof -
    have "j \<noteq> i" "\<not> waits m j" using that assms(2) wt [of j] by auto
    then show ?thesis using cf by (simp add: w')
  qed
  show "empty_file_waiting J (srv w)" if "down w'"
    using that safe by (auto simp: w' split: sum.splits)
  show "phase_of w' i = Waiting \<or> phase_of w' i = Finished" by (simp add: w' settle_def)
qed

lemma sweep_world:
  assumes "world_ok J text w"
  shows "world_ok J text (sweepSessions T clock w)" and "phase_of w j \<le> phase_of (sweepSessions T clock w) j"
proof -
  obtain m where laws: "json_laws J text" and sok: "server_ok J text (srv w)" and m: "manager (srv w) = Some m"
    and wt: "\<And>j. waits m j \<longleftrightarrow> phase_of w j = Waiting" and oc: "one_code m"
    using assms by (auto simp: world_ok_code)
  let ?m = "terminateTimeoutClients T clock m"
  have mok: "manager_ok m" using sok m by (simp add: server_ok_def)
  have mok': "manager_ok ?m" by (rule terminate_manager_ok [OF mok])
  have sub: "sessions ?m c = Some t \<Longrightarrow> sessions m c = Some t" for c t
    using sweep_subset [of T clock 0 "senders_sessions m"]
    by (auto simp: sessions_entry mok mok') (simp add: terminateTimeoutClients_def subset_iff)
  have "session_codes ?m = session_codes m" by (simp add: session_codes_def terminateTimeoutClients_def)
  then have "server_ok J text ((srv w)\<lparr>manager := Some ?m\<rparr>)"
    using sok m mok' by (auto simp: server_ok_def dest: sub)
  moreover have "waits ?m j \<Longrightarrow> j \<in> {} \<or> phase_of w j = Waiting" for j
    using sub wt [of j] unfolding waits_def by blast
  note settle_waiting [OF mok', of "{}" "phase_of w", OF this]
  moreover have "one_code ?m" by (rule one_code_sub [OF oc]) (rule sub)
  ultimately show "world_ok J text (sweepSessions T clock w)"
    using laws m by (simp add: world_ok_code sweepSessions_def Let_def)
  show "phase_of w j \<le> phase_of (sweepSessions T clock w) j"
    using settle_rank [of "{}"] by (simp add: sweepSessions_def Let_def)
qed

section \<open>Runs of the server\<close>

lemma accept_world:
  assumes "world_ok J text w" and "phase_of w i = Unused"
  shows "world_ok J text (acceptNewConnection failed handshake i k w)"
    and "phase_of w j \<le> phase_of (acceptNewConnection failed handshake i k w) j"
proof -
  let ?p = "case handshake of Inl e \<Rightarrow> Finished | Inr _ \<Rightarrow> Reading"
  have "?p \<noteq> Waiting" by (cases handshake) auto
  then show "world_ok J text (acceptNewConnection failed handshake i k w)"
    using assms by (auto simp: world_ok_code acceptNewConnection_def server_ok_def)
  show "phase_of w j \<le> phase_of (acceptNewConnection failed handshake i k w) j"
    using assms(2) by (simp add: acceptNewConnection_def)
qed

interpretation sessions_run: ranked_system "initial J text" "server_step J T" "world_ok J text"
    phase_of Finished "\<lambda>w. conn (srv w)"
proof unfold_locales
  fix w :: "'a world" assume "initial J text w"
  then show "world_ok J text w" by (rule initial_world_ok)
next
  fix w w' :: "'a world"
  assume i: "world_ok J text w" and "server_step J T w w'"
  then show "world_ok J text w'"
    by (elim server_stepE) (simp_all add: accept_world(1) sweep_world(1) serve_world(1))
next
  fix w w' :: "'a world" and i
  assume i: "world_ok J text w" and "server_step J T w w'"
  then show "phase_of w i \<le> phase_of w' i"
    by (elim server_stepE) (simp_all add: accept_world(2) sweep_world(2) serve_world(2))
next
  fix r :: phase show "r \<le> Finished" by simp
next
  fix w w' :: "'a world" and i
  assume "world_ok J text w" and "server_step J T w w'" and "phase_of w i = Finished"
  then show "conn (srv w') i = conn (srv w) i"
    by (elim server_stepE)
      (auto simp: serve_world(3), auto simp: acceptNewConnection_def sweepSessions_def Let_def)
qed

text \<open>
  C15. In every state the server can reach, the table and the sessions agree: the sessions that wait
  are exactly those with an entry, each under one code, and every entry holds the parsed send
  request its sender sent.
\<close>

theorem server_invariant:
  assumes "initial J text w0" and "(server_step J T)\<^sup>*\<^sup>* w0 w"
  shows "\<exists>m. manager (srv w) = Some m \<and> manager_ok m \<and>
    (\<forall>i. phase_of w i = Waiting \<longleftrightarrow> (\<exists>!code. \<exists>t. sessions m code = Some t \<and> client_session t = i)) \<and>
    (\<forall>code t. sessions m code = Some t \<longrightarrow> stored_ok J (session_data t))"
proof -
  have "world_ok J text w" using sessions_run.reachable_inv [OF assms] .
  then obtain m where m: "manager (srv w) = Some m" "server_ok J text (srv w)" "one_code m"
    and wt: "\<And>i. phase_of w i = Waiting \<longleftrightarrow> waits m i"
    by (auto simp: world_ok_code)
  have "waits m i \<longleftrightarrow> (\<exists>!code. \<exists>t. sessions m code = Some t \<and> client_session t = i)" for i
    using m(3) unfolding waits_def one_code_def by blast
  with m wt show ?thesis by (auto simp: server_ok_def)
qed

text \<open>The sessions an event finishes: no entry holds them after it.\<close>

lemma finished_spent:
  assumes "world_ok J text w1" and "(server_step J T)\<^sup>*\<^sup>* w1 w'" and "phase_of w1 j = Finished"
  shows "conn (srv w') j = conn (srv w1) j \<and> \<not> holds_session (manager (srv w')) j"
proof -
  have f: "phase_of w' j = Finished" "conn (srv w') j = conn (srv w1) j"
    using sessions_run.run_top_fixed [OF assms(2,1,3)] by simp_all
  have "world_ok J text w'" using sessions_run.run_inv [OF assms(2,1)] .
  then obtain m where "manager (srv w') = Some m" "manager_ok m" "waits m j \<longleftrightarrow> phase_of w' j = Waiting"
    by (auto simp: world_ok_code server_ok_def)
  then show ?thesis using f by (simp add: holds_session_waits)
qed

lemma serve_finishes:
  assumes "world_ok J text w" and "phase_of w i = Reading" and "serveFirstRead J ds now i w = Some w1" and "manager (srv w) = Some m"
  shows "request_on J (conn (srv w) i) = Ask code \<Longrightarrow> sessions m code = Some t \<Longrightarrow>
      phase_of w1 i = Finished \<and> phase_of w1 (client_session t) = Finished"
    and "request_on J (conn (srv w) i) = No_request \<or> (\<exists>code. request_on J (conn (srv w) i) = Ask code \<and> sessions m code = None) \<Longrightarrow>
      phase_of w1 i = Finished"
proof -
  have mok: "manager_ok m" "one_code m" and wt: "\<And>j. waits m j \<longleftrightarrow> phase_of w j = Waiting"
    using assms(1,4) by (auto simp: world_ok_code server_ok_def)
  obtain r s' where fr: "first_read J ds now i (srv w) = Some (r, s')"
    and w1: "phase_of w1 = settle (manager s') {i} (phase_of w)"
    using assms(3) by (auto simp: serveFirstRead_def split: option.splits)
  obtain m' where m': "manager s' = Some m'" "manager_ok m'" "answered (request_on J (conn (srv w) i)) i now m m'"
    using first_read_frame [OF assms(4) mok(1) fr] first_read_answers [OF assms(4) mok(1) fr] by auto
  have ph: "phase_of w1 j = (if j = i \<or> waits m j then if waits m' j then Waiting else Finished else phase_of w j)" for j
    using wt [of j] by (simp add: w1 settle_def m'(1) holds_session_waits [OF m'(2)])
  have ni: "\<not> waits m i" using wt [of i] assms(2) by simp
  show "phase_of w1 i = Finished \<and> phase_of w1 (client_session t) = Finished"
    if "request_on J (conn (srv w) i) = Ask code" "sessions m code = Some t"
  proof -
    have up: "sessions m' = (sessions m)(code := None)" using m'(3) that(1) by (simp add: answered_def)
    have "\<not> waits m' i" using ni up by (auto simp: waits_def split: if_splits)
    moreover have "\<not> waits m' (client_session t)"
      using mok(2) up that(2) by (auto simp: waits_def one_code_def split: if_splits)
    moreover have "waits m (client_session t)" using that(2) by (auto simp: waits_def)
    ultimately show ?thesis by (simp add: ph)
  qed
  show "phase_of w1 i = Finished"
    if "request_on J (conn (srv w) i) = No_request \<or> (\<exists>code. request_on J (conn (srv w) i) = Ask code \<and> sessions m code = None)"
  proof -
    have "sessions m' = sessions m" using m'(3) that by (auto simp: answered_def fun_eq_iff)
    then have "\<not> waits m' i" using ni by (simp add: waits_def)
    then show ?thesis by (simp add: ph)
  qed
qed

lemma sweep_finishes:
  assumes "world_ok J text w" and "manager (srv w) = Some m" and "sessions m code = Some t"
    and "sessions (terminateTimeoutClients T clock m) code = None"
  shows "phase_of (sweepSessions T clock w) (client_session t) = Finished"
proof -
  let ?m = "terminateTimeoutClients T clock m"
  have m: "manager_ok m" "one_code m" and wt: "\<And>j. waits m j \<longleftrightarrow> phase_of w j = Waiting"
    using assms(1,2) by (auto simp: world_ok_code server_ok_def)
  have mok': "manager_ok ?m" by (rule terminate_manager_ok [OF m(1)])
  have sub: "sessions ?m c = Some u \<Longrightarrow> sessions m c = Some u" for c u
    using sweep_subset [of T clock 0 "senders_sessions m"]
    by (auto simp: sessions_entry m(1) mok') (simp add: terminateTimeoutClients_def subset_iff)
  have "\<not> waits ?m (client_session t)"
  proof
    assume "waits ?m (client_session t)"
    then obtain c u where u: "sessions ?m c = Some u" "client_session u = client_session t" by (auto simp: waits_def)
    then have "c = code" using m(2) sub [OF u(1)] assms(3) unfolding one_code_def by blast
    then show False using u(1) assms(4) by simp
  qed
  moreover have "phase_of w (client_session t) = Waiting" using wt assms(3) by (auto simp: waits_def)
  ultimately show ?thesis
    by (simp add: sweepSessions_def Let_def settle_def assms(2) holds_session_waits [OF mok'])
qed

text \<open>
  C16. What is finished is never touched again.  When a party has asked for the code of a waiting
  sender, nothing is ever again read from or written to either of the two connections, and no entry
  leads to either session, in all that the server does afterwards; the same holds for a party that has
  been refused, and for a sender whose entry a sweep has removed.  No session returns to an earlier
  phase of its life.
\<close>

theorem finished_session_untouched:
  assumes "initial J text w0" and "(server_step J T)\<^sup>*\<^sup>* w0 w" and "manager (srv w) = Some m"
    and "(server_step J T)\<^sup>*\<^sup>* w1 w'"
  shows "(phase_of w i = Reading \<and> serveFirstRead J ds now i w = Some w1 \<and>
      request_on J (conn (srv w) i) = Ask code \<and> sessions m code = Some t \<longrightarrow>
      (\<forall>j \<in> {i, client_session t}. conn (srv w') j = conn (srv w1) j \<and> \<not> holds_session (manager (srv w')) j)) \<and>
    (phase_of w i = Reading \<and> serveFirstRead J ds now i w = Some w1 \<and>
      (request_on J (conn (srv w) i) = No_request \<or> (request_on J (conn (srv w) i) = Ask code \<and> sessions m code = None)) \<longrightarrow>
      conn (srv w') i = conn (srv w1) i \<and> \<not> holds_session (manager (srv w')) i) \<and>
    (w1 = sweepSessions T clock w \<and> sessions m code = Some t \<and> sessions (terminateTimeoutClients T clock m) code = None \<longrightarrow>
      conn (srv w') (client_session t) = conn (srv w1) (client_session t) \<and>
      \<not> holds_session (manager (srv w')) (client_session t)) \<and>
    (server_step J T w w1 \<longrightarrow> phase_of w i \<le> phase_of w' i)"
proof -
  have ok: "world_ok J text w" using sessions_run.reachable_inv [OF assms(1,2)] .
  have spent: "conn (srv w') j = conn (srv w1) j \<and> \<not> holds_session (manager (srv w')) j"
    if "world_ok J text w1" "phase_of w1 j = Finished" for j
    using finished_spent [OF that(1) assms(4) that(2)] .
  have sv: "world_ok J text w1" if "phase_of w i = Reading" "serveFirstRead J ds now i w = Some w1"
    using serve_world(1) [OF ok that] .
  show ?thesis
  proof (intro conjI impI, goal_cases)
    case 1
    then have "phase_of w1 i = Finished \<and> phase_of w1 (client_session t) = Finished" "world_ok J text w1"
      using serve_finishes(1) [OF ok _ _ assms(3)] sv by blast+
    then show ?case using spent by simp
  next
    case 2
    then have "phase_of w1 i = Finished" "world_ok J text w1" using serve_finishes(2) [OF ok _ _ assms(3)] sv by blast+
    then show ?case using spent by simp
  next
    case 3
    then have "phase_of w1 i = Finished" "world_ok J text w1" using serve_finishes(2) [OF ok _ _ assms(3)] sv by blast+
    then show ?case using spent by simp
  next
    case 4
    then have "phase_of w1 (client_session t) = Finished" "world_ok J text w1"
      using sweep_finishes [OF ok assms(3)] sweep_world(1) [OF ok] by blast+
    then show ?case using spent by simp
  next
    case 5
    then have "phase_of w1 (client_session t) = Finished" "world_ok J text w1"
      using sweep_finishes [OF ok assms(3)] sweep_world(1) [OF ok] by blast+
    then show ?case using spent by simp
  next
    case 6
    then show ?case using sessions_run.run_rank [OF converse_rtranclp_into_rtranclp [OF 6 assms(4)] ok] by simp
  qed
qed

text \<open>
  C17. The server stays up and serves: from every reachable state, a step takes it down only when some
  waiting sender has declared an empty file; and while fewer senders wait than there are codes, the
  first message of any session being read can be served, after which the session waits or is
  finished.
\<close>

theorem server_serves:
  assumes "initial J text w0" and "(server_step J T)\<^sup>*\<^sup>* w0 w"
  shows "(server_step J T w w' \<and> down w' \<longrightarrow> empty_file_waiting J (srv w)) \<and>
    (manager (srv w) = Some m \<and> currentSessions m < card (session_codes m) \<and>
       phase_of w i = Reading \<and> \<not> down w \<longrightarrow>
     (\<exists>ds w2. serveFirstRead J ds now i w = Some w2 \<and> server_step J T w w2 \<and>
        (phase_of w2 i = Waiting \<or> phase_of w2 i = Finished)))"
proof (intro conjI impI)
  have ok: "world_ok J text w" using sessions_run.reachable_inv [OF assms] .
  show "empty_file_waiting J (srv w)" if "server_step J T w w' \<and> down w'"
    using that by (elim conjE server_stepE)
      (auto simp: acceptNewConnection_def sweepSessions_def Let_def dest: serve_world(4) [OF ok] split: if_splits)
  assume A: "manager (srv w) = Some m \<and> currentSessions m < card (session_codes m) \<and>
       phase_of w i = Reading \<and> \<not> down w"
  then have "manager_ok m" using ok by (auto simp: world_ok_def server_ok_def)
  then obtain d where d: "\<And>json. registerSender [d] now i json m \<noteq> None"
    using registerSender_some_draw A by (metis list.set_intros(1))
  have "first_read J [d] now i (srv w) \<noteq> None"
    using A d by (rule_tac first_read_returns) auto
  then obtain w2 where w2: "serveFirstRead J [d] now i w = Some w2"
    by (auto simp: serveFirstRead_def)
  moreover from this have "server_step J T w w2" using A by (auto intro: server_step.serve)
  ultimately show "\<exists>ds w2. serveFirstRead J ds now i w = Some w2 \<and> server_step J T w w2 \<and>
        (phase_of w2 i = Waiting \<or> phase_of w2 i = Finished)"
    using serve_world(5) [OF ok] A by blast
qed

section \<open>A small server\<close>

definition empty_manager :: "flat sessions_manager" where
  "empty_manager = \<lparr>nouns = [''map'', ''art''], adjectives = [''able''], senders_sessions = []\<rparr>"

definition sample_world :: "flat world" where
  "sample_world = \<lparr>srv = \<lparr>conn = (\<lambda>i. sample_socket []), manager = Some empty_manager\<rparr>,
     phase_of = (\<lambda>i. Unused), down = False\<rparr>"

lemma sample_world_initial: "initial flat_json (\<lambda>_. True) sample_world"
proof -
  have "SessionsManager_init flat_json sample_words = Inr empty_manager"
    by (simp add: SessionsManager_init_def extractWords_def sample_words_def is_space_def empty_manager_def)
  then show ?thesis using flat_json_laws
    by (auto simp: initial_def sample_world_def) (auto simp: empty_manager_def)
qed

lemma empty_manager_free: "currentSessions empty_manager < card (session_codes empty_manager)"
proof -
  have "''able'' @ ''-'' @ ''map'' @ ''-'' @ show_nat 7 \<in> session_codes empty_manager"
    unfolding session_codes_def empty_manager_def by fastforce
  then have "0 < card (session_codes empty_manager)"
    using finite_session_codes [of empty_manager] by (auto simp: card_gt_0_iff)
  then show ?thesis by (simp add: currentSessions_def empty_manager_def)
qed

text \<open>A sender connects; its first message is on the way.\<close>

definition sample_accepted :: "flat world" where
  "sample_accepted = acceptNewConnection False (Inr ()) 0
     (sample_socket (frame (put_flat (sample_meta 4)))) sample_world"

lemma sample_accepted_run: "(server_step flat_json 120)\<^sup>*\<^sup>* sample_world sample_accepted"
  unfolding sample_accepted_def
  by (intro r_into_rtranclp server_step.accept) (simp_all add: sample_world_def)

lemma sample_accepted_sel:
  "manager (srv sample_accepted) = Some empty_manager"
  "phase_of sample_accepted 0 = Reading" "\<not> down sample_accepted"
  by (simp_all add: sample_accepted_def acceptNewConnection_def sample_world_def)

theorem server_serves_witness:
  "\<exists>ds w2. serveFirstRead flat_json ds 7 0 sample_accepted = Some w2 \<and>
     (phase_of w2 0 = Waiting \<or> phase_of w2 0 = Finished)"
  using server_serves [OF sample_world_initial sample_accepted_run, of sample_accepted empty_manager 0 7]
    sample_accepted_sel empty_manager_free by blast

end
