(* ===== verification/Causality.thy ===== *)
theory Causality
  imports App Server "HOL-Library.Sublist"
begin

text \<open>
  The sockets of the model hold all bytes that will come, and the programs run on them as functions.
  This theory shows that the programs do not look ahead: a run with fewer bytes to read writes the
  beginning of what a run with more bytes writes, it stops only where a byte is missing, and once it
  has what it needs later bytes change nothing.  So a read that finds the end of its bytes is a read
  that waits, and what a program has written until then is what its peers can have received.
\<close>

named_theorems causal_rules \<open>programs that do not look ahead\<close>

section \<open>Programs that do not look ahead\<close>

definition end_of_file :: error where
  "end_of_file = System_error ''End of file''"

text \<open>
  \<open>later d s\<close> is \<open>s\<close> with the further input \<open>d\<close>, and \<open>out s k\<close> is what has been written to \<open>k\<close>.  A program
  only appends to what has been written; and with more input it either does the same, leaving the
  additional input unread, or it had run out of input and goes on writing.
\<close>

definition grows :: "('s \<Rightarrow> 'k \<Rightarrow> bytes) \<Rightarrow> ('s, 'a) prog \<Rightarrow> bool" where
  "grows out m \<longleftrightarrow> (\<forall>s k. prefix (out s k) (out (snd (m s)) k))"

definition continues :: "('d \<Rightarrow> 's \<Rightarrow> 's) \<Rightarrow> ('s \<Rightarrow> 'k \<Rightarrow> bytes) \<Rightarrow> ('s, 'a) prog \<Rightarrow> 's \<Rightarrow> bool" where
  "continues later out m s \<longleftrightarrow>
     (\<forall>d. if fst (m s) = Inl end_of_file then \<forall>k. prefix (out (snd (m s)) k) (out (snd (m (later d s))) k)
          else m (later d s) = (fst (m s), later d (snd (m s))))"

definition causal :: "('d \<Rightarrow> 's \<Rightarrow> 's) \<Rightarrow> ('s \<Rightarrow> 'k \<Rightarrow> bytes) \<Rightarrow> ('s, 'a) prog \<Rightarrow> bool" where
  "causal later out m \<longleftrightarrow> grows out m \<and> (\<forall>s. continues later out m s)"

lemma causal_grows: "causal later out m \<Longrightarrow> grows out m"
  by (simp add: causal_def)

lemma causal_growsD: "causal later out m \<Longrightarrow> prefix (out s k) (out (snd (m s)) k)"
  by (simp add: causal_def grows_def)

lemma causal_continues: "causal later out m \<Longrightarrow> continues later out m s"
  by (simp add: causal_def)

lemma grows_andthen: "grows out m \<Longrightarrow> (\<And>x. grows out (f x)) \<Longrightarrow> grows out (andthen m f)"
  unfolding grows_def by (auto simp: andthen_def split: prod.splits sum.splits) (metis prefix_order.order_trans snd_conv)+

lemma grows_at:
  assumes "prefix (out s k) (out (snd (m s)) k)"
    and "\<And>x s'. m s = (Inr x, s') \<Longrightarrow> prefix (out s' k) (out (snd (f x s')) k)"
  shows "prefix (out s k) (out (snd (andthen m f s)) k)"
  using assms by (cases "m s"; cases "fst (m s)") (auto simp: andthen_def intro: prefix_order.order_trans)

lemma continuesD:
  assumes "continues later out m s" and "m s = (r, s')" and "r \<noteq> Inl end_of_file"
  shows "m (later d s) = (r, later d s')"
  using assms by (simp add: continues_def)

lemma continues_endD:
  assumes "continues later out m s" and "m s = (Inl end_of_file, s')"
  shows "prefix (out s' k) (out (snd (m (later d s))) k)"
  using assms by (simp add: continues_def)

lemma continues_andthen:
  assumes m: "continues later out m s" and f: "\<And>x s'. m s = (Inr x, s') \<Longrightarrow> continues later out (f x) s'"
    and g: "\<And>x. grows out (f x)"
  shows "continues later out (andthen m f) s"
proof -
  obtain r s' where r: "m s = (r, s')" by fastforce
  consider (ended) "r = Inl end_of_file" | (error) e where "r = Inl e" "e \<noteq> end_of_file" | (ok) x where "r = Inr x"
    by (cases r) auto
  then show ?thesis
  proof cases
    case ended
    have "prefix (out s' k) (out (snd (andthen m f (later d s))) k)" for d k
    proof -
      obtain r2 s2 where r2: "m (later d s) = (r2, s2)" by fastforce
      then have "prefix (out s' k) (out s2 k)" using continues_endD [OF m, of s' k d] r ended by simp
      moreover have "prefix (out s2 k) (out (snd (f x s2)) k)" for x using g by (simp add: grows_def)
      ultimately show ?thesis using r2
        by (cases r2) (auto simp: andthen_def intro: prefix_order.order_trans)
    qed
    then show ?thesis using r ended by (simp add: continues_def andthen_def)
  next
    case error
    then have "m (later d s) = (Inl e, later d s')" for d using continuesD [OF m r] by simp
    then show ?thesis using r error by (simp add: continues_def andthen_def)
  next
    case ok
    then have "m (later d s) = (Inr x, later d s')" for d using continuesD [OF m r] by simp
    then show ?thesis using f [of x s'] r ok by (simp add: continues_def andthen_def)
  qed
qed

lemma causal_andthen [causal_rules]:
  "causal later out m \<Longrightarrow> (\<And>x. causal later out (f x)) \<Longrightarrow> causal later out (andthen m f)"
  by (simp add: causal_def grows_andthen continues_andthen)

definition reads_nothing :: "('s, 'a) prog \<Rightarrow> bool" where
  "reads_nothing m \<longleftrightarrow> (\<forall>s. fst (m s) \<noteq> Inl end_of_file)"

lemma reads_nothing_andthen: "reads_nothing m \<Longrightarrow> (\<And>x. reads_nothing (f x)) \<Longrightarrow> reads_nothing (andthen m f)"
  by (auto simp: reads_nothing_def andthen_def split: prod.splits sum.splits) (metis fst_conv)+

lemma reads_nothing_ret: "reads_nothing (ret x)"
  by (simp add: reads_nothing_def)

text \<open>What does not depend on the input at all.\<close>

definition unread_by :: "('d \<Rightarrow> 's \<Rightarrow> 's) \<Rightarrow> ('s, 'a) prog \<Rightarrow> bool" where
  "unread_by later m \<longleftrightarrow> (\<forall>s d. m (later d s) = (fst (m s), later d (snd (m s))))"

lemma try_catch_causal:
  assumes "causal later out m" and "reads_nothing m" and "\<And>e. causal later out (h e)"
  shows "causal later out (try_catch m h)"
proof -
  have "prefix (out s k) (out (snd (try_catch m h s)) k)" for s k
    using assms(1,3) unfolding causal_def grows_def try_catch_def
    by (auto split: prod.splits sum.splits) (metis prefix_order.order_trans snd_conv)+
  moreover have "continues later out (try_catch m h) s" for s
  proof -
    obtain r s' where r: "m s = (r, s')" by fastforce
    then have "m (later d s) = (r, later d s')" for d
      using assms(1,2) continuesD [of later out m s r s'] by (metis causal_def reads_nothing_def fst_conv)
    then show ?thesis using r assms(3) by (cases r) (auto simp: continues_def try_catch_def causal_def)
  qed
  ultimately show ?thesis by (simp add: causal_def grows_def)
qed

locale arrivals =
  fixes later :: "'d \<Rightarrow> 's \<Rightarrow> 's" and out :: "'s \<Rightarrow> 'k \<Rightarrow> bytes"
  assumes out_later: "out (later d s) = out s"
begin

lemma unread_causal: "unread_by later m \<Longrightarrow> grows out m \<Longrightarrow> causal later out m"
  by (auto simp: causal_def continues_def unread_by_def out_later)

lemma ret_causal: "causal later out (ret x)"
  by (auto intro!: unread_causal simp: unread_by_def grows_def)

lemma throw_causal: "causal later out (throw e)"
  by (auto intro!: unread_causal simp: unread_by_def grows_def)

lemma of_sum_causal: "causal later out (of_sum r)"
  by (auto intro!: unread_causal simp: unread_by_def grows_def)

lemma of_option_causal: "causal later out (of_option e v)"
  by (cases v) (auto intro!: unread_causal simp: unread_by_def grows_def)

lemmas leaf_causal = ret_causal throw_causal of_sum_causal of_option_causal

text \<open>A loop that takes a message in each turn; the \<open>\<mu>\<close> of the state falls with every turn.\<close>

lemma loop_grows:
  assumes unfold: "\<And>x. loop x = (if go x then andthen next_message (\<lambda>d. andthen (emit x d) (\<lambda>_. loop (adv x d))) else ret v)"
    and "grows out next_message" and "\<And>x d. grows out (emit x d)"
    and less: "\<And>x s d s1 u s2. next_message s = (Inr d, s1) \<Longrightarrow> emit x d s1 = (Inr u, s2) \<Longrightarrow> \<mu> s2 < (\<mu> s :: nat)"
  shows "prefix (out s k) (out (snd (loop x s)) k)"
proof (induction "\<mu> s" arbitrary: s x rule: less_induct)
  case less
  have "prefix (out s1 k) (out (snd (andthen (emit x d) (\<lambda>_. loop (adv x d)) s1)) k)"
    if "next_message s = (Inr d, s1)" for d s1
    using assms(3) less [OF assms(4) [OF that]]
    by (intro grows_at) (simp_all add: grows_def)
  then have "prefix (out s k) (out (snd (andthen next_message (\<lambda>d. andthen (emit x d) (\<lambda>_. loop (adv x d))) s)) k)"
    using assms(2) by (rule_tac grows_at) (simp_all add: grows_def)
  then show ?case by (subst unfold) simp
qed

lemma loop_causal:
  assumes unfold: "\<And>x. loop x = (if go x then andthen next_message (\<lambda>d. andthen (emit x d) (\<lambda>_. loop (adv x d))) else ret v)"
    and nm: "causal later out next_message" and em: "\<And>x d. causal later out (emit x d)"
    and less: "\<And>x s d s1 u s2. next_message s = (Inr d, s1) \<Longrightarrow> emit x d s1 = (Inr u, s2) \<Longrightarrow> \<mu> s2 < (\<mu> s :: nat)"
  shows "causal later out (loop x)"
proof -
  have g: "grows out (loop x)" for x
    using loop_grows [OF unfold causal_grows [OF nm] causal_grows [OF em] less] by (simp add: grows_def)
  have "continues later out (loop x) s" for x s
  proof (induction "\<mu> s" arbitrary: s x rule: less_induct)
    case less
    have "continues later out (andthen (emit x d) (\<lambda>_. loop (adv x d))) s1" if "next_message s = (Inr d, s1)" for d s1
      using less [OF assms(4) [OF that]] g by (intro continues_andthen causal_continues [OF em]) simp_all
    then have "continues later out (andthen next_message (\<lambda>d. andthen (emit x d) (\<lambda>_. loop (adv x d)))) s"
      using g causal_grows [OF em] by (rule_tac continues_andthen [OF causal_continues [OF nm]]) (auto intro: grows_andthen)
    then show ?case by (subst unfold) (simp add: causal_continues [OF ret_causal])
  qed
  with g show ?thesis by (simp add: causal_def)
qed

end

section \<open>Sockets\<close>

definition socket_later :: "bytes \<Rightarrow> socket \<Rightarrow> socket" where
  "socket_later d s = s\<lparr>rx := rx s @ d\<rparr>"

definition socket_out :: "socket \<Rightarrow> unit \<Rightarrow> bytes" where
  "socket_out s k = tx s"

lemma socket_later_sel [simp]: "rx (socket_later d k) = rx k @ d" "tx (socket_later d k) = tx k"
  "data_buffer (socket_later d k) = data_buffer k" "tx_open (socket_later d k) = tx_open k" "tx_quota (socket_later d k) = tx_quota k"
  by (simp_all add: socket_later_def)

interpretation socket_input: arrivals socket_later socket_out
  by unfold_locales (simp add: socket_later_def socket_out_def fun_eq_iff)

lemma asio_write_causal: "causal socket_later socket_out (asio_write d)"
  by (rule socket_input.unread_causal)
    (auto simp: unread_by_def grows_def socket_later_def socket_out_def asio_write_def split: option.splits)

lemma asio_write_end: "reads_nothing (asio_write d)"
  by (simp add: reads_nothing_def asio_write_def end_of_file_def split: option.splits)

lemma asio_read_causal: "causal socket_later socket_out (asio_read n)"
  by (auto simp: causal_def grows_def continues_def socket_later_def socket_out_def asio_read_def end_of_file_def)

lemma asio_read_to_buffer_causal: "causal socket_later socket_out (asio_read_to_buffer n)"
  by (auto simp: causal_def grows_def continues_def socket_later_def socket_out_def asio_read_to_buffer_def
      end_of_file_def Let_def)

lemma shutdown_send_causal: "causal socket_later socket_out shutdown_send"
  by (rule socket_input.unread_causal)
    (auto simp: unread_by_def grows_def socket_later_def socket_out_def shutdown_send_def)

lemma shutdown_send_end: "reads_nothing shutdown_send"
  by (simp add: reads_nothing_def shutdown_send_def end_of_file_def)

lemmas socket_rules = socket_input.leaf_causal asio_write_causal asio_read_causal asio_read_to_buffer_causal
  shutdown_send_causal

lemma send_loop_andthen:
  "send_loop data n c =
     (if BUFFER_SIZE \<le> n
      then andthen (sendChunk (take (unat BUFFER_SIZE) (drop (unat c) data)))
             (\<lambda>_. send_loop data (n - BUFFER_SIZE) (c + BUFFER_SIZE))
      else if 0 < n then sendChunk (take (unat n) (drop (unat c) data)) else ret ())"
  by (rule ext) (subst send_loop.simps, auto simp: andthen_def split: prod.splits sum.splits)

lemma sendChunk_causal: "causal socket_later socket_out (sendChunk d)"
  unfolding sendChunk_frame by (rule asio_write_causal)

lemma sendChunk_end: "reads_nothing (sendChunk d)"
  unfolding sendChunk_frame by (rule asio_write_end)

lemma send_loop_causal:
  "causal socket_later socket_out (send_loop data n c) \<and> reads_nothing (send_loop data n c)"
proof (induction "unat n" arbitrary: n c rule: less_induct)
  case less
  show ?case
  proof (cases "BUFFER_SIZE \<le> n")
    case True
    then have "unat (n - BUFFER_SIZE) < unat n" by (auto simp: BUFFER_SIZE_def word_le_nat_alt unat_sub)
    from less [OF this] True show ?thesis
      by (simp add: send_loop_andthen [of data n c] causal_andthen sendChunk_causal reads_nothing_andthen sendChunk_end)
  next
    case False
    then show ?thesis
      by (simp add: send_loop_andthen [of data n c] sendChunk_causal sendChunk_end socket_rules reads_nothing_ret)
  qed
qed

lemma send_causal: "causal socket_later socket_out (send d)"
  by (simp add: send_def send_loop_causal)

lemma send_end: "reads_nothing (send d)"
  by (simp add: send_def send_loop_causal)

lemma disconnect_causal: "causal socket_later socket_out (disconnect m)"
  unfolding disconnect_def
  by (cases m) (auto intro!: causal_andthen send_causal socket_rules)

lemma disconnect_end: "reads_nothing (disconnect m)"
  unfolding disconnect_def
  by (cases m) (auto intro!: reads_nothing_andthen reads_nothing_ret send_end shutdown_send_end)

lemma safeDisconnect_causal: "causal socket_later socket_out (safeDisconnect m)"
  unfolding safeDisconnect_def by (intro try_catch_causal disconnect_causal disconnect_end socket_rules)

lemma getMessageLength_causal: "causal socket_later socket_out getMessageLength"
  unfolding getMessageLength_def Let_def
  by (auto intro!: causal_andthen safeDisconnect_causal socket_rules)

lemma receive_causal: "causal socket_later socket_out receive"
  unfolding receive_def by (intro causal_andthen getMessageLength_causal socket_rules)

lemma receiveToBuffer_causal: "causal socket_later socket_out receiveToBuffer"
proof -
  have "causal socket_later socket_out (\<lambda>s. (Inr (take n (data_buffer s)), s))" for n
    by (rule socket_input.unread_causal) (auto simp: unread_by_def grows_def socket_later_def)
  then show ?thesis
    unfolding receiveToBuffer_def by (intro causal_andthen getMessageLength_causal socket_rules)
qed

lemma receiveACK_causal: "causal socket_later socket_out receiveACK"
  unfolding receiveACK_def by (auto intro!: causal_andthen receiveToBuffer_causal socket_rules)

lemma sendACK_causal: "causal socket_later socket_out sendACK"
  unfolding sendACK_def by (rule send_causal)

lemma read_into_buffer_causal: "causal socket_later socket_out (read_into_buffer d)"
  by (rule socket_input.unread_causal) (auto simp: unread_by_def grows_def socket_later_def socket_out_def read_into_buffer_def)

lemmas socket_causal = send_causal safeDisconnect_causal receive_causal receiveToBuffer_causal receiveACK_causal
  sendACK_causal read_into_buffer_causal

section \<open>The clients\<close>

definition client_later :: "bytes \<Rightarrow> 'z client_scheme \<Rightarrow> 'z client_scheme" where
  "client_later d s = s\<lparr>sock := socket_later d (sock s)\<rparr>"

definition client_out :: "'z client_scheme \<Rightarrow> unit \<Rightarrow> bytes" where
  "client_out s k = tx (sock s)"

interpretation client_input: arrivals client_later client_out
  by unfold_locales (simp add: client_later_def client_out_def socket_later_def fun_eq_iff)

lemma client_later_sel [simp]:
  "sock (client_later d s) = socket_later d (sock s)" "machine (client_later d s) = machine s"
  "client_later d s\<lparr>sock := k\<rparr> = s\<lparr>sock := k\<rparr>" "client_later d (s\<lparr>machine := h\<rparr>) = (client_later d s)\<lparr>machine := h\<rparr>"
  by (simp_all add: client_later_def)

lemma on_sock_causal:
  assumes "causal socket_later socket_out p"
  shows "causal client_later client_out (on_sock p :: ('z client_scheme, 'b) prog)"
proof -
  have "continues client_later client_out (on_sock p :: ('z client_scheme, 'b) prog) s" for s
  proof -
    have c: "continues socket_later socket_out p (sock s)" using assms by (simp add: causal_def)
    obtain r k where r: "p (sock s) = (r, k)" by fastforce
    show ?thesis
    proof (cases "r = Inl end_of_file")
      case True
      then have "prefix (tx k) (tx (snd (p (socket_later d (sock s)))))" for d
        using c r by (simp add: continues_def socket_out_def)
      then show ?thesis using r True by (simp add: continues_def on_sock_def client_out_def case_prod_unfold)
    next
      case False
      then have "p (socket_later d (sock s)) = (r, socket_later d k)" for d using continuesD [OF c r] by simp
      then show ?thesis using r False by (simp add: continues_def on_sock_def client_later_def)
    qed
  qed
  moreover have "grows client_out (on_sock p :: ('z client_scheme, 'b) prog)"
    using assms by (simp add: causal_def grows_def on_sock_def client_out_def socket_out_def case_prod_unfold)
  ultimately show ?thesis by (simp add: causal_def)
qed

lemma ask_causal: "causal client_later client_out (ask f)"
  by (rule client_input.unread_causal) (auto simp: unread_by_def grows_def client_later_def)

lemmas client_rules = client_input.leaf_causal ask_causal socket_causal [THEN on_sock_causal]

lemma getReceiveCodeFromServer_causal: "causal client_later client_out (getReceiveCodeFromServer J)"
  unfolding getReceiveCodeFromServer_def
  by (intro causal_andthen client_rules) (auto split: sum.split intro: client_rules)

lemma announce_causal: "causal client_later client_out (announce E J p c)"
  unfolding announce_def by (intro causal_andthen client_rules getReceiveCodeFromServer_causal)

lemma send_file_loop_andthen:
  "send_file_loop avail fsize done_bytes f =
     (case readsome avail (unat BUFFER_SIZE) f of (got, f') \<Rightarrow>
        if got \<noteq> [] then
          andthen (andthen (on_sock (read_into_buffer got)) (\<lambda>_. on_sock (send got))) (\<lambda>_.
            if fsize = 0 then throw Division_trap
            else send_file_loop avail fsize (done_bytes + of_nat (length got)) f')
        else ret ())"
  by (rule ext, subst send_file_loop.simps)
    (auto simp: getBuffer_def andthen_def Let_def split: prod.splits sum.splits)

lemma send_file_loop_causal:
  "causal client_later client_out (send_file_loop avail fsize done_bytes f :: ('z client_scheme, unit) prog)"
proof (induction "length (unread f)" arbitrary: f done_bytes rule: less_induct)
  case less
  obtain got f' where r: "readsome avail 1048576 f = (got, f')" by fastforce
  have "causal client_later client_out (send_file_loop avail fsize t f' :: ('z client_scheme, unit) prog)" if "got \<noteq> []" for t
    using readsome_less [OF r that] by (rule less)
  then show ?case
    by (subst send_file_loop_andthen) (auto simp: r intro!: causal_andthen client_rules)
qed

lemma stream_file_causal: "causal client_later client_out (stream_file avail path)"
  unfolding stream_file_def by (intro causal_andthen client_rules send_file_loop_causal)

subsection \<open>Sending\<close>

lemma compressIfNecessary_later:
  "compressIfNecessary Z path (client_later d s) =
     map_option (\<lambda>(r, s'). (r, client_later d s')) (compressIfNecessary Z path s)"
  by (auto simp: compressIfNecessary_def Let_def split: option.split sum.split prod.split)

lemma sendFSEntryMetadata_later:
  assumes "sendFSEntryMetadata E Z J path (client_later d s) = Some (r', s2)"
  shows "\<exists>r s1. sendFSEntryMetadata E Z J path s = Some (r, s1) \<and>
    (if r = Inl end_of_file then prefix (tx (sock s1)) (tx (sock s2)) else r' = r \<and> s2 = client_later d s1)"
proof -
  obtain rc sc where c: "compressIfNecessary Z path s = Some (rc, sc)"
    "compressIfNecessary Z path (client_later d s) = Some (rc, client_later d sc)"
    using assms by (cases "compressIfNecessary Z path s")
      (auto simp: compressIfNecessary_later sendFSEntryMetadata_def)
  show ?thesis
  proof (cases rc)
    case (Inl e)
    then show ?thesis using assms c
      by (auto simp: sendFSEntryMetadata_def client_later_def socket_later_def)
  next
    case (Inr x)
    obtain e b where x: "x = (e, b)" by (cases x)
    have causal: "continues client_later client_out (announce E J (entry_path e) b) sc"
      by (rule causal_continues [OF announce_causal])
    obtain ra sa where a: "announce E J (entry_path e) b sc = (ra, sa)" by fastforce
    obtain ra' sa' where a': "announce E J (entry_path e) b (client_later d sc) = (ra', sa')" by fastforce
    show ?thesis
    proof (cases "ra = Inl end_of_file")
      case True
      have "prefix (tx (sock sa)) (tx (sock sa'))"
        using continues_endD [OF causal a [unfolded True], of "()" d] a' by (simp add: client_out_def)
      then show ?thesis using assms c Inr x a a' True
        by (cases ra') (auto simp: sendFSEntryMetadata_def)
    next
      case False
      then have "ra' = ra" "sa' = client_later d sa" using continuesD [OF causal a] a' by simp_all
      then show ?thesis using assms c Inr x a a' False
        by (cases ra) (auto simp: sendFSEntryMetadata_def)
    qed
  qed
qed

lemma machine_after_causal:
  assumes "causal client_later client_out m"
  shows "causal client_later client_out (\<lambda>s. case m s of (r, s') \<Rightarrow> (r, s'\<lparr>machine := g r (machine s')\<rparr>))" (is "causal _ _ ?m")
proof -
  have "continues client_later client_out ?m s" for s
  proof -
    have c: "continues client_later client_out m s" using assms by (rule causal_continues)
    obtain r s' where r: "m s = (r, s')" by fastforce
    show ?thesis
    proof (cases "r = Inl end_of_file")
      case True
      then show ?thesis
        using c r by (simp add: continues_def client_out_def case_prod_unfold)
    next
      case False
      then have "m (client_later d s) = (r, client_later d s')" for d using continuesD [OF c r] by simp
      then show ?thesis using r False by (simp add: continues_def)
    qed
  qed
  moreover have "grows client_out ?m"
    using assms by (simp add: causal_def grows_def client_out_def case_prod_unfold)
  ultimately show ?thesis by (simp add: causal_def)
qed

lemma sendFSEntry_causal: "causal client_later client_out (sendFSEntry avail e)"
  unfolding sendFSEntry_def [abs_def] by (rule machine_after_causal [OF stream_file_causal])

lemma DropFileSendClient_init_later:
  "DropFileSendClient_init (client_later d s) =
     (fst (DropFileSendClient_init s), client_later d (snd (DropFileSendClient_init s)))"
  by (simp add: DropFileSendClient_init_def on_machine_def client_later_def case_prod_unfold)

text \<open>What a sending run does with the outcome of the announcement.\<close>

definition sender_rest ::
  "('e, 'c, 'd, 'j, 'ep, 'peer, 'cert) env \<Rightarrow> error + raii_entry \<times> string \<Rightarrow> client \<Rightarrow> (error + unit) \<times> aftermath" where
  "sender_rest env r s =
     (case r of
        Inl e \<Rightarrow> (Inl e, \<lparr>left_machine = machine (unwind e DropFileSendClient_destroy s), printed = [], transmitted = tx (sock s)\<rparr>)
      | Inr (entry, code) \<Rightarrow>
          case sendFSEntry (available env) (fst (RAIIFSEntry_move entry)) s of (r, s2) \<Rightarrow>
            (r, \<lparr>left_machine = machine (leave r DropFileSendClient_destroy
                    (s2\<lparr>machine := leave r (RAIIFSEntry_destroy (snd (RAIIFSEntry_move entry))) (machine s2)\<rparr>)),
                 printed = [''Receive code: '' @ code], transmitted = tx (sock s2)\<rparr>))"

lemma run_sender_rest:
  assumes "DropFileSendClient_init \<lparr>sock = k, machine = h\<rparr> = (Inr u, s)"
  shows "run_sender env path k h = map_option (\<lambda>(r, s1). sender_rest env r s1)
    (sendFSEntryMetadata (evp env) (zstd env) (json env) path s)"
  using assms by (auto simp: run_sender_def sender_rest_def Let_def case_prod_unfold split: option.split sum.split)

lemma sender_rest_grows: "sender_rest env r s = (r', a) \<Longrightarrow> prefix (tx (sock s)) (transmitted a)"
  using causal_growsD [OF sendFSEntry_causal, of s "()"]
  by (auto simp: sender_rest_def client_out_def case_prod_unfold split: sum.splits)

lemma sender_rest_later:
  assumes "sender_rest env r s = (r1, a1)" and "sender_rest env r (client_later d s) = (r2, a2)"
  shows "prefix (transmitted a1) (transmitted a2) \<and> printed a2 = printed a1 \<and> (r1 \<noteq> Inl end_of_file \<longrightarrow> r2 = r1 \<and> a2 = a1)"
proof (cases r)
  case (Inl e)
  then show ?thesis using assms by (auto simp: sender_rest_def DropFileSendClient_destroy_def unwind_def)
next
  case (Inr x)
  obtain entry code where x: "x = (entry, code)" by (cases x)
  let ?m = "sendFSEntry (available env) (fst (RAIIFSEntry_move entry))"
  have c: "continues client_later client_out ?m s" by (rule causal_continues [OF sendFSEntry_causal])
  obtain q t where t: "?m s = (q, t)" by fastforce
  show ?thesis
  proof (cases "q = Inl end_of_file")
    case True
    then have "prefix (tx (sock t)) (tx (sock (snd (?m (client_later d s)))))"
      using continues_endD [OF c t [unfolded True], of "()" d] by (simp add: client_out_def)
    then show ?thesis using assms Inr x t True by (auto simp: sender_rest_def case_prod_unfold)
  next
    case False
    then have "?m (client_later d s) = (q, client_later d t)" using continuesD [OF c t] by simp
    then show ?thesis using assms Inr x t
      by (auto simp: sender_rest_def DropFileSendClient_destroy_def leave_def unwind_def split: sum.splits)
  qed
qed

lemma run_sender_later:
  assumes "run_sender env path (socket_later d k) h = Some (r', a')"
  shows "\<exists>r a. run_sender env path k h = Some (r, a) \<and> prefix (transmitted a) (transmitted a') \<and>
    (printed a \<noteq> [] \<longrightarrow> printed a' = printed a) \<and> (r \<noteq> Inl end_of_file \<longrightarrow> r' = r \<and> a' = a)"
proof -
  let ?s = "\<lparr>sock = k, machine = h\<rparr> :: client"
  have s: "\<lparr>sock = socket_later d k, machine = h\<rparr> = client_later d ?s" by (simp add: client_later_def)
  obtain ri si where i: "DropFileSendClient_init ?s = (ri, si)" by fastforce
  then have i': "DropFileSendClient_init \<lparr>sock = socket_later d k, machine = h\<rparr> = (ri, client_later d si)"
    by (simp add: s DropFileSendClient_init_later)
  show ?thesis
  proof (cases ri)
    case (Inl e)
    then show ?thesis using assms i i' by (auto simp: run_sender_def)
  next
    case (Inr u)
    note run = run_sender_rest [OF i [unfolded Inr], of env path] and run' = run_sender_rest [OF i' [unfolded Inr], of env path]
    obtain rm' s2 where m': "sendFSEntryMetadata (evp env) (zstd env) (json env) path (client_later d si) = Some (rm', s2)"
      and a': "sender_rest env rm' s2 = (r', a')" using assms unfolding run' by auto
    from sendFSEntryMetadata_later [OF m'] obtain rm s1 where
      m: "sendFSEntryMetadata (evp env) (zstd env) (json env) path si = Some (rm, s1)"
      and later: "if rm = Inl end_of_file then prefix (tx (sock s1)) (tx (sock s2)) else rm' = rm \<and> s2 = client_later d s1"
      by blast
    obtain r a where a: "sender_rest env rm s1 = (r, a)" by fastforce
    have "prefix (transmitted a) (transmitted a') \<and>
      (printed a \<noteq> [] \<longrightarrow> printed a' = printed a) \<and> (r \<noteq> Inl end_of_file \<longrightarrow> r' = r \<and> a' = a)"
    proof (cases "rm = Inl end_of_file")
      case True
      then have "transmitted a = tx (sock s1)" "printed a = []" "r = Inl end_of_file" using a by (auto simp: sender_rest_def)
      then show ?thesis using True later sender_rest_grows [OF a'] by (auto intro: prefix_order.order_trans)
    next
      case False
      then show ?thesis using later a' sender_rest_later [OF a, of d r' a'] by simp
    qed
    then show ?thesis using run m a by simp
  qed
qed

subsection \<open>Receiving\<close>

lemma getServerResponse_causal: "causal client_later client_out (getServerResponse J)"
proof -
  have "causal client_later client_out (try_catch (ask (check_response J received)) (\<lambda>e.
      case e of Json_exception _ \<Rightarrow> throw (DropFileReceiveException (''Error, server response: '' @ received))
      | _ \<Rightarrow> throw e))" for received
    by (rule client_input.unread_causal)
      (auto simp: unread_by_def grows_def try_catch_def client_out_def split: sum.split error.split)
  then show ?thesis unfolding getServerResponse_def by (intro causal_andthen client_rules)
qed

lemma getUserConfirmation_causal: "causal client_later client_out getUserConfirmation"
proof -
  have set: "causal client_later client_out (\<lambda>s. (Inr (), s\<lparr>interaction := i\<rparr>))" for i
    by (rule client_input.unread_causal) (auto simp: unread_by_def grows_def client_later_def client_out_def)
  have eq: "getUserConfirmation = andthen (\<lambda>s. (Inr (read_char (interaction s)), s)) (\<lambda>(confirmation, input).
      andthen (\<lambda>s. (Inr (), s\<lparr>interaction := input\<rparr>)) (\<lambda>_.
        if confirmation \<noteq> CHR ''y'' then
          andthen (on_sock (send ''abort'')) (\<lambda>_.
            throw (DropFileReceiveException (''Entered '' @ [CHR 0x27, confirmation, CHR 0x27] @ '', aborting.'')))
        else on_sock sendACK))"
    by (rule ext) (auto simp: getUserConfirmation_def andthen_def split: prod.split)
  have "causal client_later client_out (\<lambda>s :: receiver. (Inr (read_char (interaction s)), s))"
    by (rule client_input.unread_causal) (auto simp: unread_by_def grows_def client_later_def client_out_def)
  then show ?thesis unfolding eq
    by (auto intro!: causal_andthen set client_rules split: prod.split)
qed

lemma write_out_causal: "causal client_later client_out (write_out p d)"
  by (rule client_input.unread_causal)
    (auto simp: unread_by_def grows_def client_later_def client_out_def write_out_def split: option.split)

lemma sock_write_out: "write_out p d s = (Inr x, s') \<Longrightarrow> sock s' = sock s"
  by (auto simp: write_out_def split: option.splits)

lemma download_loop_causal:
  "causal client_later client_out (download_loop p got expected :: ('z client_scheme, unit) prog)"
proof -
  have "download_loop p got expected =
     (if got < expected then
        andthen (on_sock receiveToBuffer) (\<lambda>data.
          andthen (write_out p (take (unat (min (expected - got) (of_nat (length data)))) data)) (\<lambda>_.
            download_loop p (got + min (expected - got) (of_nat (length data))) expected))
      else (ret () :: ('z client_scheme, unit) prog))" for got
    by (rule ext) (simp add: download_loop_unfold Let_def)
  note loop = client_input.loop_causal [where loop = "\<lambda>got. download_loop p got expected", OF this,
      where \<mu> = "\<lambda>s. length (rx (sock s))"]
  have "length (rx (sock s2)) < length (rx (sock s))"
    if "on_sock receiveToBuffer s = (Inr d, s1)" and "write_out p e s1 = (Inr u, s2)" for d e u and s s1 s2 :: "'z client_scheme"
    using receiveToBuffer_less [OF that(1)] sock_write_out [OF that(2)] by simp
  then show ?thesis by (intro loop client_rules write_out_causal)
qed

lemma receiveFileImpl_causal: "causal client_later client_out (receiveFileImpl p n :: ('z client_scheme, unit) prog)"
proof -
  define open_step :: "('z client_scheme, string list option) prog" where
    "open_step s = (if fs_exists (machine s) p then (Inl (DropFileReceiveException (''Path '' @ p @ '' already exists!'')), s)
       else (Inr (map_option snd (open_out p (machine s))),
             case open_out p (machine s) of None \<Rightarrow> s | Some (h, q) \<Rightarrow> s\<lparr>machine := h\<rparr>))" for s
  have "receiveFileImpl p n = andthen open_step (\<lambda>q. andthen (download_loop q 0 n) (\<lambda>_. on_sock sendACK))"
    by (rule ext) (simp add: receiveFileImpl_def open_step_def andthen_def Let_def)
  moreover have "causal client_later client_out open_step"
    by (rule client_input.unread_causal)
      (auto simp: unread_by_def grows_def open_step_def client_out_def split: option.split)
  ultimately show ?thesis by (auto intro: causal_andthen download_loop_causal client_rules)
qed

lemma download_causal: "causal client_later client_out (download E J code)"
  unfolding download_def
  by (intro causal_andthen client_rules getServerResponse_causal getUserConfirmation_causal receiveFileImpl_causal)

lemma DropFileReceiveClient_init_later:
  "DropFileReceiveClient_init (client_later d s) =
     (fst (DropFileReceiveClient_init s), client_later d (snd (DropFileReceiveClient_init s)))"
  by (simp add: DropFileReceiveClient_init_def on_machine_def client_later_def case_prod_unfold)

lemma receiveFile_later:
  assumes "ReceiveClient.receiveFile E Z J code (client_later d s) = Some (r', s2)"
  shows "\<exists>r s1. ReceiveClient.receiveFile E Z J code s = Some (r, s1) \<and>
    prefix (tx (sock s1)) (tx (sock s2)) \<and> (r \<noteq> Inl end_of_file \<longrightarrow> r' = r \<and> s2 = client_later d s1)"
proof -
  obtain rd sd where e: "download E J code s = (rd, sd)" by fastforce
  obtain rd' sd' where e': "download E J code (client_later d s) = (rd', sd')" by fastforce
  have c: "continues client_later client_out (download E J code) s" by (rule causal_continues [OF download_causal])
  show ?thesis
  proof (cases "rd = Inl end_of_file")
    case True
    then have "prefix (tx (sock sd)) (tx (sock sd'))"
      using continues_endD [OF c e [unfolded True], of "()" d] e' by (simp add: client_out_def)
    then show ?thesis using assms e e' True
      by (cases rd') (auto simp: ReceiveClient.receiveFile_def split: prod.splits)
  next
    case False
    then have eq: "rd' = rd" "sd' = client_later d sd" using continuesD [OF c e] e' by simp_all
    show ?thesis using assms e e' eq False
      by (cases rd) (auto simp: ReceiveClient.receiveFile_def split: prod.splits)
  qed
qed

lemma run_receiver_later:
  assumes "run_receiver env code (socket_later d k) input h = Some (r', a')"
  shows "\<exists>r a. run_receiver env code k input h = Some (r, a) \<and> prefix (transmitted a) (transmitted a') \<and>
    (r \<noteq> Inl end_of_file \<longrightarrow> r' = r \<and> a' = a)"
proof -
  let ?s = "\<lparr>sock = k, machine = h, interaction = input\<rparr> :: receiver"
  have s: "\<lparr>sock = socket_later d k, machine = h, interaction = input\<rparr> = client_later d ?s"
    by (simp add: client_later_def)
  obtain ri si where i: "DropFileReceiveClient_init ?s = (ri, si)" by fastforce
  note run2 = assms [unfolded run_receiver_def s DropFileReceiveClient_init_later i, simplified]
  show ?thesis
  proof (cases ri)
    case (Inl e)
    then show ?thesis using run2 i by (auto simp: run_receiver_def)
  next
    case (Inr u)
    then obtain s2 where m': "ReceiveClient.receiveFile (evp env) (zstd env) (json env) code (client_later d si) = Some (r', s2)"
      and a': "a' = \<lparr>left_machine = machine (leave r' DropFileReceiveClient_destroy s2), printed = [], transmitted = tx (sock s2)\<rparr>"
      using run2 by auto
    from receiveFile_later [OF m'] obtain r s1 where
      "ReceiveClient.receiveFile (evp env) (zstd env) (json env) code si = Some (r, s1)"
      "prefix (tx (sock s1)) (tx (sock s2))" "r \<noteq> Inl end_of_file \<longrightarrow> r' = r \<and> s2 = client_later d s1" by blast
    then show ?thesis using i Inr a'
      by (auto simp: run_receiver_def DropFileReceiveClient_destroy_def leave_def unwind_def split: if_splits sum.splits)
  qed
qed

section \<open>The server\<close>

definition server_later :: "(nat \<Rightarrow> bytes) \<Rightarrow> 'j server \<Rightarrow> 'j server" where
  "server_later d s = s\<lparr>conn := \<lambda>i. socket_later (d i) (conn s i)\<rparr>"

definition server_out :: "'j server \<Rightarrow> nat \<Rightarrow> bytes" where
  "server_out s i = tx (conn s i)"

interpretation server_input: arrivals server_later server_out
  by unfold_locales (simp add: server_later_def server_out_def socket_later_def fun_eq_iff)

lemma server_later_sel [simp]:
  "conn (server_later d s) i = socket_later (d i) (conn s i)" "manager (server_later d s) = manager s"
  "server_later d (s\<lparr>manager := m\<rparr>) = (server_later d s)\<lparr>manager := m\<rparr>"
  by (simp_all add: server_later_def)

lemma on_causal:
  assumes "causal socket_later socket_out p"
  shows "causal server_later server_out (on i p :: ('j server, 'b) prog)"
proof -
  have "continues server_later server_out (on i p :: ('j server, 'b) prog) s" for s
  proof -
    have c: "continues socket_later socket_out p (conn s i)" using assms by (rule causal_continues)
    obtain r k where r: "p (conn s i) = (r, k)" by fastforce
    show ?thesis
    proof (cases "r = Inl end_of_file")
      case True
      then have "prefix (tx k) (tx (snd (p (socket_later d (conn s i)))))" for d
        using continues_endD [OF c r [unfolded True], of "()" d] by (simp add: socket_out_def)
      then show ?thesis using r True by (simp add: continues_def on_def server_out_def case_prod_unfold)
    next
      case False
      then have "p (socket_later d (conn s i)) = (r, socket_later d k)" for d using continuesD [OF c r] by simp
      then show ?thesis using r False by (simp add: continues_def on_def server_later_def fun_eq_iff)
    qed
  qed
  moreover have "grows server_out (on i p :: ('j server, 'b) prog)"
    using causal_growsD [OF assms] by (simp add: grows_def on_def server_out_def socket_out_def case_prod_unfold)
  ultimately show ?thesis by (simp add: causal_def)
qed

lemmas server_rules = server_input.leaf_causal socket_causal [THEN on_causal]

lemma relay_loop_causal: "causal server_later server_out (relay_loop w a got expected :: ('j server, unit) prog)"
proof -
  have "relay_loop w a got expected =
     (if got < expected then
        andthen (on a receive) (\<lambda>data.
          andthen (on w (send (take (unat (min (expected - got) (of_nat (length data)))) data))) (\<lambda>_.
            relay_loop w a (got + min (expected - got) (of_nat (length data))) expected))
      else (ret () :: ('j server, unit) prog))" for got
    by (rule ext) (simp add: relay_loop_unfold Let_def)
  note loop = server_input.loop_causal [where loop = "\<lambda>got. relay_loop w a got expected", OF this,
      where \<mu> = "\<lambda>s. length (rx (conn s a))"]
  show ?thesis by (intro loop server_rules receive_then_send_rx)
qed

lemma receiveFile_causal: "causal server_later server_out (ServerSession.receiveFile J w a meta)"
  unfolding ServerSession.receiveFile_def by (intro causal_andthen server_rules relay_loop_causal)

lemma set_manager_causal:
  "causal server_later server_out (\<lambda>s :: 'j server. (r, s\<lparr>manager := m\<rparr>))"
  by (rule server_input.unread_causal) (auto simp: unread_by_def grows_def server_out_def)

lemma set_manager_andthen: "andthen (\<lambda>s. (Inr (), s\<lparr>manager := m\<rparr>)) (\<lambda>_. p) s = p (s\<lparr>manager := m\<rparr>)"
  by (simp add: andthen_def)

text \<open>For a table, a registration is one program that does not look ahead.\<close>

lemma registerSession_causal:
  assumes "registerSession J ds now self request s0 = Some q"
  shows "\<exists>p. causal server_later server_out p \<and>
    (\<forall>s. manager s = manager s0 \<longrightarrow> registerSession J ds now self request s = Some (p s))"
proof (cases "manager s0")
  case None
  then show ?thesis
    by (intro exI [of _ "on self (safeDisconnect (Some ''Internal error''))"])
      (auto simp: registerSession_def intro: server_rules)
next
  case (Some m)
  show ?thesis
  proof (cases "json_get (json_get_string J) J request ACTION_KEY = Inr ''send''")
    case True
    with assms Some obtain g m' where g: "registerSender ds now self request m = Some (g, m')"
      by (auto simp: registerSession_def split: option.splits)
    show ?thesis
    proof (cases g)
      case (Inl e)
      then show ?thesis using Some True g
        by (intro exI [of _ "\<lambda>s. (Inl e, s\<lparr>manager := Some m'\<rparr>)"]) (auto simp: registerSession_def intro: set_manager_causal)
    next
      case (Inr code)
      then show ?thesis using Some True g
        by (intro exI [of _ "andthen (\<lambda>s. (Inr (), s\<lparr>manager := Some m'\<rparr>)) (\<lambda>_.
            andthen (of_option (Json_exception ''type_error'')
              (json_dump J (json_set J (json_null J) CODE_WORDS_KEY (J_string code)))) (\<lambda>text. on self (send text)))"])
          (auto simp: registerSession_def set_manager_andthen intro!: causal_andthen set_manager_causal server_rules)
    qed
  next
    case False
    show ?thesis
    proof (cases "json_get (json_get_string J) J request CODE_WORDS_KEY")
      case (Inl e)
      then show ?thesis using Some False
        by (intro exI [of _ "throw e"] conjI server_rules) (simp add: registerSession_def)
    next
      case (Inr code)
      obtain g m' where g: "getSenderWithMetadata code m = (g, m')" by fastforce
      show ?thesis
      proof (cases g)
        case (Inl e)
        then show ?thesis using Some False Inr g
          by (intro exI [of _ "\<lambda>s. (Inl e, s\<lparr>manager := Some m'\<rparr>)"]) (auto simp: registerSession_def intro: set_manager_causal)
      next
        case (Inr x)
        then show ?thesis using Some False \<open>json_get (json_get_string J) J request CODE_WORDS_KEY = Inr code\<close> g
          by (intro exI [of _ "andthen (\<lambda>s. (Inr (), s\<lparr>manager := Some m'\<rparr>)) (\<lambda>_.
              ServerSession.receiveFile J self (fst x) (snd x))"])
            (auto simp: registerSession_def set_manager_andthen intro!: causal_andthen set_manager_causal receiveFile_causal split: prod.split)
      qed
    qed
  qed
qed

lemma catch_first_read_grows: "prefix (server_out s i) (server_out (snd (catch_first_read w (r, s))) i)"
  using causal_growsD [OF on_causal [OF safeDisconnect_causal], of s i w]
  by (auto simp: catch_first_read_def split: sum.split error.split)

lemma catch_first_read_later:
  "prefix (server_out (snd (catch_first_read w (r, s))) i) (server_out (snd (catch_first_read w (r, server_later d s))) i)"
proof -
  have "continues server_later server_out (on w (safeDisconnect (Some m)) :: ('a server, unit) prog) s" for m
    by (rule causal_continues [OF on_causal [OF safeDisconnect_causal]])
  then have "prefix (server_out (snd (on w (safeDisconnect (Some m)) s)) i)
      (server_out (snd (on w (safeDisconnect (Some m)) (server_later d s))) i)" for m
    unfolding continues_def by (metis server_input.out_later snd_conv prefix_order.order_refl)
  then show ?thesis
    by (auto simp: catch_first_read_def server_input.out_later split: sum.split error.split)
qed

lemma handleFirstRead_later:
  assumes "handleFirstRead J ds now w content (server_later d s) = Some (r', s2)"
  shows "\<exists>r s1. handleFirstRead J ds now w content s = Some (r, s1) \<and> (\<forall>i. prefix (tx (conn s1 i)) (tx (conn s2 i)))"
proof (cases "sum_bind (create J content) (\<lambda>request. sum_bind (json_get (json_get_string J) J request ACTION_KEY) (\<lambda>_. Inr request))")
  case (Inl e)
  then have "s2 = snd (catch_first_read w (Inl e, server_later d s))"
    using assms by (auto simp: handleFirstRead_def)
  then show ?thesis using Inl catch_first_read_later [of w "Inl e" s]
    by (cases "catch_first_read w (Inl e, s)") (auto simp: handleFirstRead_def server_out_def)
next
  case (Inr request)
  then obtain q' where q': "registerSession J ds now w request (server_later d s) = Some q'" "catch_first_read w q' = (r', s2)"
    using assms by (auto simp: handleFirstRead_def)
  from registerSession_causal [OF this(1)] obtain p where p: "causal server_later server_out p"
    "\<And>s'. manager s' = manager s \<Longrightarrow> registerSession J ds now w request s' = Some (p s')" by auto
  obtain r1 t where t: "p s = (r1, t)" by fastforce
  obtain r1' t' where t': "p (server_later d s) = (r1', t')" by fastforce
  have s2: "s2 = snd (catch_first_read w (r1', t'))" using q' p(2) t' by auto
  have "prefix (server_out (snd (catch_first_read w (r1, t))) i) (server_out s2 i)" for i
  proof (cases "r1 = Inl end_of_file")
    case True
    have "prefix (server_out t i) (server_out t' i)"
      using continues_endD [OF causal_continues [OF p(1)] t [unfolded True]] t' by (metis snd_conv)
    moreover have "prefix (server_out t' i) (server_out s2 i)" unfolding s2 by (rule catch_first_read_grows)
    moreover have "snd (catch_first_read w (r1, t)) = t" using True by (simp add: catch_first_read_def end_of_file_def)
    ultimately show ?thesis by (metis prefix_order.order_trans)
  next
    case False
    then have "r1' = r1" "t' = server_later d t" using continuesD [OF causal_continues [OF p(1)] t] t' by auto
    then show ?thesis unfolding s2 using catch_first_read_later by simp
  qed
  then show ?thesis using Inr p(2) [OF refl] t
    by (cases "catch_first_read w (r1, t)") (auto simp: handleFirstRead_def server_out_def)
qed

text \<open>
  The scheduled first read completes when the first message has come, or when its announced length is
  beyond the limit.
\<close>

definition first_read_ready :: "bytes \<Rightarrow> bool" where
  "first_read_ready d \<longleftrightarrow> 8 \<le> length d \<and>
     (MAX_FIRST_MESSAGE_SIZE < bytes_size (take 8 d) \<or> 8 + unat (bytes_size (take 8 d)) \<le> length d)"

lemma safeDisconnect_later: "safeDisconnect m (socket_later d k) =
    (fst (safeDisconnect m k), socket_later d (snd (safeDisconnect m k)))"
proof -
  have c: "continues socket_later socket_out (safeDisconnect m) k" by (rule causal_continues [OF safeDisconnect_causal])
  have "fst (safeDisconnect m k) \<noteq> Inl end_of_file" using safeDisconnect_returns [of m k] by auto
  then show ?thesis using c by (simp add: continues_def)
qed

lemma asyncReadMessage_later:
  assumes "first_read_ready (rx k)" and "asyncReadMessage MAX_FIRST_MESSAGE_SIZE k = (r, k1)"
  shows "asyncReadMessage MAX_FIRST_MESSAGE_SIZE (socket_later d k) = (r, socket_later d k1)"
proof -
  have lim: "\<not> BUFFER_SIZE < MAX_FIRST_MESSAGE_SIZE" by (simp add: BUFFER_SIZE_def MAX_FIRST_MESSAGE_SIZE_def)
  let ?k = "k\<lparr>rx := drop 8 (rx k), data_buffer := overwrite (take 8 (rx k)) (data_buffer k)\<rparr>"
  have 8: "8 \<le> length (rx k)" using assms(1) by (simp add: first_read_ready_def)
  then have hd: "asio_read_to_buffer 8 k = (Inr (), ?k)" "asio_read_to_buffer 8 (socket_later d k) = (Inr (), socket_later d ?k)"
    "take 8 (data_buffer ?k) = take 8 (rx k)"
    by (simp_all add: asio_read_to_buffer_def socket_later_def overwrite_def Let_def)
  show ?thesis
  proof (cases "MAX_FIRST_MESSAGE_SIZE < bytes_size (take 8 (rx k))")
    case True
    have drop: "andthen (safeDisconnect m) (\<lambda>_. ret Dropped) (socket_later d u) =
        (fst (andthen (safeDisconnect m) (\<lambda>_. ret Dropped) u), socket_later d (snd (andthen (safeDisconnect m) (\<lambda>_. ret Dropped) u)))"
      for m u
      by (simp add: andthen_def safeDisconnect_later split: prod.split sum.split)
    have refused: "asyncReadMessage MAX_FIRST_MESSAGE_SIZE u = andthen (safeDisconnect (Some (''Tried to send '' @
          show_nat (unat (bytes_size (take 8 (rx k)))) @ '' bytes, which is more than allowed ('' @
          show_nat (unat MAX_FIRST_MESSAGE_SIZE) @ '').''))) (\<lambda>_. ret Dropped) v"
      if "asio_read_to_buffer 8 u = (Inr (), v)" and "take 8 (data_buffer v) = take 8 (rx k)" for u v
      using that lim True unfolding asyncReadMessage_def asyncReadHeader_def by (simp only: if_False prod.case sum.case Let_def if_True)
    have "take 8 (data_buffer (socket_later d ?k)) = take 8 (rx k)" using hd(3) by (simp add: socket_later_def)
    from refused [OF hd(2) this] refused [OF hd(1,3)] assms(2) show ?thesis unfolding drop by (metis fst_conv snd_conv)
  next
    case False
    then have n: "unat (bytes_size (take 8 (rx k))) \<le> length (drop 8 (rx k))" using assms(1) by (auto simp: first_read_ready_def)
    then show ?thesis using assms(2) lim hd False
      by (auto simp: asyncReadMessage_def asyncReadHeader_def asyncReadMessageImpl_def Let_def andthen_def try_catch_def
          asio_read_to_buffer_def socket_later_def)
  qed
qed

lemma first_read_later:
  assumes "first_read_ready (rx (conn s w))" and "first_read J ds now w (server_later d s) = Some (r', s2)"
  shows "\<exists>r s1. first_read J ds now w s = Some (r, s1) \<and> (\<forall>i. prefix (tx (conn s1 i)) (tx (conn s2 i)))"
proof -
  obtain q k where k: "asyncReadMessage MAX_FIRST_MESSAGE_SIZE (conn s w) = (q, k)" by fastforce
  let ?s = "s\<lparr>conn := (conn s)(w := k)\<rparr>"
  have 1: "on w (asyncReadMessage MAX_FIRST_MESSAGE_SIZE) s = (q, ?s)" using k by (simp add: on_def)
  have 2: "on w (asyncReadMessage MAX_FIRST_MESSAGE_SIZE) (server_later d s) = (q, server_later d ?s)"
    using asyncReadMessage_later [OF assms(1) k] by (simp add: on_def) (simp add: server_later_def fun_eq_iff)
  show ?thesis
  proof (cases q)
    case (Inl e)
    then show ?thesis using assms(2) 1 2 by (auto simp: first_read_def)
  next
    case (Inr m)
    then show ?thesis using assms(2) 1 2 handleFirstRead_later [of J ds now w _ d ?s]
      by (cases m) (auto simp: first_read_def)
  qed
qed

section \<open>The programs do not look ahead\<close>

text \<open>
  C5. The bytes of a connection can be given in advance: what a program writes after some of them have come
  is the beginning of what it writes after more have come, and a client that has not stopped for want
  of bytes ends in the same way whatever comes later.  This holds for a sender, a receiver, and the
  server's handling of a first message that has come, on every connection.
\<close>

theorem input_in_advance:
  assumes "run_sender env path (socket_later d k) h = Some (rs, s)"
    and "run_receiver env' code (socket_later d' k') input h' = Some (rr, r)"
    and "first_read_ready (rx (conn v w))" and "first_read J ds now w (server_later dv v) = Some (rv, v')"
  shows "\<exists>rs0 s0 rr0 r0 rv0 v0. run_sender env path k h = Some (rs0, s0) \<and>
    prefix (transmitted s0) (transmitted s) \<and> (rs0 \<noteq> Inl end_of_file \<longrightarrow> rs = rs0 \<and> s = s0) \<and>
    run_receiver env' code k' input h' = Some (rr0, r0) \<and>
    prefix (transmitted r0) (transmitted r) \<and> (rr0 \<noteq> Inl end_of_file \<longrightarrow> rr = rr0 \<and> r = r0) \<and>
    first_read J ds now w v = Some (rv0, v0) \<and> (\<forall>i. prefix (tx (conn v0 i)) (tx (conn v' i)))"
proof -
  obtain rs0 s0 where "run_sender env path k h = Some (rs0, s0)" "prefix (transmitted s0) (transmitted s)"
    "rs0 \<noteq> Inl end_of_file \<longrightarrow> rs = rs0 \<and> s = s0" using run_sender_later [OF assms(1)] by blast
  moreover obtain rr0 r0 where "run_receiver env' code k' input h' = Some (rr0, r0)" "prefix (transmitted r0) (transmitted r)"
    "rr0 \<noteq> Inl end_of_file \<longrightarrow> rr = rr0 \<and> r = r0" using run_receiver_later [OF assms(2)] by blast
  moreover obtain rv0 v0 where "first_read J ds now w v = Some (rv0, v0)" "\<forall>i. prefix (tx (conn v0 i)) (tx (conn v' i))"
    using first_read_later [OF assms(3,4)] by blast
  ultimately show ?thesis by blast
qed

text \<open>Two clients that have not heard from the server yet, and a server that has read a first message.\<close>

theorem input_in_advance_witness:
  "\<exists>rs s rr r v. run_sender (sample_env sending_end) ''f'' (sending_end\<lparr>rx := []\<rparr>) Utils.sample_host = Some (rs, s) \<and>
     run_receiver (sample_env receiving_end) ''red-fox'' (receiving_end\<lparr>rx := []\<rparr>) ''y'' Utils.sample_host = Some (rr, r) \<and>
     first_read flat_json [(0, 1, 7)] 9 0 (srv sample_accepted) = Some v"
proof -
  obtain a where a: "run_sender (sample_env sending_end) ''f'' (socket_later (rx sending_end) (sending_end\<lparr>rx := []\<rparr>)) Utils.sample_host =
      Some (Inr (), a)"
    using sample_send_run by (auto simp: socket_later_def)
  obtain b where b: "run_receiver (sample_env receiving_end) ''red-fox'' (socket_later (rx receiving_end) (receiving_end\<lparr>rx := []\<rparr>)) ''y''
      Utils.sample_host = Some (Inr (), b)"
    using sample_receive_run by (auto simp: socket_later_def)
  have ready: "first_read_ready (rx (conn (srv sample_accepted) 0))"
    using sample_meta_dump [of 4]
    by (simp add: first_read_ready_def sample_accepted_def acceptNewConnection_def sample_world_def sample_socket_def
        frame_def unat_of_nat_size del: put_flat.simps)
  have "registerSender [(0, 1, 7)] 9 0 j empty_manager \<noteq> None" for j
    by (simp add: empty_manager_def pickRandom_def getRandom_def)
  then have "first_read flat_json [(0, 1, 7)] 9 0 (server_later (\<lambda>_. ''x'') (srv sample_accepted)) \<noteq> None"
    by (intro first_read_returns) (simp_all add: sample_accepted_sel)
  then obtain x v where "first_read flat_json [(0, 1, 7)] 9 0 (server_later (\<lambda>_. ''x'') (srv sample_accepted)) = Some (x, v)" by auto
  from input_in_advance [OF a b ready this] show ?thesis by blast
qed

end
