(* ===== verification/EndToEnd.thy ===== *)
theory EndToEnd
  imports SendClient ReceiveClient ServerSession
begin

text \<open>
  The three parties together: a sender and a receiver run against the server's handlers for their
  two sessions, each party reading what the others have written to it.
\<close>

section \<open>The server's part\<close>

text \<open>A complete first message reaches its handler.\<close>

definition message_read :: "bytes \<Rightarrow> nat \<Rightarrow> bytes \<Rightarrow> 'j server \<Rightarrow> 'j server" where
  "message_read msg i rest s = s\<lparr>conn := (conn s)(i := (conn s i)\<lparr>rx := rest,
     data_buffer := overwrite msg (overwrite (size_bytes (of_nat (length msg))) (data_buffer (conn s i)))\<rparr>)\<rparr>"

lemma message_read_sel [simp]: "manager (message_read msg i rest s) = manager s"
  "rx (conn (message_read msg i rest s) i) = rest" "tx (conn (message_read msg i rest s) k) = tx (conn s k)"
  "writable (conn (message_read msg i rest s) k) = writable (conn s k)"
  "k \<noteq> i \<Longrightarrow> conn (message_read msg i rest s) k = conn s k"
  by (simp_all add: message_read_def writable_def)

lemma first_read_frame_message:
  assumes "rx (conn s i) = frame msg @ rest" and "length msg \<le> 1000"
  shows "first_read J ds now i s = handleFirstRead J ds now i msg (message_read msg i rest s)"
proof -
  have lim: "MAX_FIRST_MESSAGE_SIZE \<le> BUFFER_SIZE" "length msg \<le> unat MAX_FIRST_MESSAGE_SIZE"
    using assms(2) by (simp_all add: BUFFER_SIZE_def MAX_FIRST_MESSAGE_SIZE_def)
  from on_ok [of "asyncReadMessage MAX_FIRST_MESSAGE_SIZE", OF asyncRead_frame [OF assms(1) lim(2,1)]]
  show ?thesis by (simp add: first_read_def message_read_def)
qed

lemma wire_message: "m \<noteq> [] \<Longrightarrow> length m \<le> 1048576 \<Longrightarrow> wire m = frame m"
  by (simp add: wire_def chunks_single)

lemma server_registers:
  assumes "manager s = Some m" and "rx (conn s a) = frame t @ ra" and "length t \<le> 1000" and "writable (conn s a)"
    and "create J t = Inr j" and "valid_send J j" and "registerSender ds now a j m = Some (Inr code, m1)"
    and "json_dump J (json_set J (json_null J) CODE_WORDS_KEY (J_string code)) = Some ans" and "length ans < 2 ^ 64"
  shows "first_read J ds now a s = Some (Inr (), (message_read t a ra s)\<lparr>manager := Some m1,
      conn := (conn (message_read t a ra s))(a := written (wire ans) (conn (message_read t a ra s) a))\<rparr>)"
proof -
  let ?s = "message_read t a ra s"
  let ?s1 = "?s\<lparr>manager := Some m1\<rparr>"
  have act: "json_get (json_get_string J) J j ACTION_KEY = Inr ''send''"
    using assms(6) by (auto simp: valid_send_def json_get_def)
  have snd: "on a (send ans) ?s1 = (Inr (), ?s1\<lparr>conn := (conn ?s1)(a := written (wire ans) (conn ?s1 a))\<rparr>)"
    using assms(4,9) by (intro send_text_ok) simp_all
  then have "registerSession J ds now a j ?s = Some (on a (send ans) ?s1)"
    using assms(1,7,8) act by (simp add: registerSession_def andthen_def)
  then show ?thesis unfolding first_read_frame_message [OF assms(2,3)] handleFirstRead_def
    using assms(5) act snd by (simp add: catch_first_read_def)
qed

text \<open>A receiver with the code of a waiting sender is handed its session.\<close>

lemma server_hands_over:
  assumes "manager s = Some m" and "manager_ok m" and "rx (conn s w) = frame q @ rw" and "length q \<le> 1000"
    and "create J q = Inr jq" and "valid_receive J jq" and "json_get (json_get_string J) J jq CODE_WORDS_KEY = Inr code"
    and "sessions m code = Some e" and "client_session e = a"
  shows "\<exists>m1. sessions m1 = (sessions m)(code := None) \<and> manager_ok m1 \<and>
    (\<forall>s. manager s = Some m \<and> (\<exists>rw. rx (conn s w) = frame q @ rw) \<longrightarrow>
      first_read J ds now w s = Some (catch_first_read w (ServerSession.receiveFile J w a (session_data e)
        ((message_read q w (drop (length (frame q)) (rx (conn s w))) s)\<lparr>manager := Some m1\<rparr>))))"
proof -
  obtain g m1 where g: "getSenderWithMetadata code m = (g, m1)" by fastforce
  have gs: "g = Inr (a, session_data e)" "sessions m1 = (sessions m)(code := None)" "manager_ok m1"
    using getSender_spec [OF assms(2) g] assms(8,9) by simp_all
  have act: "json_get (json_get_string J) J jq ACTION_KEY = Inr ''receive''"
    using assms(6) by (auto simp: valid_receive_def json_get_def)
  have "registerSession J ds now w jq (message_read q w rw s) =
      Some (ServerSession.receiveFile J w a (session_data e) ((message_read q w rw s)\<lparr>manager := Some m1\<rparr>))"
    if "manager s = Some m" for rw s
    using that assms(7) act g gs(1) by (simp add: registerSession_def)
  then have "first_read J ds now w s = Some (catch_first_read w (ServerSession.receiveFile J w a (session_data e)
        ((message_read q w (drop (length (frame q)) (rx (conn s w))) s)\<lparr>manager := Some m1\<rparr>)))"
    if "manager s = Some m" "rx (conn s w) = frame q @ rw" for rw s
    using that(1) first_read_frame_message [OF that(2) assms(4)] assms(5) act
    by (simp add: handleFirstRead_def that(2) del: length_frame)
  with g gs show ?thesis by blast
qed

text \<open>A receiver with a code of no waiting sender is told so, and its connection is closed.\<close>

lemma server_refuses:
  assumes "manager s = Some m" and "manager_ok m" and "rx (conn s w) = frame q @ rw" and "length q \<le> 1000"
    and "create J q = Inr jq" and "valid_receive J jq" and "json_get (json_get_string J) J jq CODE_WORDS_KEY = Inr code"
    and "sessions m code = None" and "writable (conn s w)"
  shows "first_read J ds now w s = Some (Inr (), (message_read q w rw s)\<lparr>conn := (conn (message_read q w rw s))(w :=
      (written (frame ''Unknown session code.'') (conn (message_read q w rw s) w))\<lparr>tx_open := False\<rparr>)\<rparr>)"
proof -
  let ?s = "message_read q w rw s"
  obtain g m1 where g: "getSenderWithMetadata code m = (g, m1)" by fastforce
  have gs: "g = Inl (SessionsManagerException ''Unknown session code.'')" "m1 = m"
    using getSender_spec [OF assms(2) g] assms(8) by simp_all
  have act: "json_get (json_get_string J) J jq ACTION_KEY = Inr ''receive''"
    using assms(6) by (auto simp: valid_receive_def json_get_def)
  have "?s\<lparr>manager := Some m\<rparr> = ?s" using assms(1) by (simp add: message_read_def)
  then have "registerSession J ds now w jq ?s = Some (Inl (SessionsManagerException ''Unknown session code.''), ?s)"
    using assms(1,7) act g gs by (simp add: registerSession_def)
  moreover have "writable (conn ?s w)" using assms(9) by simp
  then have "on w (safeDisconnect (Some ''Unknown session code.'')) ?s = (Inr (), ?s\<lparr>conn := (conn ?s)(w :=
      (written (frame ''Unknown session code.'') (conn ?s w))\<lparr>tx_open := False\<rparr>)\<rparr>)"
    by (intro on_ok safeDisconnect_writable) (simp_all add: BUFFER_SIZE_def)
  ultimately show ?thesis unfolding first_read_frame_message [OF assms(3,4)] handleFirstRead_def
    using assms(5) act by (simp add: catch_first_read_def)
qed

lemma server_transfers:
  assumes "manager s = Some m" and "manager_ok m" and "w \<noteq> a"
    and "rx (conn s w) = frame q @ frame ACK @ frame ACK @ rw" and "length q \<le> 1000"
    and "create J q = Inr jq" and "valid_receive J jq" and "json_get (json_get_string J) J jq CODE_WORDS_KEY = Inr code"
    and "sessions m code = Some e" and "client_session e = a" and "json_dump J (session_data e) = Some d" and "length d < 2 ^ 64"
    and "announces J (session_data e) name n hash c" and "n \<noteq> 0" and "writable (conn s w)" and "writable (conn s a)"
    and "rx (conn s a) = concat (map frame ms) @ ra" and "short_messages ms" and "unat n \<le> length (concat ms)"
  shows "\<exists>s' ps m'. first_read J ds now w s = Some (Inr (), s') \<and>
    tx (conn s' w) = tx (conn s w) @ wire d @ concat (map frame ps) \<and>
    concat ps = take (unat n) (concat ms) \<and> short_messages ps \<and>
    tx (conn s' a) = tx (conn s a) @ frame ACK @ frame ACK \<and> manager s' = Some m' \<and> sessions m' = (sessions m)(code := None)"
proof -
  obtain m1 where m1: "sessions m1 = (sessions m)(code := None)" "first_read J ds now w s = Some (catch_first_read w
      (ServerSession.receiveFile J w a (session_data e) ((message_read q w (frame ACK @ frame ACK @ rw) s)\<lparr>manager := Some m1\<rparr>)))"
    using server_hands_over [OF assms(1,2,4-10), of ds now] assms(1,4) by auto
  define s1 where "s1 = (message_read q w (frame ACK @ frame ACK @ rw) s)\<lparr>manager := Some m1\<rparr>"
  have w: "writable (conn s1 w)" "writable (conn s1 a)" "rx (conn s1 w) = frame ACK @ frame ACK @ rw"
    "rx (conn s1 a) = concat (map frame ms) @ ra" "tx (conn s1 w) = tx (conn s w)" "tx (conn s1 a) = tx (conn s a)"
    "manager s1 = Some m1"
    using assms(3,15,16,17) by (simp_all add: s1_def)
  obtain s' ps where rf: "ServerSession.receiveFile J w a (session_data e) s1 = (Inr (), s')"
    "tx (conn s' w) = tx (conn s1 w) @ wire d @ concat (map frame ps)" "concat ps = take (unat n) (concat ms)"
    "short_messages ps" "tx (conn s' a) = tx (conn s1 a) @ frame ACK @ frame ACK" "manager s' = manager s1"
    using receiveFile_transfers [OF assms(3,11,12,13,14) w(1,2,3,4) assms(18,19)] by blast
  have "first_read J ds now w s = Some (Inr (), s')" using m1(2) rf(1) by (simp add: s1_def catch_first_read_def)
  with rf m1(1) w(5-7) show ?thesis by auto
qed

section \<open>The whole transfer\<close>

text \<open>One end of a connection over which these bytes have come or will come.\<close>

definition endpoint :: "bytes \<Rightarrow> socket" where
  "endpoint d = \<lparr>rx = d, tx = [], tx_open = True, tx_quota = None, data_buffer = []\<rparr>"

lemma endpoint_sel [simp]: "rx (endpoint d) = d" "tx (endpoint d) = []" "writable (endpoint d)"
  by (simp_all add: endpoint_def writable_def)

text \<open>The sender's side: what is sent is announced, then goes out in messages; a temporary archive is removed.\<close>

lemma sender_side:
  assumes "evp_laws E digest" and "avail_ok avail"
    and "compressIfNecessary Z path \<lparr>sock = endpoint (frame ans @ frame ACK @ frame ACK), machine = h\<rparr> =
      Some (Inr (e, c), \<lparr>sock = endpoint (frame ans @ frame ACK @ frame ACK), machine = h2\<rparr>)"
    and "open_in h2 (entry_path e) = Some d" and "length d < 2 ^ 64"
    and "json_dump J (json_object J (send_fields (filename (entry_path e)) (of_nat (length d)) (binaryToHumanReadable (digest d)) c)) = Some t"
    and "length t < 2 ^ 64" and "answers J ans code"
  shows "\<exists>s1 s2 ms. sendFSEntryMetadata E Z J path \<lparr>sock = endpoint (frame ans @ frame ACK @ frame ACK), machine = h\<rparr> =
      Some (Inr (e, code), s1) \<and>
    sendFSEntry avail e s1 = (Inr (), s2) \<and> machine s2 = RAIIFSEntry_destroy e h2 \<and>
    tx (sock s2) = wire t @ concat (map frame ms) \<and> concat ms = d \<and> short_messages ms"
proof -
  let ?s = "\<lparr>sock = endpoint (frame ans @ frame ACK @ frame ACK), machine = h2\<rparr>"
  have s: "machine ?s = h2" "writable (sock ?s)" "rx (sock ?s) = frame ans @ frame ACK @ frame ACK" "tx (sock ?s) = []"
    by simp_all
  let ?s1 = "?s\<lparr>sock := (written (wire t) (sock ?s))\<lparr>rx := frame ACK @ frame ACK\<rparr>\<rparr>"
  have o: "open_in (machine ?s) (entry_path e) = Some d" using assms(4) s(1) by simp
  have "announce E J (entry_path e) c ?s = (Inr code, ?s1)"
    by (rule announce_ok [OF assms(1) o assms(6,7) s(2,3) assms(8)])
  with assms(3) have 1: "sendFSEntryMetadata E Z J path \<lparr>sock = endpoint (frame ans @ frame ACK @ frame ACK), machine = h\<rparr> =
      Some (Inr (e, code), ?s1)"
    by (simp add: sendFSEntryMetadata_def RAIIFSEntry_move_def)
  have f: "writable (sock ?s1)" "rx (sock ?s1) = frame ACK @ frame ACK @ []" "open_in (machine ?s1) (entry_path e) = Some d"
    using s(2) o by (simp_all add: writable_def written_def)
  obtain ms s2 where ms: "stream_file avail (entry_path e) ?s1 = (Inr (), s2)" "machine s2 = h2"
    "tx (sock s2) = wire t @ concat (map frame ms)" "concat ms = d" "short_messages ms"
    using stream_file_ok [OF assms(2) f assms(5)] s(4) by auto
  have "sendFSEntry avail e ?s1 = (Inr (), s2\<lparr>machine := RAIIFSEntry_destroy e h2\<rparr>)"
    using ms(1,2) by (simp add: sendFSEntry_def)
  with 1 ms(3-5) show ?thesis by (intro exI [of _ ?s1] exI [of _ "s2\<lparr>machine := RAIIFSEntry_destroy e h2\<rparr>"] exI [of _ ms]) simp
qed

lemma file_not_compressed:
  "open_in (machine s) path = Some d \<Longrightarrow>
   compressIfNecessary Z path s = Some (Inr (RAIIFSEntry_init path False, False), s)"
  by (auto simp: compressIfNecessary_def Let_def open_in_def is_directory_at_def split: option.splits node.splits)

text \<open>The texts the parties exchange: the announcement, the answer with the code, and the request.\<close>

definition texts_fit :: "'j json_api \<Rightarrow> 'j \<Rightarrow> string \<Rightarrow> bytes \<Rightarrow> bytes \<Rightarrow> bytes \<Rightarrow> bool" where
  "texts_fit J j code t ans q \<longleftrightarrow>
     json_dump J j = Some t \<and> length t \<le> 1000 \<and>
     json_dump J (json_set J (json_null J) CODE_WORDS_KEY (J_string code)) = Some ans \<and> length ans \<le> 1048576 \<and>
     json_dump J (createReceiveMessage J code) = Some q \<and> length q \<le> 1000"

lemma exchanged_texts:
  assumes "json_laws J text" and "text name" and "text code"
    and "j = json_object J (send_fields name n (binaryToHumanReadable x) c)" and "texts_fit J j code t ans q"
  shows "json_parse J t = Some j" and "create J t = Inr j" and "valid_send J j"
    and "announces J j name n (binaryToHumanReadable x) c" and "answers J ans code"
    and "create J q = Inr (createReceiveMessage J code)"
    and "wire t = frame t" and "wire ans = frame ans" and "wire q = frame q"
proof -
  let ?f = "send_fields name n (binaryToHumanReadable x) c" and ?c = "[(CODE_WORDS_KEY, J_string code)]"
  note tf = assms(5) [unfolded texts_fit_def]
  have "distinct (map fst ?f)" "\<forall>(k, v) \<in> set ?f. text k \<and> (\<forall>s. v = J_string s \<longrightarrow> text s)"
    using ascii_constants [OF assms(1)] assms(2) by (auto simp: send_fields_def key_defs)
  from json_laws_dump_object [OF assms(1) this] have t: "t \<noteq> []" "json_parse J t = Some j"
    using tf unfolding assms(4) by auto
  then show "json_parse J t = Some j" by simp
  show v: "valid_send J j" "announces J j name n (binaryToHumanReadable x) c"
    using send_fields_object [OF assms(1)] unfolding assms(4) by blast+
  show "create J t = Inr j" using create_ok [OF t(2)] v(1) by blast
  have "distinct (map fst ?c)" "\<forall>(k, v) \<in> set ?c. text k \<and> (\<forall>s. v = J_string s \<longrightarrow> text s)"
    using ascii_constants(6) [OF assms(1)] assms(3) by auto
  from json_laws_dump_object [OF assms(1) this] have a: "ans \<noteq> []" "json_parse J ans = Some (json_object J ?c)"
    using tf by (auto simp: json_object_def)
  have "json_get (json_get_string J) J (json_object J ?c) CODE_WORDS_KEY = Inr code"
    using json_laws_find [OF assms(1), of ?c CODE_WORDS_KEY "J_string code"] by (auto simp: json_get_def)
  with a(2) tf show "answers J ans code" by (auto simp: answers_def)
  obtain q' where "json_dump J (createReceiveMessage J code) = Some q'" "q' \<noteq> []"
    "create J q' = Inr (createReceiveMessage J code)" using createReceiveMessage_dump [OF assms(1,3)] by blast
  then have q: "q \<noteq> []" "create J q = Inr (createReceiveMessage J code)" using tf by simp_all
  then show "create J q = Inr (createReceiveMessage J code)" by simp
  show "wire t = frame t" "wire ans = frame ans" "wire q = frame q"
    using t(1) a(1) q(1) tf by (simp_all add: wire_message)
qed

text \<open>The server's side: the sender's first message, then the receiver's.\<close>

lemma server_side:
  assumes "json_laws J text" and "text name" and "text code"
    and "j = json_object J (send_fields name n (binaryToHumanReadable x) c)" and "texts_fit J j code t ans q"
    and "manager srv = Some m" and "manager_ok m" and "registerSender ds now a j m = Some (Inr code, m1)" and "a \<noteq> w"
    and "short_messages ms" and "n \<noteq> 0" and "unat n = length (concat ms)"
  shows "\<exists>srv1 srv2 ps m2.
    first_read J ds now a (srv\<lparr>conn := (conn srv)(a := endpoint (frame t @ concat (map frame ms)),
      w := endpoint (frame q @ frame ACK @ frame ACK))\<rparr>) = Some (Inr (), srv1) \<and>
    first_read J ds' now' w srv1 = Some (Inr (), srv2) \<and>
    tx (conn srv2 a) = frame ans @ frame ACK @ frame ACK \<and> tx (conn srv2 w) = frame t @ concat (map frame ps) \<and>
    concat ps = concat ms \<and> short_messages ps \<and> manager srv2 = Some m2 \<and> sessions m2 = sessions m"
proof -
  note x = exchanged_texts [OF assms(1-5)]
  have tf: "length t \<le> 1000" "length t < 2 ^ 64" "length ans < 2 ^ 64" "length q \<le> 1000" "json_dump J j = Some t"
    "json_dump J (json_set J (json_null J) CODE_WORDS_KEY (J_string code)) = Some ans"
    using assms(5) by (auto simp: texts_fit_def)
  let ?C = "frame q @ frame ACK @ frame ACK"
  let ?srv = "srv\<lparr>conn := (conn srv)(a := endpoint (frame t @ concat (map frame ms)), w := endpoint ?C)\<rparr>"
  have a0: "manager ?srv = Some m" "rx (conn ?srv a) = frame t @ concat (map frame ms)" "writable (conn ?srv a)"
    using assms(6,9) by simp_all
  obtain srv1 where srv1: "first_read J ds now a ?srv = Some (Inr (), srv1)" "manager srv1 = Some m1"
    "tx (conn srv1 a) = frame ans" "rx (conn srv1 a) = concat (map frame ms) @ []" "writable (conn srv1 a)"
    "conn srv1 w = endpoint ?C"
    using server_registers [OF a0(1,2) tf(1) a0(3) x(2,3) assms(8) tf(6,3)] assms(9) x(8)
    by (simp add: writable_def written_def message_read_def endpoint_def)
  obtain e where e: "sessions m code = None" "sessions m1 = (sessions m)(code \<mapsto> e)" "client_session e = a" "session_data e = j"
    "manager_ok m1"
    using registerSender_spec [OF assms(7,8)] by auto
  have w0: "rx (conn srv1 w) = frame q @ frame ACK @ frame ACK @ []" "writable (conn srv1 w)" "tx (conn srv1 w) = []"
    "sessions m1 code = Some e" "w \<noteq> a" "json_dump J (session_data e) = Some t"
    "announces J (session_data e) name n (binaryToHumanReadable x) c" "unat n \<le> length (concat ms)"
    using srv1(6) e(2,4) assms(9,12) tf(5) x(4) by auto
  obtain srv2 ps m2 where srv2: "first_read J ds' now' w srv1 = Some (Inr (), srv2)"
    "tx (conn srv2 w) = tx (conn srv1 w) @ wire t @ concat (map frame ps)" "concat ps = take (unat n) (concat ms)"
    "short_messages ps" "tx (conn srv2 a) = tx (conn srv1 a) @ frame ACK @ frame ACK" "manager srv2 = Some m2"
    "sessions m2 = (sessions m1)(code := None)"
    using server_transfers [OF srv1(2) e(5) w0(5,1) tf(4) x(6) createReceiveMessage_valid [OF assms(1)] w0(4) e(3)
        w0(6) tf(2) w0(7) assms(11) w0(2) srv1(5,4) assms(10) w0(8), of ds' now'] by blast
  have "sessions m2 = sessions m" using srv2(7) e(1,2) by (simp add: fun_eq_iff)
  then show ?thesis using srv1(1,3) srv2 w0(3) x(7) assms(12) by auto
qed

text \<open>The receiver's side.\<close>

lemma receiver_side:
  assumes "json_laws J text" and "text name" and "text code" and "evp_laws E digest"
    and "j = json_object J (send_fields name n (binaryToHumanReadable (digest d)) False)" and "texts_fit J j code t ans q"
    and "says_yes input" and "\<not> fs_exists h name" and "n \<le> free_space h (current_path h)"
    and "new_file h (path_append (current_path h) name) p" and "n \<noteq> 0" and "concat ps = d" and "unat n = length d"
    and "short_messages ps"
  shows "\<exists>r1. ReceiveClient.receiveFile E Z J code
      \<lparr>sock = endpoint (frame t @ concat (map frame ps)), machine = h, interaction = input\<rparr> = Some (Inr (), r1) \<and>
    tx (sock r1) = frame q @ frame ACK @ frame ACK \<and> machine r1 = h\<lparr>root := put p (File d) (root h)\<rparr>"
proof -
  note x = exchanged_texts [OF assms(1,2,3,5,6)]
  have tf: "length t \<le> 1048576" "length q < 2 ^ 64" "json_dump J (createReceiveMessage J code) = Some q"
    using assms(6) by (auto simp: texts_fit_def)
  let ?r = "\<lparr>sock = endpoint (frame t @ concat (map frame ps)), machine = h, interaction = input\<rparr>"
  have off: "offered J t j name n (binaryToHumanReadable (digest (take (unat n) (concat ps)))) False (machine ?r)"
    using tf(1) x(1,4) assms(8,9,11,12,13) by (simp add: offered_def base_dir_def)
  have rr: "writable (sock ?r)" "rx (sock ?r) = frame t @ concat (map frame ps) @ []"
    "says_yes (interaction ?r)" "new_file (machine ?r) (target_path False (machine ?r) name) p" "unat n \<le> length (concat ps)"
    using assms(7,10,12,13) by (simp_all add: target_path_def)
  obtain r1 where "download E J code ?r = (Inr (False, target_path False (machine ?r) name), r1)"
    "tx (sock r1) = tx (sock ?r) @ wire q @ frame ACK @ frame ACK"
    "machine r1 = (machine ?r)\<lparr>root := put p (File (take (unat n) (concat ps))) (root (machine ?r))\<rparr>"
    using download_ok [OF assms(4) tf(3,2) rr(1,2) off rr(3,4) assms(14) rr(5)] by blast
  then show ?thesis using x(9) assms(12,13)
    by (simp add: ReceiveClient.receiveFile_def handleCompressedFile_def)
qed

text \<open>
  A file gets from one machine to the other.  Let a sender announce a file that is not empty, the
  server draw a free code for it, and a receiver with that code agree and have room for the file.
  Then there is a run of the three programs in which each reads just what the others write to it: the
  sender is told the code and streams the file, the server's two handlers return normally and leave
  the table as it was, and the receiver ends with exactly the file's bytes under the file's name and
  no other change; the sender's machine is unchanged.
\<close>

theorem file_transfer:
  assumes "json_laws J text" and "evp_laws E digest" and "avail_ok avail"
    and "open_in hs path = Some d" and "d \<noteq> []" and "length d < 2 ^ 64" and "text (filename path)"
    and "j = json_object J (send_fields (filename path) (of_nat (length d)) (binaryToHumanReadable (digest d)) False)"
    and "manager srv = Some m" and "manager_ok m" and "registerSender ds now a j m = Some (Inr code, m1)"
    and "text code" and "texts_fit J j code t ans q" and "a \<noteq> w"
    and "says_yes input" and "\<not> fs_exists hr (filename path)" and "of_nat (length d) \<le> free_space hr (current_path hr)"
    and "new_file hr (path_append (current_path hr) (filename path)) p"
  shows "\<exists>A B C D s1 s2 srv1 srv2 r1 m2.
    sendFSEntryMetadata E Z J path \<lparr>sock = endpoint B, machine = hs\<rparr> = Some (Inr (RAIIFSEntry_init path False, code), s1) \<and>
    sendFSEntry avail (RAIIFSEntry_init path False) s1 = (Inr (), s2) \<and> tx (sock s2) = A \<and> machine s2 = hs \<and>
    first_read J ds now a (srv\<lparr>conn := (conn srv)(a := endpoint A, w := endpoint C)\<rparr>) = Some (Inr (), srv1) \<and>
    first_read J ds' now' w srv1 = Some (Inr (), srv2) \<and> tx (conn srv2 a) = B \<and> tx (conn srv2 w) = D \<and>
    manager srv2 = Some m2 \<and> sessions m2 = sessions m \<and>
    ReceiveClient.receiveFile E Z J code \<lparr>sock = endpoint D, machine = hr, interaction = input\<rparr> = Some (Inr (), r1) \<and>
    tx (sock r1) = C \<and> machine r1 = hr\<lparr>root := put p (File d) (root hr)\<rparr>"
proof -
  let ?n = "of_nat (length d) :: size_t"
  have n: "unat ?n = length d" using unat_of_nat_size [OF assms(6)] .
  then have n0: "?n \<noteq> 0" using assms(5) by (metis length_0_conv unat_0)
  have tf: "json_dump J j = Some t" "length t < 2 ^ 64" using assms(13) by (auto simp: texts_fit_def)
  note x = exchanged_texts [OF assms(1,7,12,8,13)]
  let ?B = "frame ans @ frame ACK @ frame ACK" and ?e = "RAIIFSEntry_init path False"
  have cn: "compressIfNecessary Z path \<lparr>sock = endpoint ?B, machine = hs\<rparr> = Some (Inr (?e, False), \<lparr>sock = endpoint ?B, machine = hs\<rparr>)"
    using assms(4) by (intro file_not_compressed) simp
  have e: "entry_path ?e = path" "RAIIFSEntry_destroy ?e hs = hs" by (simp_all add: RAIIFSEntry_init_def RAIIFSEntry_destroy_def)
  obtain s1 s2 ms where s: "sendFSEntryMetadata E Z J path \<lparr>sock = endpoint ?B, machine = hs\<rparr> = Some (Inr (?e, code), s1)"
    "sendFSEntry avail ?e s1 = (Inr (), s2)" "machine s2 = hs"
    "tx (sock s2) = frame t @ concat (map frame ms)" "concat ms = d" "short_messages ms"
    using sender_side [OF assms(2,3) cn, unfolded e, OF assms(4,6) tf(1) [unfolded assms(8)] tf(2) x(5)] unfolding x(7) by blast
  have nm: "unat ?n = length (concat ms)" using n s(5) by simp
  from server_side [OF assms(1,7,12,8,13,9,10,11,14) s(6) n0 nm, of ds' now'] obtain srv1 srv2 ps m2 where
    "first_read J ds now a (srv\<lparr>conn := (conn srv)(a := endpoint (frame t @ concat (map frame ms)),
      w := endpoint (frame q @ frame ACK @ frame ACK))\<rparr>) = Some (Inr (), srv1)"
    "first_read J ds' now' w srv1 = Some (Inr (), srv2)"
    "tx (conn srv2 a) = frame ans @ frame ACK @ frame ACK" "tx (conn srv2 w) = frame t @ concat (map frame ps)"
    and ps: "concat ps = d" "short_messages ps" and "manager srv2 = Some m2" "sessions m2 = sessions m"
    unfolding s(5) by blast
  moreover from receiver_side [OF assms(1,7,12,2,8,13,15-18) n0 ps(1) n ps(2)] obtain r1 where
    "ReceiveClient.receiveFile E Z J code
      \<lparr>sock = endpoint (frame t @ concat (map frame ps)), machine = hr, interaction = input\<rparr> = Some (Inr (), r1)"
    "tx (sock r1) = frame q @ frame ACK @ frame ACK" "machine r1 = hr\<lparr>root := put p (File d) (root hr)\<rparr>" by blast
  ultimately show ?thesis using s(1-4) by blast
qed

text \<open>The file \<open>f\<close> of one machine goes to another with an empty home directory.\<close>

definition other_host :: host where
  "other_host = Utils.sample_host\<lparr>root := Dir [(''home'', Dir [])]\<rparr>"

definition f_json :: flat where
  "f_json = json_object flat_json (send_fields (filename ''f'') (of_nat (length ''data'')) (binaryToHumanReadable (take 4 ''data'')) False)"

lemma f_json_texts:
  "texts_fit flat_json f_json ''able-art-7'' (put_flat f_json)
     (put_flat (flat_set (Scalar F_null) CODE_WORDS_KEY (J_string ''able-art-7'')))
     (put_flat (createReceiveMessage flat_json ''able-art-7''))"
proof -
  let ?f = "send_fields (filename ''f'') (of_nat (length ''data'')) (binaryToHumanReadable (take 4 ''data'')) False"
  have "distinct (map fst ?f)" "?f \<noteq> []" by (simp_all add: send_fields_def key_defs)
  then have "length (put_flat f_json) \<le> 1000"
    unfolding f_json_def
    by (simp add: flat_object) (simp add: send_fields_def key_defs put_text_def binaryToHumanReadable_def filename_def)
  then show ?thesis
    by (simp add: texts_fit_def createReceiveMessage_def key_defs put_text_def)
qed

lemma sample_code_drawn:
  "\<exists>m1. registerSender [(0, 1, 7)] 9 0 j sample_manager = Some (Inr ''able-art-7'', m1)"
proof -
  have "show_nat 7 = ''7''" by code_simp
  then show ?thesis by (simp add: sample_manager_def pickRandom_def getRandom_def)
qed

theorem file_transfer_witness:
  "\<exists>r1 D. ReceiveClient.receiveFile take4_evp held_zstd flat_json ''able-art-7''
     \<lparr>sock = endpoint D, machine = other_host, interaction = ''y''\<rparr> = Some (Inr (), r1) \<and>
     machine r1 = other_host\<lparr>root := put [''home'', ''f''] (File ''data'') (root other_host)\<rparr>"
proof -
  have f: "open_in Utils.sample_host ''f'' = Some ''data''" "filename ''f'' = ''f''"
    by (simp_all add: Utils.sample_host_def open_in_def stat_def resolve_def is_absolute_def filename_def)
  obtain m1 where reg: "registerSender [(0, 1, 7)] 9 0 f_json sample_manager = Some (Inr ''able-art-7'', m1)"
    using sample_code_drawn by blast
  have cp: "current_path other_host = ''/home''" "path_append ''/home'' ''f'' = ''/home/f''"
    by (simp_all add: other_host_def Utils.sample_host_def current_path_def path_append_def is_absolute_def filename_def)
  have r: "says_yes ''y''" "\<not> fs_exists other_host (filename ''f'')"
    "of_nat (length ''data'') \<le> free_space other_host (current_path other_host)"
    "new_file other_host (path_append (current_path other_host) (filename ''f'')) [''home'', ''f'']"
    unfolding cp f(2)
    by (simp_all add: cp(2) says_yes_def read_char_def ReceiveClient.is_space_def fs_exists_def stat_def resolve_def
        is_absolute_def other_host_def Utils.sample_host_def new_file_def)
  have av: "avail_ok (\<lambda>s. 3)" by (simp add: avail_ok_def)
  have d: "''data'' \<noteq> []" "length ''data'' < 2 ^ 64" by simp_all
  have mg: "manager (\<lparr>conn = (\<lambda>_. endpoint []), manager = Some sample_manager\<rparr>) = Some sample_manager" by simp
  show ?thesis
    using file_transfer [OF flat_json_laws take4_evp_laws av f(1) d TrueI f_json_def mg sample_manager_ok reg TrueI
        f_json_texts zero_neq_one r, where Z = held_zstd and ds' = "[]" and now' = 0] by blast
qed

section \<open>A directory\<close>

text \<open>
  The directory \<open>dir\<close> with the entries \<open>es\<close> can be packed into the file \<open>p\<close>: the file can be made and
  does not lie in the directory, and the entries' paths and contents fit an archive.
\<close>

definition can_pack :: "('c, 'd) zstd_api \<Rightarrow> host \<Rightarrow> string \<Rightarrow> string \<Rightarrow> (string \<times> node) list \<Rightarrow> bool" where
  "can_pack Z h dir p es \<longleftrightarrow>
     (\<exists>q qa. resolve h dir = Some q \<and> lookup (root h) q = Some (Dir es) \<and> new_file h p qa \<and> \<not> prefix q qa) \<and>
     valid_name (filename dir) \<and> length (filename dir) \<le> PATH_MAX_LEN \<and> packable Z (filename dir) es"

lemma can_pack_compressed:
  assumes "zstd_laws Z F" and "p = path_append (DROP_FILE_SENDER_TMP_DIR (machine s)) (filename dir)"
    and "can_pack Z (machine s) dir p es"
  shows "\<exists>bs h2. compressIfNecessary Z dir s = Some (Inr (RAIIFSEntry_init p True, True), s\<lparr>machine := h2\<rparr>) \<and>
    createArchive Z dir p (machine s) = Some (Inr (), h2) \<and> open_in h2 p = Some (concat bs) \<and>
    list_all2 (encodes F) (Dir_item (filename dir) # flatten_entries (filename dir) es) bs \<and>
    RAIIFSEntry_destroy (RAIIFSEntry_init p True) h2 = machine s"
proof -
  obtain q qa where q: "resolve (machine s) dir = Some q" "lookup (root (machine s)) q = Some (Dir es)"
    "new_file (machine s) p qa" "\<not> prefix q qa"
    using assms(3) by (auto simp: can_pack_def)
  show ?thesis
    using compressIfNecessary_directory [OF assms(1,2) q(3,1,2,4)] assms(3) by (simp add: can_pack_def)
qed

lemma can_pack_sample:
  "can_pack held_zstd (machine directory_client) ''/d''
     (path_append (DROP_FILE_SENDER_TMP_DIR (machine directory_client)) ''d'') [(''f'', File ''hello'')]"
  unfolding can_pack_def using directory_client_facts
  by (auto simp: PATH_MAX_LEN_def valid_name_def compressible_def path_append_def is_absolute_def filename_def)

lemma archive_not_empty:
  "list_all2 (encodes F) (Dir_item n # items) bs \<Longrightarrow> concat bs \<noteq> []"
  by (cases bs) (auto simp: header_def byte_of_bool_def)

text \<open>The receiver's side for an archive.\<close>

lemma receiver_unpacks:
  assumes "json_laws J text" and "text name" and "text code" and "evp_laws E digest" and "zstd_laws Z F"
    and "j = json_object J (send_fields name (of_nat (length (concat bs))) (binaryToHumanReadable (digest (concat bs))) True)"
    and "texts_fit J j code t ans q" and "length (concat bs) < 2 ^ 64"
    and "list_all2 (encodes F) (Dir_item name # flatten_entries name es) bs"
    and "valid_name name" and "length name \<le> PATH_MAX_LEN" and "packable Z name es"
    and "says_yes input" and "\<not> fs_exists h name" and "of_nat (length (concat bs)) \<le> free_space h (temp_dir h)"
    and "new_file h (path_append (DROP_FILE_RECEIVER_TMP_DIR h) name) qr"
    and "resolve h (current_path h) = Some qc" and "lookup (root h) qc = Some (Dir old)"
    and "name \<notin> fst ` set old" and "diverge qr qc" and "concat ps = concat bs" and "short_messages ps"
  shows "\<exists>r1. ReceiveClient.receiveFile E Z J code
      \<lparr>sock = endpoint (frame t @ concat (map frame ps)), machine = h, interaction = input\<rparr> = Some (Inr (), r1) \<and>
    tx (sock r1) = frame q @ frame ACK @ frame ACK \<and> lookup (root (machine r1)) (qc @ [name]) = Some (Dir (prune es)) \<and>
    \<not> fs_exists (machine r1) (path_append (DROP_FILE_RECEIVER_TMP_DIR h) name) \<and>
    (\<forall>x. diverge qr x \<and> diverge (qc @ [name]) x \<longrightarrow> lookup (root (machine r1)) x = lookup (root h) x)"
proof -
  let ?n = "of_nat (length (concat bs)) :: size_t"
  let ?r = "\<lparr>sock = endpoint (frame t @ concat (map frame ps)), machine = h, interaction = input\<rparr>"
  note x = exchanged_texts [OF assms(1,2,3,6,7)]
  have n: "unat ?n = length (concat bs)" using unat_of_nat_size [OF assms(8)] .
  have n0: "?n \<noteq> 0" using n archive_not_empty [OF assms(9)] by (metis length_0_conv unat_0)
  have tf: "length t \<le> 1048576" "length q < 2 ^ 64" "json_dump J (createReceiveMessage J code) = Some q"
    using assms(7) by (auto simp: texts_fit_def)
  have tk: "take (unat ?n) (concat ps) = concat bs" "unat ?n \<le> length (concat ps)" using n assms(21) by simp_all
  have off: "offered J t j name ?n (binaryToHumanReadable (digest (take (unat ?n) (concat ps)))) True (machine ?r)"
    unfolding tk(1) using tf(1) x(1,4) n0 assms(14,15) by (simp add: offered_def base_dir_def)
  have rr: "writable (sock ?r)" "rx (sock ?r) = frame t @ concat (map frame ps) @ []" "says_yes (interaction ?r)"
    "new_file (machine ?r) (path_append (DROP_FILE_RECEIVER_TMP_DIR (machine ?r)) name) qr"
    "resolve (machine ?r) (current_path (machine ?r)) = Some qc" "lookup (root (machine ?r)) qc = Some (Dir old)"
    using assms(13,16,17,18) by simp_all
  show ?thesis
    using receiveFile_directory [OF assms(4,5) tf(3,2) rr(1,2) off rr(3,4) assms(22) tk(2,1) assms(9-12) rr(5,6) assms(19,20)] x(9)
    by auto
qed

text \<open>
  A directory gets from one machine to the other.  Let a sender announce a directory that can be
  packed, the server draw a free code for it, and a receiver with that code agree and have room for
  the archive and no entry of that name.  Then there is a run of the three programs in which each reads
  just what the others write to it: the sender is told the code, streams the archive and leaves its
  machine as it was, without the temporary archive; the server's table is as before; and the receiver
  ends with the directory's tree in its working directory, without the downloaded archive and with
  everything else as before.
\<close>

theorem directory_transfer:
  assumes "json_laws J text" and "evp_laws E digest" and "avail_ok avail" and "zstd_laws Z F"
    and "p = path_append (DROP_FILE_SENDER_TMP_DIR hs) (filename dir)" and "can_pack Z hs dir p es"
    and "createArchive Z dir p hs = Some (Inr (), h2)" and "open_in h2 p = Some d" and "length d < 2 ^ 64"
    and "text (filename dir)"
    and "j = json_object J (send_fields (filename dir) (of_nat (length d)) (binaryToHumanReadable (digest d)) True)"
    and "manager srv = Some m" and "manager_ok m" and "registerSender ds now a j m = Some (Inr code, m1)"
    and "text code" and "texts_fit J j code t ans q" and "a \<noteq> w"
    and "says_yes input" and "\<not> fs_exists hr (filename dir)" and "of_nat (length d) \<le> free_space hr (temp_dir hr)"
    and "new_file hr (path_append (DROP_FILE_RECEIVER_TMP_DIR hr) (filename dir)) qr"
    and "resolve hr (current_path hr) = Some qc" and "lookup (root hr) qc = Some (Dir old)"
    and "filename dir \<notin> fst ` set old" and "diverge qr qc"
  shows "\<exists>A B C D s1 s2 srv1 srv2 r1 m2.
    sendFSEntryMetadata E Z J dir \<lparr>sock = endpoint B, machine = hs\<rparr> = Some (Inr (RAIIFSEntry_init p True, code), s1) \<and>
    sendFSEntry avail (RAIIFSEntry_init p True) s1 = (Inr (), s2) \<and> tx (sock s2) = A \<and> machine s2 = hs \<and>
    first_read J ds now a (srv\<lparr>conn := (conn srv)(a := endpoint A, w := endpoint C)\<rparr>) = Some (Inr (), srv1) \<and>
    first_read J ds' now' w srv1 = Some (Inr (), srv2) \<and> tx (conn srv2 a) = B \<and> tx (conn srv2 w) = D \<and>
    manager srv2 = Some m2 \<and> sessions m2 = sessions m \<and>
    ReceiveClient.receiveFile E Z J code \<lparr>sock = endpoint D, machine = hr, interaction = input\<rparr> = Some (Inr (), r1) \<and>
    tx (sock r1) = C \<and> lookup (root (machine r1)) (qc @ [filename dir]) = Some (Dir (prune es)) \<and>
    \<not> fs_exists (machine r1) (path_append (DROP_FILE_RECEIVER_TMP_DIR hr) (filename dir)) \<and>
    (\<forall>x. diverge qr x \<and> diverge (qc @ [filename dir]) x \<longrightarrow> lookup (root (machine r1)) x = lookup (root hr) x)"
proof -
  let ?n = "of_nat (length d) :: size_t" and ?B = "frame ans @ frame ACK @ frame ACK" and ?e = "RAIIFSEntry_init p True"
  let ?s = "\<lparr>sock = endpoint ?B, machine = hs\<rparr>"
  have pk: "valid_name (filename dir)" "length (filename dir) \<le> PATH_MAX_LEN" "packable Z (filename dir) es"
    using assms(6) by (simp_all add: can_pack_def)
  have fp: "filename p = filename dir" unfolding assms(5) using pk(1) by (rule filename_path_append)
  have "p = path_append (DROP_FILE_SENDER_TMP_DIR (machine ?s)) (filename dir)" "can_pack Z (machine ?s) dir p es"
    using assms(5,6) by simp_all
  from can_pack_compressed [OF assms(4) this] obtain bs where
    cn: "compressIfNecessary Z dir ?s = Some (Inr (?e, True), \<lparr>sock = endpoint ?B, machine = h2\<rparr>)"
    and d: "d = concat bs" and bs: "list_all2 (encodes F) (Dir_item (filename dir) # flatten_entries (filename dir) es) bs"
    and rm: "RAIIFSEntry_destroy ?e h2 = hs"
    using assms(7,8) by auto
  have n: "unat ?n = length d" using unat_of_nat_size [OF assms(9)] .
  have "d \<noteq> []" unfolding d using bs by (rule archive_not_empty)
  then have n0: "?n \<noteq> 0" using n by (metis length_0_conv unat_0)
  have tf: "json_dump J j = Some t" "length t < 2 ^ 64" using assms(16) by (auto simp: texts_fit_def)
  note x = exchanged_texts [OF assms(1,10,15,11,16)]
  have e: "entry_path ?e = p" by (simp add: RAIIFSEntry_init_def)
  obtain s1 s2 ms where s: "sendFSEntryMetadata E Z J dir ?s = Some (Inr (?e, code), s1)"
    "sendFSEntry avail ?e s1 = (Inr (), s2)" "machine s2 = hs"
    "tx (sock s2) = frame t @ concat (map frame ms)" "concat ms = d" "short_messages ms"
    using sender_side [OF assms(2,3) cn, unfolded e fp rm, OF assms(8,9) tf(1) [unfolded assms(11)] tf(2) x(5)]
    unfolding x(7) by blast
  have nm: "unat ?n = length (concat ms)" using n s(5) by simp
  from server_side [OF assms(1,10,15,11,16,12,13,14,17) s(6) n0 nm, of ds' now'] obtain srv1 srv2 ps m2 where srv:
    "first_read J ds now a (srv\<lparr>conn := (conn srv)(a := endpoint (frame t @ concat (map frame ms)),
      w := endpoint (frame q @ frame ACK @ frame ACK))\<rparr>) = Some (Inr (), srv1)"
    "first_read J ds' now' w srv1 = Some (Inr (), srv2)"
    "tx (conn srv2 a) = ?B" "tx (conn srv2 w) = frame t @ concat (map frame ps)"
    "manager srv2 = Some m2" "sessions m2 = sessions m" and ps: "concat ps = d" "short_messages ps"
    unfolding s(5) by blast
  from receiver_unpacks [OF assms(1,10,15,2,4) assms(11,16,9) [unfolded d] bs pk assms(18,19) assms(20) [unfolded d] assms(21-25)
      ps(1) [unfolded d] ps(2)] obtain r1 where r1:
    "ReceiveClient.receiveFile E Z J code \<lparr>sock = endpoint (frame t @ concat (map frame ps)), machine = hr, interaction = input\<rparr> =
      Some (Inr (), r1)" "tx (sock r1) = frame q @ frame ACK @ frame ACK"
    "lookup (root (machine r1)) (qc @ [filename dir]) = Some (Dir (prune es))"
    "\<not> fs_exists (machine r1) (path_append (DROP_FILE_RECEIVER_TMP_DIR hr) (filename dir))"
    "\<forall>x. diverge qr x \<and> diverge (qc @ [filename dir]) x \<longrightarrow> lookup (root (machine r1)) x = lookup (root hr) x" by blast
  show ?thesis using s(1-4) srv r1 by blast
qed

text \<open>The directory \<open>d\<close> with the file \<open>f\<close> in it goes to a machine with an empty working directory.\<close>

definition receiving_host :: host where
  "receiving_host = machine archive_receiver"

lemma receiving_host_facts:
  "\<not> fs_exists receiving_host ''d''" "(44 :: size_t) \<le> free_space receiving_host (temp_dir receiving_host)"
  "new_file receiving_host (path_append (DROP_FILE_RECEIVER_TMP_DIR receiving_host) ''d'') [''tmp'', ''drop-file'', ''receiver'', ''d'']"
  "resolve receiving_host (current_path receiving_host) = Some [''home'']"
  "lookup (root receiving_host) [''home''] = Some (Dir [])"
  "diverge [''tmp'', ''drop-file'', ''receiver'', ''d''] [''home'']"
proof -
  have h: "cwd receiving_host = [''home'']" "temp_dir receiving_host = ''/tmp''"
    "root receiving_host = Dir [(''home'', Dir []), (''tmp'', Dir [(''drop-file'', Dir [(''receiver'', Dir [])])])]"
    "free_space receiving_host = (\<lambda>_. 1000)"
    by (simp_all add: receiving_host_def archive_receiver_def Utils.sample_host_def)
  have p: "path_append (DROP_FILE_RECEIVER_TMP_DIR receiving_host) ''d'' = ''/tmp/drop-file/receiver/d''"
    by (simp add: DROP_FILE_RECEIVER_TMP_DIR_def h path_append_def is_absolute_def filename_def)
  show "\<not> fs_exists receiving_host ''d''" "(44 :: size_t) \<le> free_space receiving_host (temp_dir receiving_host)"
    "new_file receiving_host (path_append (DROP_FILE_RECEIVER_TMP_DIR receiving_host) ''d'') [''tmp'', ''drop-file'', ''receiver'', ''d'']"
    "resolve receiving_host (current_path receiving_host) = Some [''home'']"
    "lookup (root receiving_host) [''home''] = Some (Dir [])"
    unfolding p by (simp_all add: h fs_exists_def stat_def resolve_def is_absolute_def new_file_def current_path_def)
  show "diverge [''tmp'', ''drop-file'', ''receiver'', ''d''] [''home'']"
    unfolding diverge_def by (rule exI [of _ "[]"], rule exI [of _ "''tmp''"], rule exI [of _ "''home''"]) simp
qed

lemma directory_texts:
  assumes "length x = 4"
  defines "j \<equiv> json_object flat_json (send_fields ''d'' 44 (binaryToHumanReadable x) True)"
  shows "texts_fit flat_json j ''able-art-7'' (put_flat j)
     (put_flat (flat_set (Scalar F_null) CODE_WORDS_KEY (J_string ''able-art-7'')))
     (put_flat (createReceiveMessage flat_json ''able-art-7''))"
proof -
  let ?f = "send_fields ''d'' 44 (binaryToHumanReadable x) True"
  have "distinct (map fst ?f)" "?f \<noteq> []" by (simp_all add: send_fields_def key_defs)
  moreover have "length (binaryToHumanReadable x) = 8" using assms(1) by simp
  ultimately have "length (put_flat j) \<le> 1000"
    unfolding j_def by (simp add: flat_object) (simp add: send_fields_def key_defs put_text_def)
  then show ?thesis
    by (simp add: texts_fit_def createReceiveMessage_def key_defs put_text_def)
qed

theorem directory_transfer_witness:
  "\<exists>r1 D. ReceiveClient.receiveFile take4_evp held_zstd flat_json ''able-art-7''
     \<lparr>sock = endpoint D, machine = receiving_host, interaction = ''y''\<rparr> = Some (Inr (), r1) \<and>
     lookup (root (machine r1)) [''home'', ''d''] = Some (Dir [(''f'', File ''hello'')])"
proof -
  let ?h = "machine directory_client" and ?es = "[(''f'', File ''hello'')]"
  let ?p = "path_append (DROP_FILE_SENDER_TMP_DIR ?h) (filename ''/d'')"
  note dc = directory_client_facts
  have pk: "can_pack held_zstd ?h ''/d'' ?p ?es" unfolding dc(2) by (rule can_pack_sample)
  obtain bs h2 where a: "createArchive held_zstd ''/d'' ?p ?h = Some (Inr (), h2)" "open_in h2 ?p = Some (concat bs)"
    "list_all2 (encodes held_frame) (Dir_item ''d'' # flatten_entries ''d'' ?es) bs"
    using can_pack_compressed [OF held_zstd_laws refl pk] unfolding dc(2) by blast
  then have la: "length (concat bs) = 44"
    by (auto simp: list_all2_Cons1 held_frame_def length_header path_append_def is_absolute_def filename_def)
  let ?j = "json_object flat_json (send_fields ''d'' (of_nat (length (concat bs))) (binaryToHumanReadable (take 4 (concat bs))) True)"
  have j: "?j = json_object flat_json (send_fields ''d'' 44 (binaryToHumanReadable (take 4 (concat bs))) True)"
    unfolding la by simp
  have "length (take 4 (concat bs)) = 4" using la by simp
  from directory_texts [OF this] have tx: "texts_fit flat_json ?j ''able-art-7'' (put_flat ?j)
     (put_flat (flat_set (Scalar F_null) CODE_WORDS_KEY (J_string ''able-art-7'')))
     (put_flat (createReceiveMessage flat_json ''able-art-7''))" unfolding j .
  obtain m1 where reg: "registerSender [(0, 1, 7)] 9 0 ?j sample_manager = Some (Inr ''able-art-7'', m1)"
    using sample_code_drawn by blast
  have av: "avail_ok (\<lambda>s. 3)" and l64: "length (concat bs) < 2 ^ 64" by (simp_all add: avail_ok_def la)
  have mg: "manager (\<lparr>conn = (\<lambda>_. endpoint []), manager = Some sample_manager\<rparr>) = Some sample_manager" by simp
  note rh = receiving_host_facts
  have r: "says_yes ''y''" "of_nat (length (concat bs)) \<le> free_space receiving_host (temp_dir receiving_host)" "''d'' \<notin> fst ` set []"
    using rh(2) by (simp_all add: says_yes_def read_char_def ReceiveClient.is_space_def la)
  show ?thesis
    using directory_transfer [OF flat_json_laws take4_evp_laws av held_zstd_laws refl pk a(1,2) l64, unfolded dc(2),
        OF TrueI refl mg sample_manager_ok reg TrueI tx zero_neq_one r(1) rh(1) r(2) rh(3-5) r(3) rh(6),
        where ds' = "[]" and now' = 0] by auto
qed

end
