(* ===== verification/Schedule.thy ===== *)
theory Schedule
  imports Server
begin

text \<open>
  What else the server does while a sender waits: it accepts other connections, serves other clients
  and sweeps its table.  The events of \<open>Server\<close> as a function, the schedules made of them, and that a
  schedule does not touch the sessions that are neither served nor asked for.
\<close>

section \<open>Events and schedules\<close>

datatype event =
    Accepted bool "error + unit" nat socket
  | Served "draws list" int nat
  | Swept "nat \<Rightarrow> int"

text \<open>The event happens, when it can.\<close>

fun happens :: "'j json_api \<Rightarrow> int \<Rightarrow> event \<Rightarrow> 'j world \<Rightarrow> 'j world option" where
  "happens J T (Accepted failed handshake i k) w =
     (if \<not> down w \<and> phase_of w i = Unused then Some (acceptNewConnection failed handshake i k w) else None)"
| "happens J T (Served ds now i) w = (if \<not> down w \<and> phase_of w i = Reading then serveFirstRead J ds now i w else None)"
| "happens J T (Swept clock) w = (if \<not> down w then Some (sweepSessions T clock w) else None)"

text \<open>The events are the steps of the server.\<close>

lemma server_step_happens: "server_step J T w w' \<longleftrightarrow> (\<exists>e. happens J T e w = Some w')"
proof
  assume "server_step J T w w'"
  then show "\<exists>e. happens J T e w = Some w'"
  proof (cases rule: server_step.cases)
    case (accept i failed handshake k)
    then show ?thesis by (intro exI [of _ "Accepted failed handshake i k"]) simp
  next
    case (serve i ds now)
    then show ?thesis by (intro exI [of _ "Served ds now i"]) simp
  next
    case (sweep clock)
    then show ?thesis by (intro exI [of _ "Swept clock"]) simp
  qed
next
  assume "\<exists>e. happens J T e w = Some w'"
  then obtain e where "happens J T e w = Some w'" by blast
  then show "server_step J T w w'"
    by (cases e) (auto split: if_splits intro: server_step.intros)
qed

primrec schedule :: "'j json_api \<Rightarrow> int \<Rightarrow> event list \<Rightarrow> 'j world \<Rightarrow> 'j world option" where
  "schedule J T [] w = Some w"
| "schedule J T (e # es) w = Option.bind (happens J T e w) (schedule J T es)"

lemma schedule_runs: "schedule J T es w = Some w' \<Longrightarrow> (server_step J T)\<^sup>*\<^sup>* w w'"
proof (induction es arbitrary: w)
  case (Cons e es)
  then obtain v where v: "happens J T e w = Some v" "schedule J T es v = Some w'"
    by (auto simp: bind_eq_Some_conv)
  then have "server_step J T w v" using server_step_happens by blast
  with Cons.IH [OF v(2)] show ?case by simp
qed simp

text \<open>The sessions whose first read a schedule serves.\<close>

fun served_in :: "event list \<Rightarrow> nat list" where
  "served_in [] = []"
| "served_in (Served ds now i # es) = i # served_in es"
| "served_in (_ # es) = served_in es"

section \<open>Connections that a program does not use\<close>

definition swapped :: "nat set \<Rightarrow> (nat \<Rightarrow> socket) \<Rightarrow> 'j server \<Rightarrow> 'j server" where
  "swapped A f s = s\<lparr>conn := (\<lambda>i. if i \<in> A then f i else conn s i)\<rparr>"

definition insulated :: "nat set \<Rightarrow> ('j server, 'a) prog \<Rightarrow> bool" where
  "insulated A p \<longleftrightarrow> (\<forall>s f. p (swapped A f s) = (fst (p s), swapped A f (snd (p s))))"

named_theorems insulated_rules \<open>programs that do not use the connections of a set\<close>

lemma swapped_sel [simp]: "manager (swapped A f s) = manager s" "i \<in> A \<Longrightarrow> conn (swapped A f s) i = f i"
  "i \<notin> A \<Longrightarrow> conn (swapped A f s) i = conn s i"
  by (simp_all add: swapped_def)

lemma swapped_manager [simp]: "(swapped A f s)\<lparr>manager := m\<rparr> = swapped A f (s\<lparr>manager := m\<rparr>)"
  unfolding swapped_def by (rule server.equality) (simp_all add: fun_eq_iff)

lemma swapped_conn: "i \<notin> A \<Longrightarrow> (swapped A f s)\<lparr>conn := (conn (swapped A f s))(i := k)\<rparr> = swapped A f (s\<lparr>conn := (conn s)(i := k)\<rparr>)"
  unfolding swapped_def by (rule server.equality) (auto simp: fun_eq_iff)

lemma swapped_self: "swapped A (conn s) s = s"
  by (simp add: swapped_def)

lemma insulatedD: "insulated A p \<Longrightarrow> p s = (r, s') \<Longrightarrow> p (swapped A f s) = (r, swapped A f s')"
  unfolding insulated_def by (metis fst_conv snd_conv)

lemma insulated_untouched:
  assumes "insulated A p" and "i \<in> A"
  shows "conn (snd (p s)) i = conn s i"
proof -
  have "p s = (fst (p s), swapped A (conn s) (snd (p s)))"
    using assms(1) unfolding insulated_def by (metis swapped_self)
  then have "snd (p s) = swapped A (conn s) (snd (p s))" by (metis snd_conv)
  then show ?thesis using assms(2) swapped_sel(2) by metis
qed

lemma insulated_still [insulated_rules]:
  "insulated A (ret x)" "insulated A (throw e)" "insulated A (of_sum r)" "insulated A (of_option e v)"
  by (simp_all add: insulated_def) (cases v; simp)

lemma insulated_on [insulated_rules]: "i \<notin> A \<Longrightarrow> insulated A (on i p)"
  by (auto simp: insulated_def on_def swapped_def fun_eq_iff split: prod.splits)

lemma insulated_andthen [insulated_rules]:
  assumes "insulated A m" and "\<And>x. insulated A (f x)"
  shows "insulated A (andthen m f)"
  unfolding insulated_def
proof (intro allI)
  fix s g
  obtain r s' where m: "m s = (r, s')" by fastforce
  from insulatedD [OF assms(1) m] m show "andthen m f (swapped A g s) = (fst (andthen m f s), swapped A g (snd (andthen m f s)))"
    using assms(2) by (cases r) (simp_all add: andthen_def insulated_def)
qed

lemma relay_loop_insulated [insulated_rules]:
  assumes "w \<notin> A" and "a \<notin> A"
  shows "insulated A (relay_loop w a got expected)"
  unfolding insulated_def
proof (intro allI)
  fix s f
  show "relay_loop w a got expected (swapped A f s) =
    (fst (relay_loop w a got expected s), swapped A f (snd (relay_loop w a got expected s)))"
    using assms
  proof (induction w a got expected s rule: relay_loop.induct)
    case (1 w a got expected s)
    show ?case
    proof (cases "got < expected")
      case False
      then show ?thesis by (subst (1 2 3) relay_loop.simps) simp
    next
      case True
      obtain r s1 where r: "on a receive s = (r, s1)" by fastforce
      have r': "on a receive (swapped A f s) = (r, swapped A f s1)" using insulatedD [OF insulated_on r] 1(3) by blast
      show ?thesis
      proof (cases r)
        case (Inl e)
        then show ?thesis using True r r' by (subst (1 2 3) relay_loop.simps) simp
      next
        case (Inr d)
        let ?n = "min (expected - got) (of_nat (length d))"
        obtain q s2 where q: "on w (send (take (unat ?n) d)) s1 = (q, s2)" by fastforce
        have q': "on w (send (take (unat ?n) d)) (swapped A f s1) = (q, swapped A f s2)"
          using insulatedD [OF insulated_on q] 1(2) by blast
        show ?thesis
        proof (cases q)
          case (Inl e)
          then show ?thesis using True r r' Inr q q' by (subst (1 2 3) relay_loop.simps) (simp add: Let_def)
        next
          case u: (Inr u)
          have "relay_loop w a (got + ?n) expected (swapped A f s2) =
              (fst (relay_loop w a (got + ?n) expected s2), swapped A f (snd (relay_loop w a (got + ?n) expected s2)))"
            using 1(1) [OF True r [symmetric] Inr refl refl q [symmetric] u] 1(2,3) by blast
          then show ?thesis using True r r' Inr q q' u by (subst (1 2 3) relay_loop.simps) (simp add: Let_def)
        qed
      qed
    qed
  qed
qed

lemma receiveFile_insulated [insulated_rules]: "w \<notin> A \<Longrightarrow> a \<notin> A \<Longrightarrow> insulated A (receiveFile J w a meta)"
  unfolding receiveFile_def by (intro insulated_rules)

lemma catch_first_read_insulated:
  assumes "w \<notin> A" and "catch_first_read w (r, s) = (r', s')"
  shows "catch_first_read w (r, swapped A f s) = (r', swapped A f s')"
  using assms insulatedD [OF insulated_on [OF assms(1)]]
  by (auto simp: catch_first_read_def split: sum.splits error.splits if_splits)

text \<open>
  A first read whose effect on the table leaves the entries of \<open>A\<close> does not use their connections.
\<close>

definition spared :: "nat set \<Rightarrow> 'j sessions_manager \<Rightarrow> 'j sessions_manager \<Rightarrow> bool" where
  "spared A m m' \<longleftrightarrow> (\<forall>code t. sessions m code = Some t \<and> client_session t \<in> A \<longrightarrow> sessions m' code \<noteq> None)"

lemma registerSession_insulated:
  assumes "w \<notin> A" and "manager s = Some m" and "manager_ok m" and "registerSession J ds now w json s = Some (r, s')"
    and "manager s' = Some m'" and "spared A m m'"
  shows "registerSession J ds now w json (swapped A f s) = Some (r, swapped A f s')"
proof (cases "json_get (json_get_string J) J json ACTION_KEY = Inr ''send''")
  case True
  obtain x m1 where reg: "registerSender ds now w json m = Some (x, m1)"
    using assms(2,4) True by (auto simp: registerSession_def split: option.splits)
  have "insulated A (andthen (of_option e v) (\<lambda>text. on w (send text)) :: ('a server, unit) prog)" for e v
    using assms(1) by (intro insulated_rules)
  from insulatedD [OF this] show ?thesis
    using assms(2,4) True reg by (auto simp: registerSession_def Let_def split: sum.splits)
next
  case False
  show ?thesis
  proof (cases "json_get (json_get_string J) J json CODE_WORDS_KEY")
    case (Inl e)
    then show ?thesis using assms(2,4) False by (simp add: registerSession_def)
  next
    case (Inr code)
    obtain g m1 where g: "getSenderWithMetadata code m = (g, m1)" by fastforce
    note spec = getSender_spec [OF assms(3) g]
    show ?thesis
    proof (cases g)
      case (Inl e)
      then show ?thesis using assms(2,4) False g \<open>json_get _ J json CODE_WORDS_KEY = Inr code\<close>
        by (auto simp: registerSession_def)
    next
      case (Inr am)
      obtain a meta where am: "am = (a, meta)" by fastforce
      have run: "receiveFile J w a meta (s\<lparr>manager := Some m1\<rparr>) = (r, s')"
        using assms(2,4) False \<open>json_get _ J json CODE_WORDS_KEY = Inr code\<close> g Inr am by (simp add: registerSession_def)
      have "manager s' = Some m1" using receiveFile_frame [of J w a meta "s\<lparr>manager := Some m1\<rparr>"] run by simp
      then have "sessions m' code = None" using assms(5) spec by simp
      moreover obtain t where "sessions m code = Some t" "client_session t = a"
        using spec Inr am by (auto split: option.splits)
      ultimately have "a \<notin> A" using assms(6) unfolding spared_def by blast
      from insulatedD [OF receiveFile_insulated [OF assms(1) this] run, of f] show ?thesis
        using assms(2) False \<open>json_get _ J json CODE_WORDS_KEY = Inr code\<close> g Inr am by (simp add: registerSession_def)
    qed
  qed
qed

lemma first_read_insulated:
  assumes "w \<notin> A" and "manager s = Some m" and "manager_ok m" and "first_read J ds now w s = Some (r, s')"
    and "manager s' = Some m'" and "spared A m m'"
  shows "first_read J ds now w (swapped A f s) = Some (r, swapped A f s')"
  using assms(4)
proof (cases rule: first_read_cases)
  case (dropped s1)
  then show ?thesis using insulatedD [OF insulated_on [OF assms(1)] dropped(1), of f] by (simp add: first_read_def)
next
  case (message content s1)
  have m1: "manager s1 = Some m" using assms(2) on_any_manager [OF message(1)] by simp
  have "handleFirstRead J ds now w content (swapped A f s1) = Some (r, swapped A f s')"
  proof (cases "sum_bind (create J content) (\<lambda>json. sum_bind (json_get (json_get_string J) J json ACTION_KEY) (\<lambda>_. Inr json))")
    case (Inl e)
    then show ?thesis using message(2) catch_first_read_insulated [OF assms(1)] by (simp add: handleFirstRead_def)
  next
    case (Inr json)
    then obtain r1 s2 where q: "registerSession J ds now w json s1 = Some (r1, s2)" "catch_first_read w (r1, s2) = (r, s')"
      using message(2) by (auto simp: handleFirstRead_def)
    have "manager s2 = Some m'" using assms(5) catch_first_read_manager [of w r1 s2] q(2) by simp
    with registerSession_insulated [OF assms(1) m1 assms(3) q(1) _ assms(6)]
      catch_first_read_insulated [OF assms(1) q(2)] Inr show ?thesis by (simp add: handleFirstRead_def)
  qed
  then show ?thesis using insulatedD [OF insulated_on [OF assms(1)] message(1), of f] by (simp add: first_read_def)
qed

lemma first_read_untouched:
  assumes "w \<notin> A" and "manager s = Some m" and "manager_ok m" and "first_read J ds now w s = Some (r, s')"
    and "manager s' = Some m'" and "spared A m m'" and "i \<in> A"
  shows "conn s' i = conn s i"
proof -
  have "first_read J ds now w s = Some (r, swapped A (conn s) s')"
    using first_read_insulated [OF assms(1-6), of "conn s"] unfolding swapped_self .
  then show ?thesis using assms(4,7) swapped_sel(2) by (metis option.inject snd_conv)
qed

section \<open>A schedule during which a sender goes on waiting\<close>

text \<open>With other bytes for two connections.\<close>

definition with_conns :: "nat set \<Rightarrow> (nat \<Rightarrow> socket) \<Rightarrow> 'j world \<Rightarrow> 'j world" where
  "with_conns A f w = w\<lparr>srv := swapped A f (srv w)\<rparr>"

lemma with_conns_sel [simp]: "down (with_conns A f w) = down w" "phase_of (with_conns A f w) = phase_of w"
  "srv (with_conns A f w) = swapped A f (srv w)"
  by (simp_all add: with_conns_def)

text \<open>The session \<open>a\<close> waits under one code, before and after; \<open>b\<close> has not been served.\<close>

lemma world_ok_managed:
  assumes "world_ok J text w"
  obtains m where "manager (srv w) = Some m" "manager_ok m" "one_code m" "\<And>i. waits m i \<longleftrightarrow> phase_of w i = Waiting"
  using assms by (auto simp: world_ok_code server_ok_def)

lemma kept_entry:
  assumes "one_code m" and "\<And>c t. sessions m' c = Some t \<Longrightarrow> sessions m c = Some t \<or> client_session t = i" and "i \<noteq> a"
    and "waits m' a" and "sessions m code = Some t" and "client_session t = a"
  shows "sessions m' code = Some t"
proof -
  obtain c u where u: "sessions m' c = Some u" "client_session u = a" using assms(4) by (auto simp: waits_def)
  then have "sessions m c = Some u" using assms(2,3) by blast
  moreover from this have "c = code" using assms(1,5,6) u(2) unfolding one_code_def by blast
  ultimately show ?thesis using u(1) assms(5) by simp
qed

text \<open>What an event leaves of a waiting session and of sessions \<open>B\<close> not served yet, and that it does not depend on
  their connections.\<close>

definition undisturbed :: "'j json_api \<Rightarrow> int \<Rightarrow> event list \<Rightarrow> nat \<Rightarrow> nat set \<Rightarrow> 'j world \<Rightarrow> 'j world \<Rightarrow> bool" where
  "undisturbed J T es a B w w' \<longleftrightarrow>
     (\<forall>f. schedule J T es (with_conns (insert a B) f w) = Some (with_conns (insert a B) f w')) \<and>
     (\<forall>i \<in> insert a B. conn (srv w') i = conn (srv w) i) \<and> (\<forall>b \<in> B. phase_of w' b = Reading) \<and>
     (\<forall>m code t. manager (srv w) = Some m \<and> sessions m code = Some t \<and> client_session t = a \<longrightarrow>
        (\<exists>m'. manager (srv w') = Some m' \<and> sessions m' code = Some t))"

lemma undisturbed_event:
  assumes "\<And>f. happens J T e (with_conns (insert a B) f w) = Some (with_conns (insert a B) f w')"
    and "\<And>i. i \<in> insert a B \<Longrightarrow> conn (srv w') i = conn (srv w) i" and "\<And>b. b \<in> B \<Longrightarrow> phase_of w' b = Reading"
    and "manager (srv w) = Some m" and "manager (srv w') = Some m'"
    and "\<And>code t. sessions m code = Some t \<Longrightarrow> client_session t = a \<Longrightarrow> sessions m' code = Some t"
  shows "undisturbed J T [e] a B w w'"
  using assms by (simp add: undisturbed_def)

lemma serve_undisturbed:
  assumes "world_ok J text w" and "happens J T (Served ds now i) w = Some w'" and "phase_of w a = Waiting" and "phase_of w' a = Waiting"
    and "\<forall>b \<in> B. phase_of w b = Reading" and "i \<notin> B"
  shows "undisturbed J T [Served ds now i] a B w w'"
proof -
  have up: "\<not> down w" "phase_of w i = Reading" "serveFirstRead J ds now i w = Some w'"
    using assms(2) by (simp_all split: if_splits)
  obtain m where m: "manager (srv w) = Some m" "manager_ok m" "one_code m" and wt: "\<And>j. waits m j \<longleftrightarrow> phase_of w j = Waiting"
    using world_ok_managed [OF assms(1)] by blast
  obtain r s' where fr: "first_read J ds now i (srv w) = Some (r, s')"
    and w': "w' = w\<lparr>srv := s', phase_of := settle (manager s') {i} (phase_of w), down := (case r of Inl e \<Rightarrow> True | Inr _ \<Rightarrow> False)\<rparr>"
    using up(3) by (auto simp: serveFirstRead_def split: option.splits)
  obtain m' where m': "manager s' = Some m'" "table_step i m m'" using first_read_frame [OF m(1,2) fr] by blast
  have "world_ok J text w'" using serve_world(1) [OF assms(1) up(2,3)] .
  then have "waits m' a" using m'(1) assms(4) by (auto simp: w' world_ok_code)
  moreover have ia: "i \<noteq> a" using up(2) assms(3) by auto
  moreover have "sessions m' c = Some t \<Longrightarrow> sessions m c = Some t \<or> client_session t = i" for c t
    using m'(2) by (auto simp: table_step_def split: if_splits)
  ultimately have kept: "sessions m code = Some t \<Longrightarrow> client_session t = a \<Longrightarrow> sessions m' code = Some t" for code t
    using kept_entry [OF m(3)] by blast
  have "\<not> waits m b" if "b \<in> B" for b using wt assms(5) that by simp
  then have sp: "spared (insert a B) m m'" using kept by (fastforce simp: spared_def waits_def)
  have ab: "i \<notin> insert a B" using ia assms(6) by simp
  have "serveFirstRead J ds now i (with_conns (insert a B) f w) = Some (with_conns (insert a B) f w')" for f
    using first_read_insulated [OF ab m(1,2) fr m'(1) sp] by (simp add: serveFirstRead_def w' with_conns_def)
  moreover have "conn (srv w') j = conn (srv w) j" if "j \<in> (insert a B)" for j
    using first_read_untouched [OF ab m(1,2) fr m'(1) sp that] by (simp add: w')
  moreover have "phase_of w' b = Reading" if "b \<in> B" for b using assms(5,6) that by (auto simp: w' settle_def)
  moreover have "manager (srv w') = Some m'" using m'(1) by (simp add: w')
  ultimately show ?thesis using up(1,2) by (intro undisturbed_event [OF _ _ _ m(1) _ kept]) simp_all
qed

lemma sweep_undisturbed:
  assumes "world_ok J text w" and "happens J T (Swept clock) w = Some w'" and "phase_of w' a = Waiting" and "\<forall>b \<in> B. phase_of w b = Reading"
  shows "undisturbed J T [Swept clock] a B w w'"
proof -
  have w': "w' = sweepSessions T clock w" and up: "\<not> down w" using assms(2) by (simp_all split: if_splits)
  obtain m where m: "manager (srv w) = Some m" "manager_ok m" "one_code m"
    using world_ok_managed [OF assms(1)] by blast
  let ?m = "terminateTimeoutClients T clock m"
  have mok': "manager_ok ?m" by (rule terminate_manager_ok [OF m(2)])
  have sub: "sessions ?m c = Some t \<Longrightarrow> sessions m c = Some t" for c t
    using sweep_subset [of T clock 0 "senders_sessions m"]
    by (auto simp: sessions_entry m(2) mok') (simp add: terminateTimeoutClients_def subset_iff)
  have man: "manager (srv w') = Some ?m" by (simp add: w' sweepSessions_def m(1) Let_def)
  have "world_ok J text w'" unfolding w' by (rule sweep_world(1) [OF assms(1)])
  then have wa: "waits ?m a" using man assms(3) by (auto simp: world_ok_code)
  have kept: "sessions m code = Some t \<Longrightarrow> client_session t = a \<Longrightarrow> sessions ?m code = Some t" for code t
    by (rule kept_entry [OF m(3), of ?m "Suc a" a]) (use sub wa in auto)
  have "sweepSessions T clock (with_conns (insert a B) f w) = with_conns (insert a B) f (sweepSessions T clock w)" for f
    by (simp add: sweepSessions_def Let_def with_conns_def)
  moreover have "conn (srv w') j = conn (srv w) j" "b \<in> B \<Longrightarrow> phase_of w' b = Reading" for j b
    using assms(4) by (simp_all add: w' sweepSessions_def Let_def settle_def)
  ultimately show ?thesis using up w' by (intro undisturbed_event [OF _ _ _ m(1) man kept]) simp_all
qed

lemma accept_undisturbed:
  assumes "world_ok J text w" and "happens J T (Accepted failed handshake i k) w = Some w'" and "phase_of w a = Waiting" and "\<forall>b \<in> B. phase_of w b = Reading"
  shows "undisturbed J T [Accepted failed handshake i k] a B w w'"
proof -
  have w': "w' = acceptNewConnection failed handshake i k w" and up: "\<not> down w" "phase_of w i = Unused"
    using assms(2) by (simp_all split: if_splits)
  have ia: "i \<notin> insert a B" using up(2) assms(3,4) by auto
  obtain m where m: "manager (srv w) = Some m" using world_ok_managed [OF assms(1)] by blast
  have "acceptNewConnection failed handshake i k (with_conns (insert a B) f w) =
      with_conns (insert a B) f (acceptNewConnection failed handshake i k w)" for f
    using ia by (intro world.equality) (simp_all add: acceptNewConnection_def with_conns_def swapped_conn)
  moreover have "j \<in> insert a B \<Longrightarrow> conn (srv w') j = conn (srv w) j" "b \<in> B \<Longrightarrow> phase_of w' b = Reading" "manager (srv w') = Some m" for j b
    using assms(4) ia m by (auto simp: w' acceptNewConnection_def)
  ultimately show ?thesis using up w' by (intro undisturbed_event [OF _ _ _ m]) simp_all
qed

lemma event_undisturbed:
  assumes "world_ok J text w" and "happens J T e w = Some w'" and "phase_of w a = Waiting" and "phase_of w' a = Waiting"
    and "\<forall>b \<in> B. phase_of w b = Reading" and "B \<inter> set (served_in [e]) = {}"
  shows "undisturbed J T [e] a B w w'"
proof (cases e)
  case (Accepted f h i k)
  with assms show ?thesis using accept_undisturbed by blast
next
  case (Served ds now i)
  with assms show ?thesis using serve_undisturbed [where i = i and a = a and B = B] by simp
next
  case (Swept clock)
  with assms show ?thesis using sweep_undisturbed by blast
qed

lemma served_in_Cons: "set (served_in (e # es)) = set (served_in [e]) \<union> set (served_in es)"
  by (cases e) auto

lemma undisturbed_Nil: "\<forall>b \<in> B. phase_of w b = Reading \<Longrightarrow> undisturbed J T [] a B w w"
  by (simp add: undisturbed_def)

lemma undisturbed_Cons:
  assumes "undisturbed J T [e] a B w v" and "undisturbed J T es a B v w'"
  shows "undisturbed J T (e # es) a B w w'"
proof -
  note 1 = assms(1) [unfolded undisturbed_def] and 2 = assms(2) [unfolded undisturbed_def]
  have "schedule J T (e # es) (with_conns (insert a B) f w) = Some (with_conns (insert a B) f w')" for f
    using 1 2 by (simp add: bind_eq_Some_conv)
  moreover have "\<exists>m'. manager (srv w') = Some m' \<and> sessions m' code = Some t"
    if "manager (srv w) = Some m" "sessions m code = Some t" "client_session t = a" for m code t
    using 1 2 that by blast
  ultimately show ?thesis using 1 2 by (simp add: undisturbed_def)
qed

lemma schedule_undisturbed:
  assumes "world_ok J text w" and "schedule J T es w = Some w'" and "phase_of w a = Waiting" and "phase_of w' a = Waiting"
    and "\<forall>b \<in> B. phase_of w b = Reading" and "B \<inter> set (served_in es) = {}"
  shows "undisturbed J T es a B w w'"
  using assms
proof (induction es arbitrary: w)
  case Nil
  then show ?case using undisturbed_Nil by simp
next
  case (Cons e es)
  then obtain v where v: "happens J T e w = Some v" "schedule J T es v = Some w'" by (auto simp: bind_eq_Some_conv)
  then have st: "server_step J T w v" using server_step_happens by blast
  have vok: "world_ok J text v" using sessions_run.step_inv [OF Cons.prems(1) st] .
  have "phase_of w a \<le> phase_of v a" using sessions_run.step_rank [OF Cons.prems(1) st] .
  moreover have "phase_of v a \<le> phase_of w' a" using sessions_run.run_rank [OF schedule_runs [OF v(2)] vok] .
  ultimately have va: "phase_of v a = Waiting" using Cons.prems(3,4) by simp
  have nb: "B \<inter> set (served_in [e]) = {}" "B \<inter> set (served_in es) = {}" using Cons.prems(6) unfolding served_in_Cons [of e es] by blast+
  have 1: "undisturbed J T [e] a B w v" by (rule event_undisturbed [OF Cons.prems(1) v(1) Cons.prems(3) va Cons.prems(5) nb(1)])
  then have "\<forall>b \<in> B. phase_of v b = Reading" by (simp add: undisturbed_def)
  then show ?case using undisturbed_Cons [OF 1] Cons.IH [OF vok v(2) va Cons.prems(4)] nb(2) by blast
qed

section \<open>Nobody disturbs a waiting sender\<close>

lemma run_scheduled: "(server_step J T)\<^sup>*\<^sup>* w w' \<Longrightarrow> \<exists>es. schedule J T es w = Some w'"
proof (induction rule: converse_rtranclp_induct)
  case base
  show ?case by (rule exI [of _ "[]"]) simp
next
  case (step w v)
  then obtain e es where "happens J T e w = Some v" "schedule J T es v = Some w'" using server_step_happens by blast
  then show ?case by (intro exI [of _ "e # es"]) simp
qed

text \<open>
  C4. Nobody disturbs a waiting sender: whatever else happens to the server while a sender waits, other
  clients connecting and talking and the table being swept, nothing is read from or written to the
  sender's connection, and its entry stays under the same code; and all of it would have happened in the
  same way whatever the sender's connection held.
\<close>

theorem waiting_sender_undisturbed:
  assumes "initial J text w0" and "(server_step J T)\<^sup>*\<^sup>* w0 w" and "(server_step J T)\<^sup>*\<^sup>* w w'"
    and "phase_of w a = Waiting" and "phase_of w' a = Waiting"
  shows "conn (srv w') a = conn (srv w) a \<and>
    (\<exists>m m' code t. manager (srv w) = Some m \<and> manager (srv w') = Some m' \<and> client_session t = a \<and>
       sessions m code = Some t \<and> sessions m' code = Some t) \<and>
    (\<forall>k. (server_step J T)\<^sup>*\<^sup>* (w\<lparr>srv := (srv w)\<lparr>conn := (conn (srv w))(a := k)\<rparr>\<rparr>)
       (w'\<lparr>srv := (srv w')\<lparr>conn := (conn (srv w'))(a := k)\<rparr>\<rparr>))"
proof -
  have ok: "world_ok J text w" using sessions_run.reachable_inv [OF assms(1,2)] .
  then obtain m where "manager (srv w) = Some m" "waits m a" using assms(4) by (elim world_ok_managed) blast
  then obtain code t where m: "manager (srv w) = Some m" "sessions m code = Some t" "client_session t = a"
    by (auto simp: waits_def)
  obtain es where es: "schedule J T es w = Some w'" using run_scheduled [OF assms(3)] by blast
  have "undisturbed J T es a {} w w'" by (rule schedule_undisturbed [OF ok es assms(4,5)]) simp_all
  note ud = this [unfolded undisturbed_def, simplified]
  have set_a: "with_conns {a} (\<lambda>_. k) v = v\<lparr>srv := (srv v)\<lparr>conn := (conn (srv v))(a := k)\<rparr>\<rparr>" for v :: "'a world" and k
    unfolding with_conns_def swapped_def by (intro world.equality server.equality) (simp_all add: fun_eq_iff)
  have "(server_step J T)\<^sup>*\<^sup>* (with_conns {a} (\<lambda>_. k) w) (with_conns {a} (\<lambda>_. k) w')" for k
    using ud by (intro schedule_runs) blast
  then show ?thesis using ud m unfolding set_a by blast
qed

end
