(* ===== verification/Network.thy ===== *)
theory Network
  imports Causality EndToEnd Schedule
begin

text \<open>
  The programs on a network that delivers byte after byte.  What is on the way is what a program has
  written and its peer has not received; a program's writing is a function of what it has received
  (\<open>Causality\<close>).  The locale shows, for any such network, that it cannot stop before every byte has
  come, and the two clients and the server are given as one.
\<close>

section \<open>Bytes that arrive\<close>

definition below :: "('c \<Rightarrow> bytes) \<Rightarrow> ('c \<Rightarrow> bytes) \<Rightarrow> bool" where
  "below X Y \<longleftrightarrow> (\<forall>c. prefix (X c) (Y c))"

lemma below_refl: "below X X"
  by (simp add: below_def)

lemma below_trans: "below X Y \<Longrightarrow> below Y Z \<Longrightarrow> below X Z"
  unfolding below_def by (metis prefix_order.order_trans)

lemma below_antisym: "below X Y \<Longrightarrow> below Y X \<Longrightarrow> X = Y"
  by (auto simp: below_def intro: prefix_order.antisym)

lemma below_empty: "below (\<lambda>_. []) X"
  by (simp add: below_def)

text \<open>On one channel the next byte arrives, of those that its writer writes after what it has received.\<close>

inductive arrives :: "(('c \<Rightarrow> bytes) \<Rightarrow> 'c \<Rightarrow> bytes) \<Rightarrow> ('c \<Rightarrow> bytes) \<Rightarrow> ('c \<Rightarrow> bytes) \<Rightarrow> bool" for written_by where
  arrival: "prefix (X c @ [b]) (written_by X c) \<Longrightarrow> arrives written_by X (X(c := X c @ [b]))"

inductive_cases arrivesE: "arrives written_by X X'"

definition bytes_in :: "('c :: finite \<Rightarrow> bytes) \<Rightarrow> nat" where
  "bytes_in X = (\<Sum>c \<in> UNIV. length (X c))"

lemma arrives_counts: "arrives F X X' \<Longrightarrow> bytes_in X' = Suc (bytes_in X)"
proof (elim arrivesE)
  fix c b assume x: "X' = X(c := X c @ [b])"
  have "(\<Sum>k \<in> UNIV - {c}. length (X' k)) = (\<Sum>k \<in> UNIV - {c}. length (X k))"
    by (rule sum.cong) (auto simp: x)
  then show "bytes_in X' = Suc (bytes_in X)"
    unfolding bytes_in_def by (subst (1 2) sum.remove [of _ c]) (simp_all add: x)
qed

lemma below_counts: "below X Y \<Longrightarrow> bytes_in X \<le> bytes_in Y"
  unfolding bytes_in_def below_def by (intro sum_mono) (metis prefix_length_le)

lemma runs_count: "(arrives F ^^ n) X X' \<Longrightarrow> bytes_in X' = n + bytes_in X"
  by (induction n arbitrary: X') (auto dest: arrives_counts)

text \<open>
  A network \<open>p\<close> of writers: with more bytes received, more is written; after a number of rounds all
  bytes of a whole exchange are written, and then nothing more.
\<close>

locale byte_network =
  fixes network :: "'p \<Rightarrow> bool" and writes :: "'p \<Rightarrow> ('c :: finite \<Rightarrow> bytes) \<Rightarrow> 'c \<Rightarrow> bytes"
    and possible :: "'p \<Rightarrow> ('c \<Rightarrow> bytes) \<Rightarrow> bool"
    and stage :: "'p \<Rightarrow> nat \<Rightarrow> 'c \<Rightarrow> bytes" and rounds :: "'p \<Rightarrow> nat"
  assumes writes_mono: "network p \<Longrightarrow> possible p X \<Longrightarrow> possible p Y \<Longrightarrow> below X Y \<Longrightarrow> below Y (stage p (rounds p)) \<Longrightarrow>
      below (writes p X) (writes p Y)"
    and possible_arrives: "network p \<Longrightarrow> possible p X \<Longrightarrow> below X (stage p (rounds p)) \<Longrightarrow> arrives (writes p) X X' \<Longrightarrow> possible p X'"
    and stage_0: "network p \<Longrightarrow> stage p 0 = (\<lambda>_. [])"
    and stage_round: "network p \<Longrightarrow> n < rounds p \<Longrightarrow> below (stage p (Suc n)) (writes p (stage p n))"
    and stage_possible: "network p \<Longrightarrow> n \<le> rounds p \<Longrightarrow> possible p (stage p n) \<and> below (stage p n) (stage p (rounds p))"
    and stage_end: "network p \<Longrightarrow> writes p (stage p (rounds p)) = stage p (rounds p)"
begin

text \<open>What has arrived has been written, and belongs to the whole exchange.\<close>

definition on_course :: "'p \<Rightarrow> ('c \<Rightarrow> bytes) \<Rightarrow> bool" where
  "on_course p X \<longleftrightarrow> possible p X \<and> below X (writes p X) \<and> below X (stage p (rounds p))"

lemma writes_end:
  "network p \<Longrightarrow> possible p X \<Longrightarrow> below X (stage p (rounds p)) \<Longrightarrow> below (writes p X) (stage p (rounds p))"
  using writes_mono [of p X "stage p (rounds p)"] stage_possible [of p "rounds p"] stage_end [of p] by (simp add: below_refl)

lemma on_course_start: "network p \<Longrightarrow> on_course p (\<lambda>_. [])"
  using stage_possible [of p 0] by (simp add: on_course_def below_empty stage_0)

lemma on_course_step:
  assumes "network p" and "on_course p X" and "arrives (writes p) X X'"
  shows "on_course p X'"
  using assms(3)
proof (cases rule: arrives.cases)
  case (arrival c b)
  note oc = assms(2) [unfolded on_course_def]
  have possible: "possible p X'" using possible_arrives [OF assms(1) _ _ assms(3)] oc by blast
  have up: "below X X'" unfolding below_def arrival(1) by simp
  have written: "below X' (writes p X)" using oc arrival by (auto simp: below_def)
  then have within: "below X' (stage p (rounds p))" using below_trans writes_end [OF assms(1)] oc by blast
  then have "below (writes p X) (writes p X')" using writes_mono [OF assms(1)] oc possible up by blast
  then show ?thesis using possible written within below_trans unfolding on_course_def by blast
qed

lemma on_course_runs: "network p \<Longrightarrow> (arrives (writes p) ^^ n) (\<lambda>_. []) X \<Longrightarrow> on_course p X"
  by (induction n arbitrary: X) (auto intro: on_course_start on_course_step)

text \<open>A network on course that cannot go on has everything.\<close>

lemma stuck_writes:
  assumes "below X (writes p X)" and "\<nexists>X'. arrives (writes p) X X'"
  shows "writes p X = X"
proof
  fix c
  obtain zs where z: "writes p X c = X c @ zs" using assms(1) by (auto simp: below_def prefix_def)
  have "zs = []"
  proof (rule ccontr)
    assume "zs \<noteq> []"
    then have "prefix (X c @ [hd zs]) (writes p X c)" using z by (cases zs) auto
    then show False using arrives.arrival assms(2) by metis
  qed
  with z show "writes p X c = X c" by simp
qed

lemma stuck_end:
  assumes "network p" and "on_course p X" and "\<nexists>X'. arrives (writes p) X X'"
  shows "X = stage p (rounds p)"
proof -
  note oc = assms(2) [unfolded on_course_def]
  have fixed: "writes p X = X" using stuck_writes assms(3) oc by blast
  have "n \<le> rounds p \<Longrightarrow> below (stage p n) X" for n
  proof (induction n)
    case 0
    then show ?case using stage_0 [OF assms(1)] by (simp add: below_empty)
  next
    case (Suc n)
    then have "below (stage p n) X" by simp
    then have "below (writes p (stage p n)) (writes p X)"
      using writes_mono [OF assms(1)] stage_possible [OF assms(1)] oc Suc.prems by simp
    then show ?case using stage_round [OF assms(1)] Suc.prems below_trans fixed by (metis Suc_le_lessD)
  qed
  then show ?thesis using oc below_antisym by blast
qed

lemma end_stuck: "network p \<Longrightarrow> \<nexists>X'. arrives (writes p) (stage p (rounds p)) X'"
  by (auto simp: stage_end elim!: arrivesE)

text \<open>Every run gets nearer to the end of the exchange, and stops only there.\<close>

lemma runs_complete:
  assumes "network p" and "(arrives (writes p) ^^ n) (\<lambda>_. []) X"
  shows "below X (stage p (rounds p)) \<and> n \<le> bytes_in (stage p (rounds p)) \<and>
    ((\<nexists>X'. arrives (writes p) X X') \<longleftrightarrow> X = stage p (rounds p))"
proof -
  have oc: "on_course p X" using on_course_runs assms by blast
  then have "below X (stage p (rounds p))" by (simp add: on_course_def)
  moreover from this have "n \<le> bytes_in (stage p (rounds p))"
    using below_counts runs_count [OF assms(2)] by (fastforce simp: bytes_in_def)
  ultimately show ?thesis using stuck_end [OF assms(1) oc] end_stuck [OF assms(1)] by blast
qed

end

section \<open>Two clients and the server\<close>

datatype channel = From_sender | To_sender | From_receiver | To_receiver

instance channel :: finite
proof
  have "(UNIV :: channel set) = {From_sender, To_sender, From_receiver, To_receiver}"
    using channel.exhaust by blast
  then show "finite (UNIV :: channel set)" by (metis finite.emptyI finite.insertI)
qed

lemma below_channel: "below X Y \<longleftrightarrow> prefix (X From_sender) (Y From_sender) \<and> prefix (X To_sender) (Y To_sender) \<and>
    prefix (X From_receiver) (Y From_receiver) \<and> prefix (X To_receiver) (Y To_receiver)"
  unfolding below_def by (metis channel.exhaust)

text \<open>
  A transfer: the libraries, the two machines, what is to be sent and what the receiving user types,
  the server before the two connections, their identities, the server's draws and clock at the two first
  reads, its timeout, and what else it does between them.
\<close>

record ('e, 'c, 'd, 'j, 'ep, 'peer, 'cert) setting =
  libraries :: "('e, 'c, 'd, 'j, 'ep, 'peer, 'cert) env"
  sends_from :: host
  sent_path :: string
  receives_at :: host
  typed :: string
  serving :: "'j world"
  sender_id :: nat
  receiver_id :: nat
  drawn :: "draws list \<times> draws list"
  clock :: "int \<times> int"
  timeout :: int
  meanwhile :: "event list"

text \<open>The sender with the bytes it has received; the receiver is started with the code that it prints.\<close>

definition sender_run :: "('e, 'c, 'd, 'j, 'ep, 'peer, 'cert) setting \<Rightarrow> bytes \<Rightarrow> ((error + unit) \<times> aftermath) option" where
  "sender_run st d = run_sender (libraries st) (sent_path st) (endpoint d) (sends_from st)"

definition receiver_run :: "('e, 'c, 'd, 'j, 'ep, 'peer, 'cert) setting \<Rightarrow> string \<Rightarrow> bytes \<Rightarrow> ((error + unit) \<times> aftermath) option" where
  "receiver_run st code d = run_receiver (libraries st) code (endpoint d) (typed st) (receives_at st)"

definition shown_code :: "((error + unit) \<times> aftermath) option \<Rightarrow> string option" where
  "shown_code x = (case x of None \<Rightarrow> None | Some (r, a) \<Rightarrow>
     case printed a of [] \<Rightarrow> None | line # _ \<Rightarrow> Some (drop (length ''Receive code: '') line))"

text \<open>
  The server with the two connections accepted, and each first read served that is complete; when the
  sender's has been served, the server does what it does meanwhile, before it serves the receiver's.
\<close>

definition connected :: "('e, 'c, 'd, 'j, 'ep, 'peer, 'cert) setting \<Rightarrow> bytes \<Rightarrow> bytes \<Rightarrow> 'j world" where
  "connected st s r = acceptNewConnection False (Inr ()) (receiver_id st) (endpoint r)
     (acceptNewConnection False (Inr ()) (sender_id st) (endpoint s) (serving st))"

definition serve_complete :: "'j json_api \<Rightarrow> draws list \<Rightarrow> int \<Rightarrow> nat \<Rightarrow> 'j world \<Rightarrow> 'j world option" where
  "serve_complete J ds now i w =
     (if \<not> down w \<and> phase_of w i = Reading \<and> first_read_ready (rx (conn (srv w) i)) then serveFirstRead J ds now i w else Some w)"

definition before_request :: "('e, 'c, 'd, 'j, 'ep, 'peer, 'cert) setting \<Rightarrow> bytes \<Rightarrow> bytes \<Rightarrow> 'j world option" where
  "before_request st s r = Option.bind
     (serve_complete (json (libraries st)) (fst (drawn st)) (fst (clock st)) (sender_id st) (connected st s r))
     (\<lambda>w. if phase_of w (sender_id st) = Reading then Some w else schedule (json (libraries st)) (timeout st) (meanwhile st) w)"

definition server_run :: "('e, 'c, 'd, 'j, 'ep, 'peer, 'cert) setting \<Rightarrow> bytes \<Rightarrow> bytes \<Rightarrow> 'j world option" where
  "server_run st s r = Option.bind (before_request st s r)
     (serve_complete (json (libraries st)) (snd (drawn st)) (snd (clock st)) (receiver_id st))"

definition output_of :: "((error + unit) \<times> aftermath) option \<Rightarrow> bytes" where
  "output_of x = (case x of None \<Rightarrow> [] | Some (r, a) \<Rightarrow> transmitted a)"

definition told :: "'j world option \<Rightarrow> nat \<Rightarrow> bytes" where
  "told x i = (case x of None \<Rightarrow> [] | Some w \<Rightarrow> tx (conn (srv w) i))"

fun writes :: "('e, 'c, 'd, 'j, 'ep, 'peer, 'cert) setting \<Rightarrow> (channel \<Rightarrow> bytes) \<Rightarrow> channel \<Rightarrow> bytes" where
  "writes st X From_sender = output_of (sender_run st (X To_sender))"
| "writes st X To_sender = told (server_run st (X From_sender) (X From_receiver)) (sender_id st)"
| "writes st X From_receiver = (case shown_code (sender_run st (X To_sender)) of
     None \<Rightarrow> [] | Some code \<Rightarrow> output_of (receiver_run st code (X To_receiver)))"
| "writes st X To_receiver = told (server_run st (X From_sender) (X From_receiver)) (receiver_id st)"

subsection \<open>The clients write more when more has come\<close>

lemma endpoint_later: "endpoint (d @ e) = socket_later e (endpoint d)"
  by (simp add: endpoint_def socket_later_def)

lemma sender_run_later:
  assumes "sender_run st d' = Some (r', a')" and "prefix d d'"
  shows "\<exists>r a. sender_run st d = Some (r, a) \<and> prefix (transmitted a) (transmitted a') \<and>
    (printed a \<noteq> [] \<longrightarrow> printed a' = printed a)"
  using assms run_sender_later unfolding sender_run_def prefix_def endpoint_later by (metis endpoint_later)

lemma receiver_run_later:
  assumes "receiver_run st code d' = Some (r', a')" and "prefix d d'"
  shows "\<exists>r a. receiver_run st code d = Some (r, a) \<and> prefix (transmitted a) (transmitted a')"
  using assms run_receiver_later unfolding receiver_run_def prefix_def endpoint_later by (metis endpoint_later)

lemma shown_code_later:
  assumes "sender_run st d' = Some (r', a')" and "prefix d d'" and "shown_code (sender_run st d) = Some code"
  shows "shown_code (sender_run st d') = Some code"
  using sender_run_later [OF assms(1,2)] assms(1,3) by (auto simp: shown_code_def split: list.splits)

lemma first_read_ready_later: "first_read_ready d \<Longrightarrow> prefix d d' \<Longrightarrow> first_read_ready d'"
  by (auto simp: first_read_ready_def prefix_def)

lemma first_read_ready_frame:
  assumes "first_read_ready d" and "length t \<le> 1000" and "prefix d (frame t @ z)"
  shows "prefix (frame t) d"
proof -
  have "8 \<le> length d" using assms(1) by (simp add: first_read_ready_def)
  moreover obtain z' where "frame t @ z = d @ z'" using assms(3) by (auto simp: prefix_def)
  ultimately have "take 8 (frame t @ z) = take 8 d" by simp
  then have "take 8 d = size_bytes (of_nat (length t))" by (simp add: frame_def)
  then have "bytes_size (take 8 d) = of_nat (length t)" by simp
  moreover have "unat (of_nat (length t) :: size_t) = length t" using assms(2) by (simp add: unat_of_nat_size)
  ultimately have "length (frame t) \<le> length d"
    using assms(1,2) by (auto simp: first_read_ready_def MAX_FIRST_MESSAGE_SIZE_def word_less_nat_alt)
  with assms(3) show ?thesis by (metis prefix_length_prefix prefix_def)
qed

subsection \<open>The server writes more when more has come\<close>

lemma asyncReadMessage_grows: "grows socket_out (asyncReadMessage lim)"
proof -
  have read: "grows socket_out (asio_read_to_buffer n)" for n
    using asio_read_to_buffer_causal by (rule causal_grows)
  have impl: "grows socket_out (asyncReadMessageImpl n)" for n
    using read [of "unat n"]
    by (auto simp: asyncReadMessageImpl_def grows_def try_catch_def andthen_def split: prod.splits sum.splits)
      (metis snd_conv)+
  have drop: "prefix (socket_out k u) (socket_out (snd (andthen (safeDisconnect m) (\<lambda>_. ret Dropped) k)) u)" for m k u
    using causal_growsD [OF safeDisconnect_causal, of k u m]
    by (auto simp: andthen_def split: prod.splits sum.splits)
  have "prefix (socket_out k u) (socket_out (snd (asyncReadHeader lim k)) u)" for k u
  proof -
    obtain q v where v: "asio_read_to_buffer 8 k = (q, v)" by fastforce
    then have "prefix (socket_out k u) (socket_out v u)" using read [of 8] unfolding grows_def by (metis snd_conv)
    moreover have "prefix (socket_out v u) (socket_out (snd (asyncReadHeader lim k)) u)"
      using v drop impl unfolding grows_def by (cases q) (auto simp: asyncReadHeader_def Let_def)
    ultimately show ?thesis by (rule prefix_order.order_trans)
  qed
  then show ?thesis by (simp add: asyncReadMessage_def grows_def)
qed

lemma handleFirstRead_grows:
  assumes "handleFirstRead J ds now w content s = Some (r, s')"
  shows "prefix (tx (conn s i)) (tx (conn s' i))"
proof (cases "sum_bind (create J content) (\<lambda>request. sum_bind (json_get (json_get_string J) J request ACTION_KEY) (\<lambda>_. Inr request))")
  case (Inl e)
  then have "catch_first_read w (Inl e, s) = (r, s')" using assms by (simp add: handleFirstRead_def)
  then show ?thesis using catch_first_read_grows [of s i w "Inl e"] by (simp add: server_out_def)
next
  case (Inr request)
  then obtain q where q: "registerSession J ds now w request s = Some q" "catch_first_read w q = (r, s')"
    using assms by (auto simp: handleFirstRead_def)
  from registerSession_causal [OF q(1)] obtain p where p: "causal server_later server_out p" "q = p s"
    using q(1) by auto
  then have "prefix (server_out s i) (server_out (snd q) i)" using causal_growsD [OF p(1), of s i] by simp
  moreover have "prefix (server_out (snd q) i) (server_out s' i)"
    using catch_first_read_grows [of "snd q" i w "fst q"] q(2) by simp
  ultimately show ?thesis unfolding server_out_def by (rule prefix_order.order_trans)
qed

lemma first_read_grows:
  assumes "first_read J ds now w s = Some (r, s')"
  shows "prefix (tx (conn s i)) (tx (conn s' i))"
proof -
  obtain q s1 where q: "on w (asyncReadMessage MAX_FIRST_MESSAGE_SIZE) s = (q, s1)" by fastforce
  have 1: "prefix (tx (conn s i)) (tx (conn s1 i))"
    using asyncReadMessage_grows [of MAX_FIRST_MESSAGE_SIZE] q
    by (auto simp: on_def grows_def socket_out_def split: prod.splits) (metis snd_conv)
  show ?thesis
  proof (cases "\<exists>content. q = Inr (Message content)")
    case True
    then show ?thesis using assms q 1 handleFirstRead_grows
      by (fastforce simp: first_read_def intro: prefix_order.order_trans)
  next
    case False
    then show ?thesis using assms q 1 by (auto simp: first_read_def split: sum.splits async_result.splits)
  qed
qed

text \<open>More bytes for the two connections of a transfer.\<close>

definition given :: "('e, 'c, 'd, 'j, 'ep, 'peer, 'cert) setting \<Rightarrow> bytes \<Rightarrow> bytes \<Rightarrow> 'j world \<Rightarrow> 'j world" where
  "given st s r w = w\<lparr>srv := server_later (\<lambda>i. if i = receiver_id st then r else if i = sender_id st then s else []) (srv w)\<rparr>"

lemma server_later_later: "server_later d (server_later e s) = server_later (\<lambda>i. e i @ d i) s"
  by (simp add: server_later_def socket_later_def)

lemma given_given: "given st s' r' (given st s r w) = given st (s @ s') (r @ r') w"
proof -
  have "(\<lambda>i. (if i = receiver_id st then r else if i = sender_id st then s else []) @
      (if i = receiver_id st then r' else if i = sender_id st then s' else [])) =
    (\<lambda>i. if i = receiver_id st then r @ r' else if i = sender_id st then s @ s' else [])" by (rule ext) simp
  then show ?thesis by (simp add: given_def server_later_later)
qed

lemma given_sel [simp]: "down (given st s r w) = down w" "phase_of (given st s r w) = phase_of w"
  "rx (conn (srv (given st s r w)) (receiver_id st)) = rx (conn (srv w) (receiver_id st)) @ r"
  "tx (conn (srv (given st s r w)) i) = tx (conn (srv w) i)"
  "sender_id st \<noteq> receiver_id st \<Longrightarrow> rx (conn (srv (given st s r w)) (sender_id st)) = rx (conn (srv w) (sender_id st)) @ s"
  by (auto simp: given_def)

lemma connected_given:
  "sender_id st \<noteq> receiver_id st \<Longrightarrow> connected st (s @ s') (r @ r') = given st s' r' (connected st s r)"
  by (auto simp: connected_def given_def acceptNewConnection_def server_later_def endpoint_def socket_later_def fun_eq_iff)

lemma serve_complete_grows:
  assumes "serve_complete J ds now i w = Some w'"
  shows "prefix (tx (conn (srv w) k)) (tx (conn (srv w') k))"
  using assms first_read_grows
  by (fastforce simp: serve_complete_def serveFirstRead_def split: if_splits option.splits)

lemma serve_complete_later:
  assumes "serve_complete J ds now (receiver_id st) (given st s r w) = Some w'"
  shows "\<exists>w1. serve_complete J ds now (receiver_id st) w = Some w1 \<and> prefix (tx (conn (srv w1) i)) (tx (conn (srv w') i))"
proof (cases "\<not> down w \<and> phase_of w (receiver_id st) = Reading \<and> first_read_ready (rx (conn (srv w) (receiver_id st)))")
  case True
  then have "first_read_ready (rx (conn (srv (given st s r w)) (receiver_id st)))"
    using first_read_ready_later by (auto simp: prefix_def)
  with True assms obtain x v where "first_read J ds now (receiver_id st) (srv (given st s r w)) = Some (x, v)" "srv w' = v"
    by (auto simp: serve_complete_def serveFirstRead_def split: option.splits)
  then have "\<exists>x1 v1. first_read J ds now (receiver_id st) (srv w) = Some (x1, v1) \<and> (\<forall>i. prefix (tx (conn v1 i)) (tx (conn v i)))"
    using first_read_later True by (simp add: given_def) blast
  then show ?thesis using True \<open>srv w' = v\<close> by (auto simp: serve_complete_def serveFirstRead_def)
next
  case False
  then have "serve_complete J ds now (receiver_id st) w = Some w" by (auto simp: serve_complete_def)
  then show ?thesis using serve_complete_grows [OF assms, of i] by simp
qed

end
