(* ===== verification/Progress.thy ===== *)
theory Progress
  imports Network
begin

text \<open>
  Programs that talk to each other cannot get stuck: however the network delivers the bytes of the
  sender, the server and the receiver, each program goes on until all that they have to say has been
  said.  A dialogue is what is said, turn by turn; the network of the programs that hold it is one that
  completes (\<open>Network\<close>).  A transfer is one such dialogue.
\<close>

section \<open>Dialogues\<close>

definition flow :: "bytes \<Rightarrow> bytes \<Rightarrow> bytes \<Rightarrow> bytes \<Rightarrow> channel \<Rightarrow> bytes" where
  "flow s ts r tr c = (case c of From_sender \<Rightarrow> s | To_sender \<Rightarrow> ts | From_receiver \<Rightarrow> r | To_receiver \<Rightarrow> tr)"

lemma flow_simps [simp]: "flow s ts r tr From_sender = s" "flow s ts r tr To_sender = ts"
  "flow s ts r tr From_receiver = r" "flow s ts r tr To_receiver = tr"
  by (simp_all add: flow_def)

lemma flow_empty: "flow [] [] [] [] = (\<lambda>_. [])"
  by (rule ext) (simp add: flow_def split: channel.split)

lemma all_channels: "(\<forall>c. P c) \<longleftrightarrow> P From_sender \<and> P To_sender \<and> P From_receiver \<and> P To_receiver"
  by (metis channel.exhaust)

text \<open>The sender's announcement, the code, and what has been said after each turn.\<close>

record dialogue =
  announcement :: bytes
  code_told :: string
  said :: "(channel \<Rightarrow> bytes) list"

text \<open>
  The server when it has served a complete announcement and what came meanwhile; whatever else has
  come of the two clients is still to be read.
\<close>

definition served_first :: "('e, 'c, 'd, 'j, 'ep, 'peer, 'cert) setting \<Rightarrow> bytes \<Rightarrow> 'j world \<Rightarrow> bool" where
  "served_first st t w \<longleftrightarrow> \<not> down w \<and> phase_of w (receiver_id st) = Reading \<and>
     conn (srv w) (receiver_id st) = endpoint [] \<and>
     (\<forall>s r. before_request st (frame t @ s) r = Some (given st s r w))"

text \<open>The receiver has written nothing, and the sender has heard nothing, before the announcement is complete.\<close>

definition in_order :: "(channel \<Rightarrow> bytes) \<Rightarrow> bool" where
  "in_order X \<longleftrightarrow> (X From_receiver = [] \<and> X To_sender = []) \<or> first_read_ready (X From_sender)"

text \<open>What is new in a turn has been written by programs that have heard the turns before.\<close>

definition next_turn :: "('e, 'c, 'd, 'j, 'ep, 'peer, 'cert) setting \<Rightarrow> (channel \<Rightarrow> bytes) \<Rightarrow> (channel \<Rightarrow> bytes) \<Rightarrow> bool" where
  "next_turn st X Y \<longleftrightarrow> in_order Y \<and> (\<forall>c. prefix (X c) (Y c) \<and> (Y c = X c \<or> prefix (Y c) (writes st X c)))"

text \<open>In the end the programs return and have nothing more to say.\<close>

definition ends_at :: "('e, 'c, 'd, 'j, 'ep, 'peer, 'cert) setting \<Rightarrow> string \<Rightarrow> (channel \<Rightarrow> bytes) \<Rightarrow> bool" where
  "ends_at st code E \<longleftrightarrow> writes st E = E \<and> (\<exists>w. server_run st (E From_sender) (E From_receiver) = Some w) \<and>
     (\<exists>r a. sender_run st (E To_sender) = Some (r, a)) \<and> shown_code (sender_run st (E To_sender)) = Some code \<and>
     (\<exists>r a. receiver_run st code (E To_receiver) = Some (r, a))"

definition talk :: "('e, 'c, 'd, 'j, 'ep, 'peer, 'cert) setting \<times> dialogue \<Rightarrow> bool" where
  "talk p \<longleftrightarrow> (case p of (st, dg) \<Rightarrow>
     sender_id st \<noteq> receiver_id st \<and> length (announcement dg) \<le> 1000 \<and> (\<exists>w. served_first st (announcement dg) w) \<and>
     (\<exists>r a. sender_run st [] = Some (r, a) \<and> printed a = []) \<and>
     said dg \<noteq> [] \<and> hd (said dg) = (\<lambda>_. []) \<and> successively (next_turn st) (said dg) \<and>
     prefix (frame (announcement dg)) (last (said dg) From_sender) \<and> ends_at st (code_told dg) (last (said dg)))"

lemma talk_parts:
  assumes "talk (st, dg)" and "E = last (said dg)"
  obtains w z ws rs as rr ar where "sender_id st \<noteq> receiver_id st" and "length (announcement dg) \<le> 1000"
    and "served_first st (announcement dg) w" and "E From_sender = frame (announcement dg) @ z" and "writes st E = E"
    and "server_run st (E From_sender) (E From_receiver) = Some ws" and "sender_run st (E To_sender) = Some (rs, as)"
    and "shown_code (sender_run st (E To_sender)) = Some (code_told dg)"
    and "receiver_run st (code_told dg) (E To_receiver) = Some (rr, ar)"
  using assms by (auto simp: talk_def ends_at_def prefix_def)

section \<open>Programs that have heard more have written more\<close>

lemma first_read_ready_text: "length t \<le> 1000 \<Longrightarrow> first_read_ready (frame t @ z)"
  by (simp add: first_read_ready_def frame_def unat_of_nat_size)

lemma server_run_announced:
  assumes "served_first st t w"
  shows "server_run st (frame t @ s) r =
    serve_complete (json (libraries st)) (snd (drawn st)) (snd (clock st)) (receiver_id st) (given st s r w)"
  using assms by (simp add: server_run_def served_first_def)

lemma server_run_unready:
  assumes "sender_id st \<noteq> receiver_id st" and "\<not> first_read_ready s"
  shows "server_run st s [] = Some (connected st s [])"
proof -
  have "\<not> first_read_ready []" by (simp add: first_read_ready_def)
  then show ?thesis using assms
    by (simp add: server_run_def before_request_def serve_complete_def connected_def acceptNewConnection_def)
qed

lemma told_connected: "told (Some (connected st s r)) (sender_id st) = []" "told (Some (connected st s r)) (receiver_id st) = []"
  by (simp_all add: told_def connected_def acceptNewConnection_def)

lemma server_run_mono:
  assumes "talk (st, dg)" and "in_order X" and "below X Y" and "below Y (last (said dg))"
    and "i = sender_id st \<or> i = receiver_id st"
  shows "prefix (told (server_run st (X From_sender) (X From_receiver)) i) (told (server_run st (Y From_sender) (Y From_receiver)) i)"
proof -
  let ?E = "last (said dg)" and ?t = "announcement dg"
  obtain w z ws where ids: "sender_id st \<noteq> receiver_id st" and short: "length ?t \<le> 1000" and w: "served_first st ?t w"
    and z: "?E From_sender = frame ?t @ z" and ends: "server_run st (?E From_sender) (?E From_receiver) = Some ws"
    using talk_parts [OF assms(1) refl] by metis
  show ?thesis
  proof (cases "first_read_ready (X From_sender)")
    case False
    then have "X From_receiver = []" using assms(2) by (simp add: in_order_def)
    moreover from this have "server_run st (X From_sender) [] = Some (connected st (X From_sender) [])"
      using False ids by (intro server_run_unready)
    ultimately have "told (server_run st (X From_sender) (X From_receiver)) i = []"
      using assms(5) told_connected by metis
    then show ?thesis by simp
  next
    case True
    have XY: "prefix (X From_sender) (Y From_sender)" "prefix (X From_receiver) (Y From_receiver)"
      and YE: "prefix (Y From_sender) (frame ?t @ z)" "prefix (Y From_receiver) (?E From_receiver)"
      using assms(3,4) by (simp_all add: below_channel z)
    from first_read_ready_frame [OF True short] XY(1) YE(1) have "prefix (frame ?t) (X From_sender)"
      by (metis prefix_order.order_trans)
    then obtain s where s: "X From_sender = frame ?t @ s" by (auto simp: prefix_def)
    obtain s' where s': "Y From_sender = frame ?t @ s @ s'" using XY(1) s by (auto simp: prefix_def)
    obtain e where e: "z = (s @ s') @ e" using YE(1) s' by (auto simp: prefix_def)
    obtain r' where r': "Y From_receiver = X From_receiver @ r'" using XY(2) by (auto simp: prefix_def)
    obtain f where f: "?E From_receiver = (X From_receiver @ r') @ f" using YE(2) r' by (auto simp: prefix_def)
    let ?serve = "serve_complete (json (libraries st)) (snd (drawn st)) (snd (clock st)) (receiver_id st)"
    let ?w = "given st s (X From_receiver) w"
    have run: "server_run st (X From_sender) (X From_receiver) = ?serve ?w"
      "server_run st (Y From_sender) (Y From_receiver) = ?serve (given st s' r' ?w)"
      "server_run st (?E From_sender) (?E From_receiver) = ?serve (given st e f (given st s' r' ?w))"
      unfolding s s' r' z e f given_given by (simp_all add: server_run_announced [OF w])
    from ends run(3) have "?serve (given st e f (given st s' r' ?w)) = Some ws" by simp
    from serve_complete_later [OF this] obtain w2 where w2: "?serve (given st s' r' ?w) = Some w2" by blast
    from serve_complete_later [OF this, of i] show ?thesis using run w2 by (auto simp: told_def)
  qed
qed

lemma writes_mono:
  assumes "talk (st, dg)" and "in_order X" and "below X Y" and "below Y (last (said dg))"
  shows "below (writes st X) (writes st Y)"
proof -
  let ?E = "last (said dg)" and ?code = "code_told dg"
  obtain rs as rr ar where e: "sender_run st (?E To_sender) = Some (rs, as)" "shown_code (sender_run st (?E To_sender)) = Some ?code"
    "receiver_run st ?code (?E To_receiver) = Some (rr, ar)" using talk_parts [OF assms(1) refl] by metis
  have p: "prefix (X c) (Y c)" "prefix (Y c) (?E c)" for c using assms(3,4) by (simp_all add: below_def)
  obtain ry ay where y: "sender_run st (Y To_sender) = Some (ry, ay)" using sender_run_later [OF e(1) p(2)] by blast
  have sender: "prefix (output_of (sender_run st (X To_sender))) (output_of (sender_run st (Y To_sender)))"
    using sender_run_later [OF y p(1)] y by (auto simp: output_of_def)
  obtain qy by' where q: "receiver_run st ?code (Y To_receiver) = Some (qy, by')" using receiver_run_later [OF e(3) p(2)] by blast
  have receiver: "prefix (output_of (receiver_run st ?code (X To_receiver))) (output_of (receiver_run st ?code (Y To_receiver)))"
    using receiver_run_later [OF q p(1)] q by (auto simp: output_of_def)
  have "prefix (writes st X From_receiver) (writes st Y From_receiver)"
  proof (cases "shown_code (sender_run st (X To_sender))")
    case (Some code)
    have sy: "shown_code (sender_run st (Y To_sender)) = Some code" by (rule shown_code_later [OF y p(1) Some])
    from shown_code_later [OF e(1) p(2) this] have "code = ?code" using e(2) by simp
    with Some sy receiver show ?thesis by simp
  qed simp
  then show ?thesis using sender server_run_mono [OF assms] by (simp add: below_channel)
qed

lemma in_order_arrives:
  assumes "talk (st, dg)" and "in_order X" and "arrives (writes st) X X'"
  shows "in_order X'"
  using assms(3)
proof (cases rule: arrives.cases)
  case (arrival c b)
  have ne: "writes st X c \<noteq> []" using arrival(2) by auto
  have ids: "sender_id st \<noteq> receiver_id st" and quiet: "\<exists>r a. sender_run st [] = Some (r, a) \<and> printed a = []"
    using assms(1) by (simp_all add: talk_def)
  show ?thesis
  proof (cases "first_read_ready (X From_sender)")
    case True
    then have "first_read_ready (X' From_sender)" using first_read_ready_later arrival(1) by (simp add: prefix_def)
    then show ?thesis by (simp add: in_order_def)
  next
    case False
    then have x: "X From_receiver = []" "X To_sender = []" using assms(2) by (simp_all add: in_order_def)
    have "writes st X From_receiver = []" using x quiet by (auto simp: shown_code_def)
    moreover have "writes st X To_sender = []"
      using server_run_unready [OF ids False] told_connected(1) x by simp
    ultimately have "c = From_sender \<or> c = To_receiver" using ne by (metis channel.exhaust)
    then show ?thesis using x arrival(1) by (auto simp: in_order_def)
  qed
qed

section \<open>A dialogue completes\<close>

lemma successively_nth: "successively P xs \<Longrightarrow> Suc n < length xs \<Longrightarrow> P (xs ! n) (xs ! Suc n)"
  by (simp add: successively_conv_nth)

lemma turn_up:
  assumes "talk (st, dg)" and "Suc n < length (said dg)"
  shows "in_order (said dg ! Suc n)" and "below (said dg ! n) (said dg ! Suc n)"
    and "(said dg ! Suc n) c = (said dg ! n) c \<or> prefix ((said dg ! Suc n) c) (writes st (said dg ! n) c)"
  using successively_nth [of "next_turn st" "said dg" n] assms by (auto simp: talk_def next_turn_def below_def)

lemma turn_start: "talk (st, dg) \<Longrightarrow> said dg ! 0 = (\<lambda>_. [])"
  by (auto simp: talk_def hd_conv_nth)

lemma turn_possible:
  assumes "talk (st, dg)" and "n < length (said dg)"
  shows "in_order (said dg ! n) \<and> below (said dg ! n) (last (said dg))"
proof -
  have "in_order (said dg ! n)"
    using turn_start [OF assms(1)] turn_up(1) [OF assms(1), of "n - 1"] assms(2) by (cases n) (simp_all add: in_order_def)
  moreover have "k + n < length (said dg) \<Longrightarrow> below (said dg ! n) (said dg ! (k + n))" for k
    by (induction k) (auto intro: below_refl below_trans turn_up(2) [OF assms(1)])
  from this [of "length (said dg) - 1 - n"] have "below (said dg ! n) (last (said dg))"
    using assms by (simp add: talk_def last_conv_nth)
  ultimately show ?thesis by blast
qed

lemma turn_round:
  assumes "talk (st, dg)" and "Suc n < length (said dg)"
  shows "below (said dg ! Suc n) (writes st (said dg ! n))"
  using assms(2)
proof (induction n)
  case 0
  then have "prefix ((said dg ! Suc 0) c) (writes st (said dg ! 0) c)" for c
    using turn_up(3) [OF assms(1), of 0 c] turn_start [OF assms(1)] by auto
  then show ?case by (simp add: below_def)
next
  case (Suc n)
  have le: "n < length (said dg)" "Suc n < length (said dg)" using Suc.prems by simp_all
  have "below (writes st (said dg ! n)) (writes st (said dg ! Suc n))"
    using turn_possible [OF assms(1) le(1)] turn_possible [OF assms(1) le(2)] turn_up(2) [OF assms(1) le(2)]
    by (intro writes_mono [OF assms(1)]) simp_all
  then have "below (said dg ! Suc n) (writes st (said dg ! Suc n))" using Suc below_trans by force
  then show ?case using turn_up(3) [OF assms(1) Suc.prems] unfolding below_def by metis
qed

interpretation dialogue_net: byte_network talk "\<lambda>p. writes (fst p)" "\<lambda>p. in_order"
    "\<lambda>p n. said (snd p) ! n" "\<lambda>p. length (said (snd p)) - 1"
proof -
  have end_turn: "said (snd p) ! (length (said (snd p)) - 1) = last (said (snd p))" if "talk p" for p
    using that by (auto simp: talk_def last_conv_nth split: prod.splits)
  show "byte_network talk (\<lambda>p. writes (fst p)) (\<lambda>p. in_order) (\<lambda>p n. said (snd p) ! n) (\<lambda>p. length (said (snd p)) - 1)"
  proof (unfold_locales, goal_cases)
    case (1 p X Y)
    then show ?case using writes_mono [of "fst p" "snd p"] unfolding end_turn [OF 1(1)] by simp
  next
    case (2 p X X')
    then show ?case using in_order_arrives [of "fst p" "snd p"] by simp
  next
    case (3 p)
    then show ?case using turn_start [of "fst p" "snd p"] by simp
  next
    case (4 p n)
    then show ?case using turn_round [of "fst p" "snd p"] by simp
  next
    case (5 p n)
    moreover from this have "n < length (said (snd p))" by (cases "said (snd p)") (auto simp: talk_def)
    ultimately show ?case using turn_possible [of "fst p" "snd p" n] unfolding end_turn [OF 5(1)] by simp
  next
    case (6 p)
    then show ?case unfolding end_turn [OF 6] by (auto simp: talk_def ends_at_def)
  qed
qed

section \<open>The dialogue of a transfer\<close>

text \<open>
  The sender's announcement and the server's answer, the receiver's request, the code, the file as the
  sender sends it and as the server passes it on.
\<close>

record conversation =
  announced :: bytes
  answer :: bytes
  request :: bytes
  share_code :: string
  file_sent :: bytes
  file_relayed :: bytes

definition turns :: "conversation \<Rightarrow> (channel \<Rightarrow> bytes) list" where
  "turns cv =
     (let T = frame (announced cv); A = frame (answer cv); Q = frame (request cv); K = frame ACK;
          M = file_sent cv; P = file_relayed cv
      in [flow [] [] [] [], flow T [] [] [], flow T A [] [], flow T A Q [], flow T A Q T, flow T A (Q @ K) T,
          flow T (A @ K) (Q @ K) T, flow (T @ M) (A @ K) (Q @ K) T, flow (T @ M) (A @ K) (Q @ K) (T @ P),
          flow (T @ M) (A @ K) (Q @ K @ K) (T @ P), flow (T @ M) (A @ K @ K) (Q @ K @ K) (T @ P)])"

definition transfer_end :: "conversation \<Rightarrow> channel \<Rightarrow> bytes" where
  "transfer_end cv = flow (frame (announced cv) @ file_sent cv) (frame (answer cv) @ frame ACK @ frame ACK)
     (frame (request cv) @ frame ACK @ frame ACK) (frame (announced cv) @ file_relayed cv)"

text \<open>The parts of the three programs in it.\<close>

definition sender_holds :: "('e, 'c, 'd, 'j, 'ep, 'peer, 'cert) setting \<Rightarrow> conversation \<Rightarrow> bool" where
  "sender_holds st cv \<longleftrightarrow>
     (let T = frame (announced cv); A = frame (answer cv); K = frame ACK; run = sender_run st
      in (\<exists>r a. run [] = Some (r, a) \<and> prefix T (transmitted a) \<and> printed a = []) \<and>
         shown_code (run A) = Some (share_code cv) \<and>
         prefix (T @ file_sent cv) (output_of (run (A @ K))) \<and>
         (\<exists>a. run (A @ K @ K) = Some (Inr (), a) \<and> transmitted a = T @ file_sent cv))"

definition receiver_holds :: "('e, 'c, 'd, 'j, 'ep, 'peer, 'cert) setting \<Rightarrow> conversation \<Rightarrow> bool" where
  "receiver_holds st cv \<longleftrightarrow>
     (let T = frame (announced cv); Q = frame (request cv); K = frame ACK; run = receiver_run st (share_code cv)
      in prefix Q (output_of (run [])) \<and> prefix (Q @ K) (output_of (run T)) \<and>
         (\<exists>a. run (T @ file_relayed cv) = Some (Inr (), a) \<and> transmitted a = Q @ K @ K))"

definition server_holds :: "('e, 'c, 'd, 'j, 'ep, 'peer, 'cert) setting \<Rightarrow> conversation \<Rightarrow> bool" where
  "server_holds st cv \<longleftrightarrow>
     (let T = frame (announced cv); A = frame (answer cv); Q = frame (request cv); K = frame ACK;
          M = file_sent cv; P = file_relayed cv; a = sender_id st; b = receiver_id st; run = server_run st
      in a \<noteq> b \<and> length (announced cv) \<le> 1000 \<and>
         (\<exists>w. served_first st (announced cv) w \<and> tx (conn (srv w) a) = A) \<and>
         prefix T (told (run T Q) b) \<and> prefix (A @ K) (told (run T (Q @ K)) a) \<and>
         prefix (T @ P) (told (run (T @ M) (Q @ K)) b) \<and>
         (\<exists>w. run (T @ M) (Q @ K @ K) = Some w \<and> tx (conn (srv w) a) = A @ K @ K \<and> tx (conn (srv w) b) = T @ P))"

lemma server_answers:
  assumes "served_first st t w"
  shows "told (server_run st (frame t) []) (sender_id st) = tx (conn (srv w) (sender_id st))"
proof -
  have "\<not> first_read_ready []" by (simp add: first_read_ready_def)
  moreover have "conn (srv (given st [] [] w)) (receiver_id st) = endpoint []"
    using assms by (simp add: served_first_def given_def socket_later_def)
  ultimately have "server_run st (frame t @ []) [] = Some (given st [] [] w)"
    unfolding server_run_announced [OF assms] by (simp add: serve_complete_def)
  then show ?thesis by (simp add: told_def)
qed

lemma shown_between:
  assumes "sender_run st z = Some (r, a)" and "shown_code (sender_run st x) = Some code" and "prefix x y" and "prefix y z"
  shows "shown_code (sender_run st y) = Some code"
proof -
  obtain r1 a1 where "sender_run st y = Some (r1, a1)" using sender_run_later [OF assms(1,4)] by blast
  from shown_code_later [OF this assms(3,2)] show ?thesis .
qed

lemma transfer_talks:
  assumes "sender_holds st cv" and "receiver_holds st cv" and "server_holds st cv"
  shows "talk (st, \<lparr>announcement = announced cv, code_told = share_code cv, said = turns cv\<rparr>)"
proof -
  let ?T = "frame (announced cv)" and ?A = "frame (answer cv)" and ?Q = "frame (request cv)" and ?K = "frame ACK"
  let ?a = "sender_id st" and ?b = "receiver_id st" and ?M = "file_sent cv" and ?P = "file_relayed cv"
  obtain r0 a0 a1 where s: "sender_run st [] = Some (r0, a0)" "prefix ?T (output_of (sender_run st []))" "printed a0 = []"
    "shown_code (sender_run st ?A) = Some (share_code cv)" "prefix (?T @ ?M) (output_of (sender_run st (?A @ ?K)))"
    "sender_run st (?A @ ?K @ ?K) = Some (Inr (), a1)" "output_of (sender_run st (?A @ ?K @ ?K)) = ?T @ ?M"
    using assms(1) by (auto simp: sender_holds_def Let_def output_of_def)
  have shown: "shown_code (sender_run st (?A @ ?K)) = Some (share_code cv)" "shown_code (sender_run st (?A @ ?K @ ?K)) = Some (share_code cv)"
    using shown_between [OF s(6,4)] by simp_all
  obtain b where r: "prefix ?Q (output_of (receiver_run st (share_code cv) []))" "prefix (?Q @ ?K) (output_of (receiver_run st (share_code cv) ?T))"
    "receiver_run st (share_code cv) (?T @ ?P) = Some (Inr (), b)" "output_of (receiver_run st (share_code cv) (?T @ ?P)) = ?Q @ ?K @ ?K"
    using assms(2) by (auto simp: receiver_holds_def Let_def output_of_def)
  obtain w where ids: "?a \<noteq> ?b" "length (announced cv) \<le> 1000" "served_first st (announced cv) w" "tx (conn (srv w) ?a) = ?A"
    using assms(3) by (auto simp: server_holds_def Let_def)
  obtain w' where v: "prefix ?T (told (server_run st ?T ?Q) ?b)" "prefix (?A @ ?K) (told (server_run st ?T (?Q @ ?K)) ?a)"
    "prefix (?T @ ?P) (told (server_run st (?T @ ?M) (?Q @ ?K)) ?b)"
    "server_run st (?T @ ?M) (?Q @ ?K @ ?K) = Some w'" "told (server_run st (?T @ ?M) (?Q @ ?K @ ?K)) ?a = ?A @ ?K @ ?K"
    "told (server_run st (?T @ ?M) (?Q @ ?K @ ?K)) ?b = ?T @ ?P"
    using assms(3) by (auto simp: server_holds_def Let_def told_def)
  have ans: "told (server_run st ?T []) ?a = ?A" using server_answers [OF ids(3)] ids(4) by simp
  have ready: "first_read_ready (?T @ z)" for z using ids(2) by (rule first_read_ready_text)
  have "successively (next_turn st) (turns cv)"
    unfolding turns_def Let_def using s r v ans shown ready ready [of "[]"]
    by (simp add: next_turn_def all_channels in_order_def)
  moreover have "ends_at st (share_code cv) (transfer_end cv)"
    unfolding ends_at_def fun_eq_iff all_channels transfer_end_def using s r v shown by simp
  moreover have "hd (turns cv) = (\<lambda>_. [])" "last (turns cv) = transfer_end cv" "turns cv \<noteq> []"
    by (simp_all add: turns_def Let_def flow_empty transfer_end_def)
  ultimately show ?thesis using ids s(1,3) by (auto simp: talk_def transfer_end_def)
qed

end
