(* ===== verification/Completion.thy ===== *)
theory Completion
  imports Progress
begin

text \<open>
  The sender, the server and the receiver of a file or of a directory hold a conversation; so, by
  \<open>Progress\<close>, the transfer completes on every network.
\<close>

section \<open>The sender's part\<close>

lemma andthen_grows_from:
  assumes "m s = (Inr x, s')" and "\<And>x. grows out (f x)"
  shows "prefix (out s' k) (out (snd (andthen m f s)) k)"
  using assms by (simp add: andthen_def grows_def)

text \<open>What the sender has ready: its temporary directory, and the file or the packed directory.\<close>

definition sender_prepared ::
  "('e, 'c, 'd, 'j, 'ep, 'peer, 'cert) setting \<Rightarrow> host \<Rightarrow> raii_entry \<Rightarrow> bool \<Rightarrow> host \<Rightarrow> bool" where
  "sender_prepared st h e c h2 \<longleftrightarrow>
     (\<forall>k. DropFileSendClient_init (\<lparr>sock = k, machine = sends_from st\<rparr> :: client) = (Inr (), \<lparr>sock = k, machine = h\<rparr>) \<and>
       compressIfNecessary (zstd (libraries st)) (sent_path st) (\<lparr>sock = k, machine = h\<rparr> :: client) =
         Some (Inr (e, c), \<lparr>sock = k, machine = h2\<rparr>))"

lemma RAIIFSEntry_moved: "fst (RAIIFSEntry_move e) = e" "RAIIFSEntry_destroy (snd (RAIIFSEntry_move e)) h = h"
  by (simp_all add: RAIIFSEntry_move_def RAIIFSEntry_destroy_def)

lemma sender_run_prepared:
  assumes "sender_prepared st h e c h2"
  shows "sender_run st x = Some (case announce (evp (libraries st)) (json (libraries st)) (entry_path e) c
      (\<lparr>sock = endpoint x, machine = h2\<rparr> :: client) of
        (Inl er, s2) \<Rightarrow> (Inl er, \<lparr>left_machine = machine (DropFileSendClient_destroy (s2\<lparr>machine := RAIIFSEntry_destroy e (machine s2)\<rparr>)),
          printed = [], transmitted = tx (sock s2)\<rparr>)
      | (Inr code, s2) \<Rightarrow> case sendFSEntry (available (libraries st)) e s2 of (r, s3) \<Rightarrow>
          (r, \<lparr>left_machine = machine (leave r DropFileSendClient_destroy s3), printed = [''Receive code: '' @ code],
               transmitted = tx (sock s3)\<rparr>))"
proof -
  have p: "DropFileSendClient_init (\<lparr>sock = endpoint x, machine = sends_from st\<rparr> :: client) = (Inr (), \<lparr>sock = endpoint x, machine = h\<rparr>)"
    "compressIfNecessary (zstd (libraries st)) (sent_path st) (\<lparr>sock = endpoint x, machine = h\<rparr> :: client) =
         Some (Inr (e, c), \<lparr>sock = endpoint x, machine = h2\<rparr>)"
    using assms by (simp_all add: sender_prepared_def)
  obtain e1 e2 where mv: "RAIIFSEntry_move e = (e1, e2)" by fastforce
  then have e: "e1 = e" "\<And>h. RAIIFSEntry_destroy e2 h = h" using RAIIFSEntry_moved [of e] by simp_all
  have l: "leave r (RAIIFSEntry_destroy e2) h = h" for r :: "error + unit" and h by (rule leave_id) (rule e(2))
  show ?thesis unfolding sender_run_def run_sender_def p
    by (auto simp: sendFSEntryMetadata_def p mv e(1) l Let_def announce_alive split: prod.split sum.split)
qed

lemma stream_content_causal: "causal client_later client_out (stream_content avail path)"
  unfolding stream_content_def by (intro causal_andthen client_rules send_file_loop_causal)

lemma announce_waits:
  assumes "evp_laws E digest" and "open_in (machine s) p = Some d"
    and "json_dump J (json_object J (send_fields (filename p) (of_nat (length d)) (binaryToHumanReadable (digest d)) c)) = Some t"
    and "length t < 2 ^ 64" and "writable (sock s)" and "rx (sock s) = []"
  shows "\<exists>er s2. announce E J p c s = (Inl er, s2) \<and> prefix (tx (sock s) @ wire t) (tx (sock s2))"
proof -
  obtain er q k where k: "announce E J p c s = (Inl er, s\<lparr>sock := k\<rparr>)" "receive (written (wire t) (sock s)) = (q, k)"
    using announce_unanswered [OF assms] by blast
  have "prefix (tx (written (wire t) (sock s))) (tx k)"
    using causal_growsD [OF receive_causal, of "written (wire t) (sock s)" "()"] k(2) by (simp add: socket_out_def)
  with k(1) show ?thesis by simp
qed

lemma sender_conversation:
  assumes "sender_prepared st h e c h2" and "evp_laws (evp (libraries st)) digest" and "avail_ok (available (libraries st))"
    and "open_in h2 (entry_path e) = Some d" and "length d < 2 ^ 64"
    and "json_dump (json (libraries st)) (json_object (json (libraries st))
      (send_fields (filename (entry_path e)) (of_nat (length d)) (binaryToHumanReadable (digest d)) c)) = Some t"
    and "length t < 2 ^ 64" and "wire t = frame t" and "answers (json (libraries st)) ans code"
  shows "\<exists>ms. concat ms = d \<and> short_messages ms \<and>
    (\<exists>r a. sender_run st [] = Some (r, a) \<and> prefix (frame t) (transmitted a) \<and> printed a = []) \<and>
    shown_code (sender_run st (frame ans)) = Some code \<and>
    prefix (frame t @ concat (map frame ms)) (output_of (sender_run st (frame ans @ frame ACK))) \<and>
    (\<exists>a. sender_run st (frame ans @ frame ACK @ frame ACK) = Some (Inr (), a) \<and>
      transmitted a = frame t @ concat (map frame ms) \<and> printed a = [''Receive code: '' @ code] \<and>
      left_machine a = remove_all (DROP_FILE_SENDER_TMP_DIR (RAIIFSEntry_destroy e h2)) (RAIIFSEntry_destroy e h2))"
proof -
  let ?E = "evp (libraries st)" and ?J = "json (libraries st)" and ?avail = "available (libraries st)"
  let ?s = "\<lambda>x. \<lparr>sock = endpoint x, machine = h2\<rparr> :: client"
  let ?s1 = "\<lambda>x. (?s [])\<lparr>sock := (written (frame t) (endpoint []))\<lparr>rx := x\<rparr>\<rparr>"
  have an: "announce ?E ?J (entry_path e) c (?s (frame ans @ x)) = (Inr code, ?s1 x)" for x
    using announce_ok [of ?E digest "?s (frame ans @ x)" "entry_path e" d ?J c t ans x code] assms(2,4-9)
    by (simp add: written_def endpoint_def writable_def)
  have shown: "shown_code (sender_run st (frame ans @ [])) = Some code"
    unfolding sender_run_prepared [OF assms(1)] an by (simp add: shown_code_def split: prod.split)
  obtain er s2 where wait: "announce ?E ?J (entry_path e) c (?s []) = (Inl er, s2)" "prefix (frame t) (tx (sock s2))"
    using announce_waits [of ?E digest "?s []" "entry_path e" d ?J c t] assms(2,4-8) by auto
  have k: "writable (sock (?s1 (frame ACK)))" "rx (sock (?s1 (frame ACK))) = frame ACK @ []" "tx (sock (?s1 x)) = frame t"
    "open_in (machine (?s1 (frame ACK))) (entry_path e) = Some d" for x
    using assms(4) by (simp_all add: written_def writable_def endpoint_def)
  obtain ms b where ms: "stream_content ?avail (entry_path e) (?s1 (frame ACK)) =
      (Inr (), (?s1 (frame ACK))\<lparr>sock := (written (concat (map frame ms)) (sock (?s1 (frame ACK))))\<lparr>rx := [], data_buffer := b\<rparr>\<rparr>)"
    "concat ms = d" "short_messages ms" using stream_content_ok [OF assms(3) k(1,2,4) assms(5)] by blast
  let ?s3 = "(?s1 (frame ACK))\<lparr>sock := (written (concat (map frame ms)) (sock (?s1 (frame ACK))))\<lparr>rx := [], data_buffer := b\<rparr>\<rparr>"
  have "grows client_out (on_sock receiveACK :: (client, unit) prog)"
    by (rule causal_grows [OF on_sock_causal [OF receiveACK_causal]])
  from andthen_grows_from [where m = "stream_content ?avail (entry_path e)" and f = "\<lambda>_. on_sock receiveACK", OF ms(1) this, of "()"] have
    "prefix (frame t @ concat (map frame ms)) (tx (sock (snd (stream_file ?avail (entry_path e) (?s1 (frame ACK))))))"
    by (simp add: stream_file_content client_out_def endpoint_def written_def)
  then have half: "prefix (frame t @ concat (map frame ms)) (output_of (sender_run st (frame ans @ frame ACK)))"
    unfolding sender_run_prepared [OF assms(1)] an by (simp add: output_of_def sendFSEntry_def case_prod_unfold)
  have c: "continues client_later client_out (stream_content ?avail (entry_path e)) (?s1 (frame ACK))"
    by (rule causal_continues [OF stream_content_causal])
  have late: "client_later (frame ACK) (?s1 (frame ACK)) = ?s1 (frame ACK @ frame ACK)"
    by (simp add: client_later_def socket_later_def)
  have "stream_content ?avail (entry_path e) (?s1 (frame ACK @ frame ACK)) = (Inr (), client_later (frame ACK) ?s3)"
    using continuesD [OF c ms(1), of "frame ACK"] unfolding late by simp
  moreover have "on_sock receiveACK (client_later (frame ACK) ?s3) = (Inr (), (client_later (frame ACK) ?s3)\<lparr>sock :=
      (sock (client_later (frame ACK) ?s3))\<lparr>rx := [], data_buffer := overwrite ACK b\<rparr>\<rparr>)"
    using receiveACK_ok [of "sock (client_later (frame ACK) ?s3)" "[]"] by (intro on_sock_ok) simp
  ultimately obtain s4 where s4: "stream_file ?avail (entry_path e) (?s1 (frame ACK @ frame ACK)) = (Inr (), s4)"
    "tx (sock s4) = frame t @ concat (map frame ms)" "machine s4 = h2"
    by (simp add: stream_file_content andthen_def endpoint_def written_def)
  then have "sendFSEntry ?avail e (?s1 (frame ACK @ frame ACK)) = (Inr (), s4\<lparr>machine := RAIIFSEntry_destroy e h2\<rparr>)"
    by (simp add: sendFSEntry_def)
  then have full: "\<exists>a. sender_run st (frame ans @ frame ACK @ frame ACK) = Some (Inr (), a) \<and>
      transmitted a = frame t @ concat (map frame ms) \<and> printed a = [''Receive code: '' @ code] \<and>
      left_machine a = remove_all (DROP_FILE_SENDER_TMP_DIR (RAIIFSEntry_destroy e h2)) (RAIIFSEntry_destroy e h2)"
    unfolding sender_run_prepared [OF assms(1)] an using s4(2) by (simp add: DropFileSendClient_destroy_def)
  have "\<exists>r a. sender_run st [] = Some (r, a) \<and> prefix (frame t) (transmitted a) \<and> printed a = []"
    unfolding sender_run_prepared [OF assms(1)] using wait by simp
  then show ?thesis using ms(2,3) shown half full by (intro exI [of _ ms]) simp
qed

section \<open>The receiver's part\<close>

definition receiver_prepared :: "('e, 'c, 'd, 'j, 'ep, 'peer, 'cert) setting \<Rightarrow> host \<Rightarrow> bool" where
  "receiver_prepared st h \<longleftrightarrow>
     (\<forall>k. DropFileReceiveClient_init \<lparr>sock = k, machine = receives_at st, interaction = typed st\<rparr> =
        (Inr (), \<lparr>sock = k, machine = h, interaction = typed st\<rparr>))"

lemma receiver_run_prepared:
  assumes "receiver_prepared st h"
  shows "receiver_run st code x = map_option (\<lambda>(r, s1). (r, \<lparr>left_machine = machine (leave r DropFileReceiveClient_destroy s1),
      printed = [], transmitted = tx (sock s1)\<rparr>))
    (ReceiveClient.receiveFile (evp (libraries st)) (zstd (libraries st)) (json (libraries st)) code
      \<lparr>sock = endpoint x, machine = h, interaction = typed st\<rparr>)"
proof -
  have "DropFileReceiveClient_init \<lparr>sock = endpoint x, machine = receives_at st, interaction = typed st\<rparr> =
        (Inr (), \<lparr>sock = endpoint x, machine = h, interaction = typed st\<rparr>)"
    using assms by (simp add: receiver_prepared_def)
  then show ?thesis by (simp add: receiver_run_def run_receiver_def)
qed

lemma receiveFile_sock:
  "ReceiveClient.receiveFile E Z J code s = Some (r, s') \<Longrightarrow> sock s' = sock (snd (download E J code s))"
  by (auto simp: ReceiveClient.receiveFile_def split: prod.splits sum.splits)

text \<open>\<open>download\<close> after the user's decision, and after the request.\<close>

definition download_confirmed :: "'e evp_api \<Rightarrow> 'j json_api \<Rightarrow> 'j \<Rightarrow> (receiver, bool \<times> string) prog" where
  "download_confirmed E J server_response =
     andthen (of_sum (json_get (json_get_string J) J server_response FILENAME_KEY)) (\<lambda>name.
     andthen (of_sum (json_get (json_get_bool J) J server_response IS_COMPRESSED_KEY)) (\<lambda>is_compressed.
     andthen (ask (\<lambda>h. Inr (path_append
         (if is_compressed then DROP_FILE_RECEIVER_TMP_DIR h else current_path h) name))) (\<lambda>path.
     andthen (of_sum (json_get (json_get_size J) J server_response FILE_SIZE_KEY)) (\<lambda>fsize.
     andthen (receiveFileImpl path fsize) (\<lambda>_.
     andthen (of_sum (json_get (json_get_string J) J server_response FILE_HASH_KEY)) (\<lambda>hash.
     andthen (ask (validateFileHash E path hash)) (\<lambda>_.
       ret (is_compressed, path))))))))"

definition download_requested :: "'e evp_api \<Rightarrow> 'j json_api \<Rightarrow> (receiver, bool \<times> string) prog" where
  "download_requested E J = andthen (getServerResponse J) (\<lambda>response. andthen getUserConfirmation (\<lambda>_. download_confirmed E J response))"

lemma download_parts:
  assumes "json_dump J (createReceiveMessage J code) = Some q" and "length q < 2 ^ 64" and "writable (sock s)"
  shows "download E J code s = download_requested E J (s\<lparr>sock := written (wire q) (sock s)\<rparr>)"
proof -
  have "on_sock (send q) s = (Inr (), s\<lparr>sock := written (wire q) (sock s)\<rparr>)"
    using assms(2,3) by (intro on_sock_ok send_ok writable_carries)
  then show ?thesis using assms(1)
    by (simp add: download_def download_requested_def download_confirmed_def andthen_Inr)
qed

lemma download_confirmed_causal: "causal client_later client_out (download_confirmed E J response)"
  unfolding download_confirmed_def by (intro causal_andthen client_rules receiveFileImpl_causal)

lemma download_requested_causal: "causal client_later client_out (download_requested E J)"
  unfolding download_requested_def
  by (intro causal_andthen getServerResponse_causal getUserConfirmation_causal download_confirmed_causal)

lemma download_requested_confirms:
  assumes "rx (sock s) = frame t @ rest" and "length t \<le> unat BUFFER_SIZE" and "check_response J t (machine s) = Inr j"
    and "says_yes (interaction s)" and "writable (sock s)"
  shows "prefix (tx (sock s) @ frame ACK) (tx (sock (snd (download_requested E J s))))"
proof -
  let ?s1 = "s\<lparr>sock := (sock s)\<lparr>rx := rest\<rparr>\<rparr>"
  have 1: "getServerResponse J s = (Inr j, ?s1)" by (rule getServerResponse_ok [OF assms(1-3)])
  have "writable (sock ?s1)" using assms(5) by (simp add: writable_def)
  then have 2: "getUserConfirmation ?s1 = (Inr (), ?s1\<lparr>interaction := snd (read_char (interaction ?s1)), sock := written (frame ACK) (sock ?s1)\<rparr>)"
    using assms(4) by (intro getUserConfirmation_yes) simp_all
  have "prefix (client_out (?s1\<lparr>interaction := snd (read_char (interaction ?s1)), sock := written (frame ACK) (sock ?s1)\<rparr>) ())
      (client_out (snd (andthen getUserConfirmation (\<lambda>_. download_confirmed E J j) ?s1)) ())"
    by (rule andthen_grows_from [where m = getUserConfirmation, OF 2 causal_grows [OF download_confirmed_causal]])
  then show ?thesis using 1 by (simp add: download_requested_def andthen_Inr client_out_def)
qed

lemma receiver_conversation:
  assumes "receiver_prepared st h" and "json_dump (json (libraries st)) (createReceiveMessage (json (libraries st)) code) = Some q"
    and "length q < 2 ^ 64" and "wire q = frame q" and "length t \<le> unat BUFFER_SIZE"
    and "check_response (json (libraries st)) t h = Inr j" and "says_yes (typed st)"
    and "ReceiveClient.receiveFile (evp (libraries st)) (zstd (libraries st)) (json (libraries st)) code
      \<lparr>sock = endpoint (frame t @ p), machine = h, interaction = typed st\<rparr> = Some (Inr (), r1)"
  shows "prefix (frame q) (output_of (receiver_run st code []))"
    and "prefix (frame q @ frame ACK) (output_of (receiver_run st code (frame t)))"
    and "receiver_run st code (frame t @ p) = Some (Inr (), \<lparr>left_machine = machine (DropFileReceiveClient_destroy r1),
      printed = [], transmitted = tx (sock r1)\<rparr>)"
proof -
  let ?E = "evp (libraries st)" and ?J = "json (libraries st)"
  let ?s = "\<lambda>x. \<lparr>sock = endpoint x, machine = h, interaction = typed st\<rparr>"
  let ?s1 = "\<lambda>x. (?s x)\<lparr>sock := written (frame q) (endpoint x)\<rparr>"
  note run = receiver_run_prepared [OF assms(1)]
  show full: "receiver_run st code (frame t @ p) = Some (Inr (), \<lparr>left_machine = machine (DropFileReceiveClient_destroy r1),
      printed = [], transmitted = tx (sock r1)\<rparr>)"
    unfolding run assms(8) by simp
  have dl: "download ?E ?J code (?s x) = download_requested ?E ?J (?s1 x)" for x
    using download_parts [OF assms(2,3), of "?s x"] assms(4) by simp
  have out: "output_of (receiver_run st code x) = tx (sock (snd (download_requested ?E ?J (?s1 x))))"
    if x: "prefix x (frame t @ p)" for x
  proof -
    obtain r a where ra: "receiver_run st code x = Some (r, a)" using receiver_run_later [OF full x] by blast
    then obtain s2 where "ReceiveClient.receiveFile ?E (zstd (libraries st)) ?J code (?s x) = Some (r, s2)" "transmitted a = tx (sock s2)"
      unfolding run by auto
    with receiveFile_sock [OF this(1)] ra show ?thesis by (simp add: output_of_def dl)
  qed
  have "prefix (client_out (?s1 []) ()) (client_out (snd (download_requested ?E ?J (?s1 []))) ())"
    by (rule causal_growsD [OF download_requested_causal])
  then show "prefix (frame q) (output_of (receiver_run st code []))" using out [of "[]"] by (simp add: client_out_def)
  have "writable (sock (?s1 (frame t)))" by (simp add: writable_def written_def endpoint_def)
  with download_requested_confirms [of "?s1 (frame t)" t "[]" ?J j ?E] assms(5-7)
  show "prefix (frame q @ frame ACK) (output_of (receiver_run st code (frame t)))" using out [of "frame t"] by simp
qed

section \<open>The server's part\<close>

lemma receiveFile_rest_causal:
  "causal server_later server_out (andthen (on w receiveACK) (\<lambda>_. andthen (on a sendACK) (\<lambda>_.
     andthen (of_sum r) (\<lambda>_. ret ()))))"
  by (intro causal_andthen server_rules)

lemma relay_content_causal: "causal server_later server_out (relay_content J w a meta)"
  unfolding relay_content_def by (intro causal_andthen server_rules relay_loop_causal)

lemma of_option_andthen: "andthen (of_option e (Some x)) f = f x"
  by (rule ext) (simp add: andthen_def)

lemma andthen_same: "m s = m' s' \<Longrightarrow> andthen m f s = andthen m' f s'"
  by (simp add: andthen_def)

text \<open>What the server has written when its hand-over waits for the receiver or for the file.\<close>

lemma receiveFile_offers:
  assumes "json_dump J meta = Some d" and "length d < 2 ^ 64" and "writable (conn s w)"
  shows "prefix (tx (conn s w) @ wire d) (tx (conn (snd (ServerSession.receiveFile J w a meta s)) w))"
proof -
  let ?s = "s\<lparr>conn := (conn s)(w := written (wire d) (conn s w))\<rparr>"
  have 1: "on w (send d) s = (Inr (), ?s)" using assms(2,3) by (intro send_text_ok)
  have "prefix (server_out ?s w) (server_out (snd (ServerSession.receiveFile J w a meta s)) w)"
    unfolding ServerSession.receiveFile_def assms(1) of_option_andthen
    by (rule andthen_grows_from [where m = "on w (send d)", OF 1], rule causal_grows [where later = server_later],
        intro causal_andthen server_rules relay_loop_causal)
  then show ?thesis by (simp add: server_out_def)
qed

lemma receiveFile_forwards_confirmation:
  assumes "w \<noteq> a" and "json_dump J meta = Some d" and "length d < 2 ^ 64"
    and "writable (conn s w)" and "writable (conn s a)" and "rx (conn s w) = frame ACK @ rw"
    and "announces J meta name n hash c"
  shows "prefix (tx (conn s a) @ frame ACK) (tx (conn (snd (ServerSession.receiveFile J w a meta s)) a))"
proof -
  obtain b s1 where run: "relay_content J w a meta s = andthen (of_sum (bytesToHumanReadable n)) (\<lambda>_. relay_loop w a 0 n) s1"
    and s1: "s1 = s\<lparr>conn := (conn s)(w := (written (wire d) (conn s w))\<lparr>rx := rw, data_buffer := b\<rparr>,
                            a := written (frame ACK) (conn s a))\<rparr>"
    using relay_content_confirmed [OF assms] by blast
  let ?rest = "\<lambda>_. andthen (on w receiveACK) (\<lambda>_. andthen (on a sendACK) (\<lambda>_.
     andthen (of_sum (json_get (json_get_string J) J meta FILENAME_KEY)) (\<lambda>_. ret ())))"
  have "ServerSession.receiveFile J w a meta s =
      andthen (andthen (of_sum (bytesToHumanReadable n)) (\<lambda>_. relay_loop w a 0 n)) ?rest s1"
    unfolding receiveFile_content by (rule andthen_same) (rule run)
  moreover have "causal server_later server_out (andthen (andthen (of_sum (bytesToHumanReadable n)) (\<lambda>_. relay_loop w a 0 n)) ?rest)"
    by (intro causal_andthen server_rules relay_loop_causal)
  ultimately have "prefix (server_out s1 a) (server_out (snd (ServerSession.receiveFile J w a meta s)) a)"
    using causal_growsD [of server_later server_out _ s1 a] by simp
  then show ?thesis by (simp add: server_out_def s1)
qed

lemma receiveFile_relayed:
  assumes "relay_content J w a meta s = (Inr (), s1)"
  shows "prefix (tx (conn s1 i)) (tx (conn (snd (ServerSession.receiveFile J w a meta s)) i))"
  using andthen_grows_from [where m = "relay_content J w a meta", OF assms causal_grows [OF receiveFile_rest_causal], of i]
  by (simp add: receiveFile_content server_out_def)

text \<open>The server when it has answered the announcement.\<close>

definition registered :: "('e, 'c, 'd, 'j, 'ep, 'peer, 'cert) setting \<Rightarrow> bytes \<Rightarrow> bytes \<Rightarrow> 'j sessions_manager \<Rightarrow> 'j world" where
  "registered st t ans m1 =
     (let w = connected st [] []; a = sender_id st
      in w\<lparr>srv := (srv w)\<lparr>conn := (conn (srv w))(a := written (frame ans) ((endpoint [])\<lparr>
             data_buffer := overwrite t (overwrite (size_bytes (of_nat (length t))) [])\<rparr>)), manager := Some m1\<rparr>,
           phase_of := settle (Some m1) {a} (phase_of w)\<rparr>)"

lemma registered_sel:
  assumes "sender_id st \<noteq> receiver_id st"
  shows "conn (srv (registered st t ans m1)) (receiver_id st) = endpoint []"
    and "tx (conn (srv (registered st t ans m1)) (sender_id st)) = frame ans"
    and "rx (conn (srv (registered st t ans m1)) (sender_id st)) = []"
    and "writable (conn (srv (registered st t ans m1)) (sender_id st))"
    and "manager (srv (registered st t ans m1)) = Some m1"
    and "down (registered st t ans m1) = down (serving st)"
    and "phase_of (registered st t ans m1) (receiver_id st) = Reading"
    and "phase_of (registered st t ans m1) (sender_id st) = (if holds_session (Some m1) (sender_id st) then Waiting else Finished)"
  using assms
  by (auto simp: registered_def Let_def connected_def acceptNewConnection_def endpoint_def settle_def written_def writable_def)

lemma serves_announcement:
  assumes "sender_id st \<noteq> receiver_id st" and "\<not> down (serving st)" and "manager (srv (serving st)) = Some m"
    and "length t \<le> 1000" and "create (json (libraries st)) t = Inr j" and "valid_send (json (libraries st)) j"
    and "registerSender (fst (drawn st)) (fst (clock st)) (sender_id st) j m = Some (Inr code, m1)"
    and "json_dump (json (libraries st)) (json_set (json (libraries st)) (json_null (json (libraries st))) CODE_WORDS_KEY (J_string code)) = Some ans"
    and "length ans < 2 ^ 64" and "wire ans = frame ans"
  shows "serve_complete (json (libraries st)) (fst (drawn st)) (fst (clock st)) (sender_id st) (connected st (frame t @ s) r) =
      Some (given st s r (registered st t ans m1))"
    and "serveFirstRead (json (libraries st)) (fst (drawn st)) (fst (clock st)) (sender_id st) (connected st (frame t @ s) r) =
      Some (given st s r (registered st t ans m1))"
proof -
  let ?w = "connected st (frame t @ s) r" and ?a = "sender_id st"
  have c: "rx (conn (srv ?w) ?a) = frame t @ s" "manager (srv ?w) = Some m" "writable (conn (srv ?w) ?a)"
    "down ?w = down (serving st)" "phase_of ?w ?a = Reading"
    using assms(1,3) by (simp_all add: connected_def acceptNewConnection_def)
  note fr = server_registers [OF c(2,1) assms(4) c(3) assms(5-9), unfolded assms(10)]
  have srv: "(message_read t ?a s (srv ?w))\<lparr>manager := Some m1,
      conn := (conn (message_read t ?a s (srv ?w)))(?a := written (frame ans) (conn (message_read t ?a s (srv ?w)) ?a))\<rparr> =
    srv (given st s r (registered st t ans m1))"
    using assms(1)
    by (auto simp: message_read_def given_def registered_def Let_def connected_def acceptNewConnection_def server_later_def
        socket_later_def endpoint_def written_def fun_eq_iff)
  show 1: "serveFirstRead (json (libraries st)) (fst (drawn st)) (fst (clock st)) ?a ?w = Some (given st s r (registered st t ans m1))"
    using assms(1,2)
    by (simp add: serveFirstRead_def fr [unfolded srv])
      (simp add: given_def registered_def Let_def connected_def acceptNewConnection_def)
  show "serve_complete (json (libraries st)) (fst (drawn st)) (fst (clock st)) ?a ?w = Some (given st s r (registered st t ans m1))"
    using c first_read_ready_text [OF assms(4)] assms(2) 1 by (simp add: serve_complete_def)
qed

text \<open>The state in which the server goes on to the request, when what happens meanwhile leaves the sender waiting.\<close>

definition waits_until_asked :: "('e, 'c, 'd, 'j, 'ep, 'peer, 'cert) setting \<Rightarrow> bytes \<Rightarrow> 'j world \<Rightarrow> bool" where
  "waits_until_asked st t w \<longleftrightarrow> receiver_id st \<notin> set (served_in (meanwhile st)) \<and>
     before_request st (frame t) [] = Some w \<and> phase_of w (sender_id st) = Waiting \<and> \<not> down w"

definition awaits_request :: "('e, 'c, 'd, 'j, 'ep, 'peer, 'cert) setting \<Rightarrow> bytes \<Rightarrow> 'j sessions_manager \<Rightarrow> 'j world \<Rightarrow> bool" where
  "awaits_request st ans m w \<longleftrightarrow> conn (srv w) (receiver_id st) = endpoint [] \<and> tx (conn (srv w) (sender_id st)) = frame ans \<and>
     rx (conn (srv w) (sender_id st)) = [] \<and> writable (conn (srv w) (sender_id st)) \<and>
     manager (srv w) = Some m \<and> manager_ok m \<and> \<not> down w \<and>
     phase_of w (sender_id st) = Waiting \<and> phase_of w (receiver_id st) = Reading"

lemma swapped_cong: "(\<And>i. i \<in> A \<Longrightarrow> f i = g i) \<Longrightarrow> swapped A f s = swapped A g s"
  unfolding swapped_def by (rule server.equality) (simp_all add: fun_eq_iff)

lemma given_with_conns:
  "given st s r w = with_conns {sender_id st, receiver_id st}
     (\<lambda>i. socket_later (if i = receiver_id st then r else s) (conn (srv w) i)) w"
  unfolding given_def with_conns_def swapped_def server_later_def
  by (intro world.equality server.equality) (auto simp: socket_later_def fun_eq_iff)

lemma given_nothing: "given st [] [] w = w"
  unfolding given_def server_later_def
  by (intro world.equality server.equality) (auto simp: socket_later_def fun_eq_iff)

lemma connected_ok:
  assumes "world_ok J text (serving st)" and "sender_id st \<noteq> receiver_id st"
    and "phase_of (serving st) (sender_id st) = Unused" and "phase_of (serving st) (receiver_id st) = Unused"
  shows "world_ok J text (connected st s r)"
  unfolding connected_def using assms
  by (intro accept_world(1)) (simp_all add: acceptNewConnection_def)

lemma connected_reachable:
  assumes "\<not> down (serving st)" and "sender_id st \<noteq> receiver_id st"
    and "phase_of (serving st) (sender_id st) = Unused" and "phase_of (serving st) (receiver_id st) = Unused"
  shows "(server_step J T)\<^sup>*\<^sup>* (serving st) (connected st s r)"
proof -
  let ?u = "acceptNewConnection False (Inr ()) (sender_id st) (endpoint s) (serving st)"
  have "server_step J T (serving st) ?u" using assms(1,3) by (rule server_step.accept)
  moreover have "server_step J T ?u (connected st s r)"
    unfolding connected_def using assms(1,2,4) by (intro server_step.accept) (simp_all add: acceptNewConnection_def)
  ultimately show ?thesis by simp
qed

lemma registered_waits:
  assumes "world_ok (json (libraries st)) text (serving st)"
    and "phase_of (serving st) (sender_id st) = Unused" and "phase_of (serving st) (receiver_id st) = Unused"
    and "sender_id st \<noteq> receiver_id st" and "\<not> down (serving st)" and "manager (srv (serving st)) = Some m"
    and "length t \<le> 1000" and "create (json (libraries st)) t = Inr j" and "valid_send (json (libraries st)) j"
    and "registerSender (fst (drawn st)) (fst (clock st)) (sender_id st) j m = Some (Inr code, m1)"
    and "json_dump (json (libraries st)) (json_set (json (libraries st)) (json_null (json (libraries st))) CODE_WORDS_KEY (J_string code)) = Some ans"
    and "length ans < 2 ^ 64" and "wire ans = frame ans" and "sessions m1 code = Some en" and "client_session en = sender_id st"
  shows "world_ok (json (libraries st)) text (registered st t ans m1)" and "phase_of (registered st t ans m1) (sender_id st) = Waiting"
    and "before_request st (frame t @ s) r =
      schedule (json (libraries st)) (timeout st) (meanwhile st) (given st s r (registered st t ans m1))"
proof -
  let ?J = "json (libraries st)" and ?a = "sender_id st" and ?w = "registered st t ans m1"
  note reg = serves_announcement [OF assms(4-13)]
  have c: "world_ok ?J text (connected st (frame t @ []) [])" "phase_of (connected st (frame t @ []) []) ?a = Reading"
    using connected_ok [OF assms(1,4,2,3)] assms(4) by (simp_all add: connected_def acceptNewConnection_def)
  show ok: "world_ok ?J text ?w" using serve_world(1) [OF c reg(2)] by (simp add: given_nothing)
  then have "waits m1 ?a \<longleftrightarrow> phase_of ?w ?a = Waiting"
    using registered_sel(5) [OF assms(4), of t ans m1] by (auto simp: world_ok_code)
  then show wa: "phase_of ?w ?a = Waiting" using assms(14,15) by (auto simp: waits_def)
  show "before_request st (frame t @ s) r = schedule ?J (timeout st) (meanwhile st) (given st s r ?w)"
    by (simp add: before_request_def reg(1) wa)
qed

lemma waits_for_request:
  assumes "world_ok (json (libraries st)) text (registered st t ans m1)" and "phase_of (registered st t ans m1) (sender_id st) = Waiting"
    and before: "\<And>s r. before_request st (frame t @ s) r =
      schedule (json (libraries st)) (timeout st) (meanwhile st) (given st s r (registered st t ans m1))"
    and "sender_id st \<noteq> receiver_id st" and "sessions m1 code = Some en" and "client_session en = sender_id st"
    and "waits_until_asked st t w"
  shows "\<exists>m2. served_first st t w \<and> awaits_request st ans m2 w \<and> sessions m2 code = Some en \<and> world_ok (json (libraries st)) text w"
proof -
  let ?J = "json (libraries st)" and ?a = "sender_id st" and ?b = "receiver_id st" and ?w = "registered st t ans m1"
  note R = registered_sel [OF assms(4), of t ans m1]
  have w: "?b \<notin> set (served_in (meanwhile st))" "schedule ?J (timeout st) (meanwhile st) ?w = Some w"
    "phase_of w ?a = Waiting" "\<not> down w"
    using assms(7) before [of "[]" "[]"] by (simp_all add: waits_until_asked_def given_nothing)
  have "undisturbed ?J (timeout st) (meanwhile st) ?a {?b} ?w w"
    by (rule schedule_undisturbed [OF assms(1) w(2) assms(2) w(3)]) (use R(7) w(1) in simp_all)
  note ud = this [unfolded undisturbed_def, simplified]
  have "before_request st (frame t @ s) r = Some (given st s r w)" for s r
  proof -
    let ?f = "\<lambda>k i. socket_later (if i = ?b then r else s) (conn k i)"
    have "swapped {?a, ?b} (?f (srv ?w)) (srv w) = swapped {?a, ?b} (?f (srv w)) (srv w)"
      by (rule swapped_cong) (use ud in auto)
    then have "with_conns {?a, ?b} (?f (srv ?w)) w = given st s r w" unfolding given_with_conns by (simp add: with_conns_def)
    moreover have "before_request st (frame t @ s) r = Some (with_conns {?a, ?b} (?f (srv ?w)) w)"
      unfolding before given_with_conns using ud by blast
    ultimately show ?thesis by simp
  qed
  then have "served_first st t w" using ud w(4) R(1) by (simp add: served_first_def)
  moreover obtain m2 where m2: "manager (srv w) = Some m2" "sessions m2 code = Some en" using ud R(5) assms(5,6) by blast
  moreover have okw: "world_ok ?J text w" using sessions_run.run_inv [OF schedule_runs [OF w(2)] assms(1)] .
  moreover have "manager_ok m2" using okw m2(1) by (auto simp: world_ok_code server_ok_def)
  then have "awaits_request st ans m2 w" using ud R w(3,4) m2(1) by (simp add: awaits_request_def)
  ultimately show ?thesis by blast
qed

lemma waits_at_once:
  assumes "phase_of (registered st t ans m1) (sender_id st) = Waiting"
    and "\<And>s r. before_request st (frame t @ s) r =
      schedule (json (libraries st)) (timeout st) (meanwhile st) (given st s r (registered st t ans m1))"
    and "sender_id st \<noteq> receiver_id st" and "\<not> down (serving st)" and "meanwhile st = []"
  shows "waits_until_asked st t (registered st t ans m1)"
  using assms(2) [of "[]" "[]"] registered_sel(6) [OF assms(3)] assms(1,4,5) by (simp add: waits_until_asked_def given_nothing)

text \<open>The server when it has read the request, with further bytes of the two connections.\<close>

definition requested :: "('e, 'c, 'd, 'j, 'ep, 'peer, 'cert) setting \<Rightarrow> 'j world \<Rightarrow> bytes \<Rightarrow> 'j sessions_manager \<Rightarrow> bytes \<Rightarrow> bytes \<Rightarrow> 'j server" where
  "requested st w q m s r = (message_read q (receiver_id st) r (srv (given st s (frame q @ r) w)))\<lparr>manager := Some m\<rparr>"

lemma requested_sel:
  assumes "awaits_request st ans m w" and "sender_id st \<noteq> receiver_id st" and "v = requested st w q m2 s r"
  shows "rx (conn v (receiver_id st)) = r" and "rx (conn v (sender_id st)) = s" and "tx (conn v (receiver_id st)) = []"
    and "tx (conn v (sender_id st)) = frame ans" and "writable (conn v (receiver_id st))" and "writable (conn v (sender_id st))"
    and "manager v = Some m2"
  using assms(1,2)
  by (auto simp: assms(3) awaits_request_def requested_def given_def writable_def message_read_def socket_later_def endpoint_def)

lemma requested_later:
  assumes "sender_id st \<noteq> receiver_id st" and "conn (srv w) (receiver_id st) = endpoint []"
  shows "requested st w q m s (r @ r') = server_later (\<lambda>i. if i = receiver_id st then r' else []) (requested st w q m s r)"
  using assms by (auto simp: requested_def message_read_def given_def server_later_def socket_later_def endpoint_def fun_eq_iff)

lemma server_run_requested:
  assumes "sender_id st \<noteq> receiver_id st" and "served_first st t w" and "awaits_request st ans m1 w" and "length q \<le> 1000"
    and "create (json (libraries st)) q = Inr jq" and "valid_receive (json (libraries st)) jq"
    and "json_get (json_get_string (json (libraries st))) (json (libraries st)) jq CODE_WORDS_KEY = Inr code"
    and "sessions m1 code = Some e" and "client_session e = sender_id st" and "session_data e = j"
  shows "\<exists>m2. sessions m2 = (sessions m1)(code := None) \<and> manager_ok m2 \<and>
    (\<forall>s r. server_run st (frame t @ s) (frame q @ r) =
      (case catch_first_read (receiver_id st) (ServerSession.receiveFile (json (libraries st)) (receiver_id st) (sender_id st) j
          (requested st w q m2 s r)) of (x, v) \<Rightarrow>
        Some (w\<lparr>srv := v, phase_of := settle (manager v) {receiver_id st} (phase_of w),
          down := (case x of Inl e \<Rightarrow> True | Inr _ \<Rightarrow> False)\<rparr>)))"
proof -
  let ?J = "json (libraries st)" and ?a = "sender_id st" and ?b = "receiver_id st"
  note R = assms(3) [unfolded awaits_request_def]
  have g: "manager (srv (given st s r w)) = Some m1" "rx (conn (srv (given st s r w)) ?b) = r" "\<not> down (given st s r w)"
    "phase_of (given st s r w) ?b = Reading" for s r
    using R by (simp_all add: given_def)
  have mok: "manager_ok m1" using R by blast
  have g0: "rx (conn (srv (given st [] (frame q) w)) ?b) = frame q @ []" using g(2) by simp
  from server_hands_over [OF g(1) mok g0 assms(4) assms(5-9), of "snd (drawn st)" "snd (clock st)"] obtain m2 where
    m2: "sessions m2 = (sessions m1)(code := None)" "manager_ok m2"
    and fr: "\<And>s. manager s = Some m1 \<Longrightarrow> \<exists>rw. rx (conn s ?b) = frame q @ rw \<Longrightarrow>
      first_read ?J (snd (drawn st)) (snd (clock st)) ?b s = Some (catch_first_read ?b (ServerSession.receiveFile ?J ?b ?a (session_data e)
        ((message_read q ?b (drop (length (frame q)) (rx (conn s ?b))) s)\<lparr>manager := Some m2\<rparr>)))" by blast
  have "server_run st (frame t @ s) (frame q @ r) =
      (case catch_first_read ?b (ServerSession.receiveFile ?J ?b ?a j (requested st w q m2 s r)) of (x, v) \<Rightarrow>
        Some (w\<lparr>srv := v, phase_of := settle (manager v) {?b} (phase_of w), down := (case x of Inl e \<Rightarrow> True | Inr _ \<Rightarrow> False)\<rparr>))"
    for s r
  proof -
    let ?v = "given st s (frame q @ r) w"
    have "drop (length (frame q)) (rx (conn (srv ?v) ?b)) = r" unfolding g(2) by (simp del: length_frame)
    then have "first_read ?J (snd (drawn st)) (snd (clock st)) ?b (srv ?v) =
        Some (catch_first_read ?b (ServerSession.receiveFile ?J ?b ?a j (requested st w q m2 s r)))"
      using fr [OF g(1)] g(2) assms(10) unfolding requested_def by metis
    moreover have "first_read_ready (rx (conn (srv ?v) ?b))" unfolding g(2) by (rule first_read_ready_text [OF assms(4)])
    ultimately show ?thesis unfolding server_run_announced [OF assms(2)] using g(3,4)
      by (simp add: serve_complete_def serveFirstRead_def given_def split: prod.split)
  qed
  with m2 show ?thesis by blast
qed

lemma server_conversation:
  assumes "sender_id st \<noteq> receiver_id st" and "served_first st t w0" and "awaits_request st ans m1 w0"
    and "length q \<le> 1000" and "create (json (libraries st)) q = Inr jq"
    and "valid_receive (json (libraries st)) jq"
    and "json_get (json_get_string (json (libraries st))) (json (libraries st)) jq CODE_WORDS_KEY = Inr code"
    and "sessions m1 code = Some e" and "client_session e = sender_id st" and "session_data e = j"
    and "json_dump (json (libraries st)) j = Some t" and "length t < 2 ^ 64" and "wire t = frame t"
    and "announces (json (libraries st)) j name n hash c" and "n \<noteq> 0" and "unat n = length (concat ms)" and "short_messages ms"
  shows "\<exists>ps m2 w. prefix (frame t) (told (server_run st (frame t) (frame q)) (receiver_id st)) \<and>
    prefix (frame ans @ frame ACK) (told (server_run st (frame t) (frame q @ frame ACK)) (sender_id st)) \<and>
    prefix (frame t @ concat (map frame ps))
      (told (server_run st (frame t @ concat (map frame ms)) (frame q @ frame ACK)) (receiver_id st)) \<and>
    server_run st (frame t @ concat (map frame ms)) (frame q @ frame ACK @ frame ACK) = Some w \<and>
    tx (conn (srv w) (sender_id st)) = frame ans @ frame ACK @ frame ACK \<and>
    tx (conn (srv w) (receiver_id st)) = frame t @ concat (map frame ps) \<and> concat ps = concat ms \<and> short_messages ps \<and>
    \<not> down w \<and> manager (srv w) = Some m2 \<and> manager_ok m2 \<and> sessions m2 = (sessions m1)(code := None) \<and>
    phase_of w = settle (Some m2) {receiver_id st} (phase_of w0)"
proof -
  let ?J = "json (libraries st)" and ?a = "sender_id st" and ?b = "receiver_id st"
  from server_run_requested [OF assms(1-10)] obtain m2 where m2: "sessions m2 = (sessions m1)(code := None)" "manager_ok m2"
    and run: "\<And>s r. server_run st (frame t @ s) (frame q @ r) =
      (case catch_first_read ?b (ServerSession.receiveFile ?J ?b ?a j (requested st w0 q m2 s r)) of (x, v) \<Rightarrow>
        Some (w0\<lparr>srv := v, phase_of := settle (manager v) {?b} (phase_of w0), down := (case x of Inl e \<Rightarrow> True | Inr _ \<Rightarrow> False)\<rparr>))"
    by blast
  let ?v = "requested st w0 q m2"
  have rb: "conn (srv w0) ?b = endpoint []" using assms(3) by (simp add: awaits_request_def)
  have ba: "?b \<noteq> ?a" using assms(1) by simp
  note V = requested_sel [OF assms(3,1) refl, of q m2]
  have caught: "prefix (tx (conn (snd (ServerSession.receiveFile ?J ?b ?a j (?v s r))) i))
      (told (server_run st (frame t @ s) (frame q @ r)) i)" for s r i
    using catch_first_read_grows [of "snd (ServerSession.receiveFile ?J ?b ?a j (?v s r))" i ?b
        "fst (ServerSession.receiveFile ?J ?b ?a j (?v s r))"]
    by (simp add: run told_def server_out_def case_prod_unfold)
  have 1: "prefix (frame t) (told (server_run st (frame t) (frame q)) ?b)"
    using receiveFile_offers [OF assms(11,12) V(5) [of "[]" "[]"], of ?a] caught [of "[]" "[]" ?b] V(3) [of "[]" "[]"] assms(13)
    by (auto intro: prefix_order.order_trans)
  have k: "rx (conn (?v s (frame ACK)) ?b) = frame ACK @ []" for s using V(1) by simp
  have 2: "prefix (frame ans @ frame ACK) (told (server_run st (frame t) (frame q @ frame ACK)) ?a)"
    using receiveFile_forwards_confirmation [OF ba assms(11,12) V(5,6) k assms(14), of "[]"] caught [of "[]" "frame ACK" ?a] V(4) [of "[]" "frame ACK"]
    by (auto intro: prefix_order.order_trans)
  let ?M = "concat (map frame ms)"
  have m: "rx (conn (?v ?M (frame ACK)) ?a) = concat (map frame ms) @ []" "unat n \<le> length (concat ms)"
    using V(2) assms(16) by simp_all
  from relay_content_ok [OF ba assms(11,12,14,15) V(5,6) k m(1) assms(17) m(2)] obtain v ps where
    v: "relay_content ?J ?b ?a j (?v ?M (frame ACK)) = (Inr (), v)" "tx (conn v ?b) = frame t @ concat (map frame ps)"
    "tx (conn v ?a) = frame ans @ frame ACK" "rx (conn v ?b) = []" "writable (conn v ?a)" "manager v = Some m2"
    and ps: "concat ps = concat ms" "short_messages ps"
    using V(3,4,7) [of ?M "frame ACK"] assms(13,16) by auto
  have 3: "prefix (frame t @ concat (map frame ps)) (told (server_run st (frame t @ ?M) (frame q @ frame ACK)) ?b)"
    using receiveFile_relayed [OF v(1), of ?b] caught [of ?M "frame ACK" ?b] v(2) by (auto intro: prefix_order.order_trans)
  let ?later = "server_later (\<lambda>i. if i = ?b then frame ACK else [])"
  have "relay_content ?J ?b ?a j (?v ?M (frame ACK @ frame ACK)) = (Inr (), ?later v)"
    unfolding requested_later [OF assms(1) rb]
    by (rule continuesD [OF causal_continues [OF relay_content_causal] v(1)]) simp
  moreover have "rx (conn (?later v) ?b) = frame ACK @ []" "writable (conn (?later v) ?a)"
    using v(4,5) assms(1) by (simp_all add: writable_def)
  ultimately obtain v' where v': "ServerSession.receiveFile ?J ?b ?a j (?v ?M (frame ACK @ frame ACK)) = (Inr (), v')"
    "tx (conn v' ?b) = frame t @ concat (map frame ps)" "tx (conn v' ?a) = frame ans @ frame ACK @ frame ACK" "manager v' = Some m2"
    using receiveFile_acknowledged [OF ba, of ?J j "?v ?M (frame ACK @ frame ACK)" "?later v" "[]" name n hash c] assms(14) v(2,3,6) by auto
  then have "server_run st (frame t @ ?M) (frame q @ frame ACK @ frame ACK) =
      Some (w0\<lparr>srv := v', phase_of := settle (Some m2) {?b} (phase_of w0), down := False\<rparr>)"
    by (simp add: run catch_first_read_def)
  then show ?thesis using 1 2 3 v' ps m2
    by (intro exI [of _ ps] exI [of _ m2]
        exI [of _ "w0\<lparr>srv := v', phase_of := settle (Some m2) {?b} (phase_of w0), down := False\<rparr>"]) simp
qed

end
