(* ===== verification/Delivered.thy ===== *)
theory Delivered
  imports Completion
begin

text \<open>
  The transfer of a file and of a directory, on every network, from any state the server can be in: it
  cannot stop before it is complete, and then the receiver has what the sender had.
\<close>

section \<open>Completion\<close>

text \<open>
  Every run of the network stays below \<open>fin\<close>, is at most as long as \<open>fin\<close> has bytes, and can go on unless
  it has reached \<open>fin\<close>: there it ends, in whatever order the bytes have come.
\<close>

definition completes :: "('e, 'c, 'd, 'j, 'ep, 'peer, 'cert) setting \<Rightarrow> (channel \<Rightarrow> bytes) \<Rightarrow> bool" where
  "completes st fin \<longleftrightarrow> (\<forall>n X. (arrives (writes st) ^^ n) (\<lambda>_. []) X \<longrightarrow>
     below X fin \<and> n \<le> bytes_in fin \<and> ((\<nexists>X'. arrives (writes st) X X') \<longleftrightarrow> X = fin))"

lemma talk_completes:
  assumes "talk (st, dg)"
  shows "completes st (last (said dg))"
proof -
  have "last (said dg) = said dg ! (length (said dg) - 1)" using assms by (simp add: talk_def last_conv_nth)
  then show ?thesis using dialogue_net.runs_complete [OF assms] by (simp add: completes_def)
qed

text \<open>
  A transfer is over for the server when both sessions are, and its table is the one before the request
  without the code; when nothing else has happened meanwhile, the one before the transfer.
\<close>

definition table_of :: "'j world \<Rightarrow> (string \<Rightarrow> 'j timed_session option) option" where
  "table_of w = map_option sessions (manager (srv w))"

definition server_over :: "('e, 'c, 'd, 'j, 'ep, 'peer, 'cert) setting \<Rightarrow> string \<Rightarrow> 'j world \<Rightarrow> 'j world \<Rightarrow> bool" where
  "server_over st code w0 w \<longleftrightarrow> \<not> down w \<and> phase_of w (sender_id st) = Finished \<and> phase_of w (receiver_id st) = Finished \<and>
     table_of w = map_option (\<lambda>f. f(code := None)) (table_of w0) \<and>
     (meanwhile st = [] \<longrightarrow> table_of w = table_of (serving st))"

text \<open>What a transfer needs from the server: a reachable state, two new connections and a free code drawn.\<close>

definition server_ready ::
  "('e, 'c, 'd, 'j, 'ep, 'peer, 'cert) setting \<Rightarrow> (string \<Rightarrow> bool) \<Rightarrow> 'j \<Rightarrow> string \<Rightarrow> bool" where
  "server_ready st text j code \<longleftrightarrow>
     (\<exists>w0. initial (json (libraries st)) text w0 \<and> (server_step (json (libraries st)) (timeout st))\<^sup>*\<^sup>* w0 (serving st)) \<and>
     \<not> down (serving st) \<and> sender_id st \<noteq> receiver_id st \<and>
     phase_of (serving st) (sender_id st) = Unused \<and> phase_of (serving st) (receiver_id st) = Unused \<and>
     (\<exists>m m1. manager (srv (serving st)) = Some m \<and>
        registerSender (fst (drawn st)) (fst (clock st)) (sender_id st) j m = Some (Inr code, m1))"

lemma server_ready_table:
  assumes "server_ready st text j code"
  shows "\<exists>m m1 en. manager (srv (serving st)) = Some m \<and> \<not> down (serving st) \<and> sender_id st \<noteq> receiver_id st \<and>
    registerSender (fst (drawn st)) (fst (clock st)) (sender_id st) j m = Some (Inr code, m1) \<and>
    world_ok (json (libraries st)) text (serving st) \<and> phase_of (serving st) (sender_id st) = Unused \<and>
    phase_of (serving st) (receiver_id st) = Unused \<and> json_laws (json (libraries st)) text \<and> text code \<and> sessions m code = None \<and>
    sessions m1 = (sessions m)(code \<mapsto> en) \<and> client_session en = sender_id st \<and> session_data en = j"
proof -
  obtain w0 m m1 where w0: "initial (json (libraries st)) text w0" "(server_step (json (libraries st)) (timeout st))\<^sup>*\<^sup>* w0 (serving st)"
    and m: "manager (srv (serving st)) = Some m"
    and reg: "registerSender (fst (drawn st)) (fst (clock st)) (sender_id st) j m = Some (Inr code, m1)"
    using assms by (auto simp: server_ready_def)
  have wok: "world_ok (json (libraries st)) text (serving st)" using sessions_run.reachable_inv [OF w0] .
  then have ok: "json_laws (json (libraries st)) text" "manager_ok m" "\<forall>code \<in> session_codes m. text code"
    using m by (auto simp: world_ok_def server_ok_def)
  from registerSender_spec [OF ok(2) reg] ok(3) m reg ok(1) assms wok show ?thesis
    by (auto simp: server_ready_def)
qed

lemma server_registered:
  assumes "server_ready st text j code" and "text name"
    and "j = json_object (json (libraries st)) (send_fields name (of_nat (length d)) (binaryToHumanReadable x) c)"
    and "texts_fit (json (libraries st)) j code t ans q"
  shows "\<exists>m m1 en. sender_id st \<noteq> receiver_id st \<and> \<not> down (serving st) \<and> json_laws (json (libraries st)) text \<and> text code \<and>
    manager (srv (serving st)) = Some m \<and> sessions m code = None \<and>
    sessions m1 = (sessions m)(code \<mapsto> en) \<and> client_session en = sender_id st \<and> session_data en = j \<and>
    world_ok (json (libraries st)) text (registered st t ans m1) \<and> phase_of (registered st t ans m1) (sender_id st) = Waiting \<and>
    (\<forall>s r. before_request st (frame t @ s) r =
      schedule (json (libraries st)) (timeout st) (meanwhile st) (given st s r (registered st t ans m1)))"
proof -
  let ?J = "json (libraries st)"
  obtain m m1 en where m: "manager (srv (serving st)) = Some m"
    and up: "\<not> down (serving st)" and ids: "sender_id st \<noteq> receiver_id st"
    and reg: "registerSender (fst (drawn st)) (fst (clock st)) (sender_id st) j m = Some (Inr code, m1)"
    and wok: "world_ok ?J text (serving st)" "phase_of (serving st) (sender_id st) = Unused"
      "phase_of (serving st) (receiver_id st) = Unused"
    and laws: "json_laws ?J text" and tc: "text code" and free: "sessions m code = None"
    and en: "sessions m1 = (sessions m)(code \<mapsto> en)" "client_session en = sender_id st" "session_data en = j"
    using server_ready_table [OF assms(1)] by blast
  note x = exchanged_texts [OF laws assms(2) tc assms(3,4)]
  have tf: "length t \<le> 1000" "length ans < 2 ^ 64" "json_dump ?J (json_set ?J (json_null ?J) CODE_WORDS_KEY (J_string code)) = Some ans"
    using assms(4) by (auto simp: texts_fit_def)
  have se: "sessions m1 code = Some en" using en(1) by simp
  note rw = registered_waits [OF wok ids up m tf(1) x(2,3) reg tf(3,2) x(8) se en(2)]
  show ?thesis using ids up laws tc m free en rw by blast
qed

lemma server_awaits:
  assumes "server_ready st text j code" and "text name"
    and "j = json_object (json (libraries st)) (send_fields name (of_nat (length d)) (binaryToHumanReadable x) c)"
    and "texts_fit (json (libraries st)) j code t ans q" and "waits_until_asked st t w0"
  shows "\<exists>m2 en. sender_id st \<noteq> receiver_id st \<and> json_laws (json (libraries st)) text \<and> text code \<and> served_first st t w0 \<and>
    awaits_request st ans m2 w0 \<and> sessions m2 code = Some en \<and> client_session en = sender_id st \<and> session_data en = j \<and>
    world_ok (json (libraries st)) text w0 \<and>
    (meanwhile st = [] \<longrightarrow> map_option sessions (manager (srv (serving st))) = Some ((sessions m2)(code := None)))"
proof -
  let ?J = "json (libraries st)"
  obtain m m1 en where ids: "sender_id st \<noteq> receiver_id st" and laws: "json_laws ?J text" "text code"
    and m: "manager (srv (serving st)) = Some m" "sessions m code = None"
    and en: "sessions m1 = (sessions m)(code \<mapsto> en)" "client_session en = sender_id st" "session_data en = j"
    and rw: "world_ok ?J text (registered st t ans m1)" "phase_of (registered st t ans m1) (sender_id st) = Waiting"
      "\<And>s r. before_request st (frame t @ s) r = schedule ?J (timeout st) (meanwhile st) (given st s r (registered st t ans m1))"
    using server_registered [OF assms(1-4)] by blast
  have se: "sessions m1 code = Some en" using en(1) by simp
  from waits_for_request [OF rw ids se en(2) assms(5)] obtain m2 where m2: "served_first st t w0" "awaits_request st ans m2 w0"
    "sessions m2 code = Some en" "world_ok ?J text w0" by blast
  have "meanwhile st = [] \<Longrightarrow> w0 = registered st t ans m1"
    using assms(5) rw(3) [of "[]" "[]"] by (simp add: waits_until_asked_def given_nothing)
  then have "meanwhile st = [] \<Longrightarrow> m2 = m1" using m2(2) registered_sel(5) [OF ids, of t ans m1] by (simp add: awaits_request_def)
  then have "meanwhile st = [] \<Longrightarrow> sessions m = (sessions m2)(code := None)" using en(1) m(2) by (simp add: fun_eq_iff)
  then show ?thesis using ids laws m2 en(2,3) m(1) by auto
qed

text \<open>Nothing else happens meanwhile: then the sender waits.\<close>

lemma waits_when_idle:
  assumes "server_ready st text j code" and "text name"
    and "j = json_object (json (libraries st)) (send_fields name (of_nat (length d)) (binaryToHumanReadable x) c)"
    and "texts_fit (json (libraries st)) j code t ans q" and "meanwhile st = []"
  shows "\<exists>w0. waits_until_asked st t w0"
  using server_registered [OF assms(1-4)] waits_at_once assms(5) by metis

lemma server_over_settled:
  assumes "world_ok J text w0" and "awaits_request st ans m2 w0" and "sessions m2 code = Some en" and "client_session en = sender_id st"
    and "\<not> down w" and "manager (srv w) = Some m3" and "manager_ok m3" and "sessions m3 = (sessions m2)(code := None)"
    and "phase_of w = settle (Some m3) {receiver_id st} (phase_of w0)"
    and "meanwhile st = [] \<longrightarrow> map_option sessions (manager (srv (serving st))) = Some ((sessions m2)(code := None))"
  shows "server_over st code w0 w"
proof -
  have m2: "manager (srv w0) = Some m2" "phase_of w0 (sender_id st) = Waiting" "phase_of w0 (receiver_id st) = Reading"
    using assms(2) by (simp_all add: awaits_request_def)
  then have oc: "one_code m2" and wt: "\<And>i. waits m2 i \<longleftrightarrow> phase_of w0 i = Waiting"
    using assms(1) by (auto simp: world_ok_code)
  have "\<not> waits m3 (sender_id st)"
    using oc assms(3,4) unfolding waits_def assms(8) one_code_def by (auto split: if_splits)
  moreover have "\<not> waits m3 (receiver_id st)"
    using wt [of "receiver_id st"] m2(3) unfolding waits_def assms(8) by (auto split: if_splits)
  ultimately have "phase_of w (sender_id st) = Finished" "phase_of w (receiver_id st) = Finished"
    unfolding assms(9) settle_def holds_session_waits [OF assms(7)] using m2(2) by simp_all
  then show ?thesis using assms(5,6,8,10) m2(1) by (auto simp: server_over_def table_of_def)
qed

lemma sender_init_any_sock:
  assumes "DropFileSendClient_init (\<lparr>sock = k0, machine = h0\<rparr> :: client) = (Inr (), s)"
  shows "DropFileSendClient_init (\<lparr>sock = k, machine = h0\<rparr> :: client) = (Inr (), \<lparr>sock = k, machine = machine s\<rparr>)"
  using assms by (auto simp: DropFileSendClient_init_def on_machine_def split: prod.splits)

lemma receiver_prepared_init:
  assumes "DropFileReceiveClient_init \<lparr>sock = k0, machine = receives_at st, interaction = typed st\<rparr> = (Inr (), s)"
  shows "receiver_prepared st (machine s)"
  using assms by (auto simp: receiver_prepared_def DropFileReceiveClient_init_def on_machine_def split: prod.splits)

text \<open>The conversation of a transfer, and how the programs end in it.\<close>

lemma transfer_conversation:
  fixes st :: "('e, 'c, 'd, 'j, 'ep, 'peer, 'cert) setting"
  defines "J \<equiv> json (libraries st)" and "E \<equiv> evp (libraries st)" and "Z \<equiv> zstd (libraries st)"
  assumes "evp_laws E digest" and "avail_ok (available (libraries st))"
    and "sender_prepared st hs e c h2" and "open_in h2 (entry_path e) = Some d" and "d \<noteq> []" and "length d < 2 ^ 64"
    and "text (filename (entry_path e))"
    and "j = json_object J (send_fields (filename (entry_path e)) (of_nat (length d)) (binaryToHumanReadable (digest d)) c)"
    and "server_ready st text j code" and "texts_fit J j code t ans q" and "waits_until_asked st t w0"
    and "receiver_prepared st hr" and "says_yes (typed st)" and "\<not> fs_exists hr (filename (entry_path e))"
    and "of_nat (length d) \<le> free_space hr (base_dir c hr)"
    and received: "\<forall>ps. text code \<and> json_laws J text \<and> concat ps = d \<and> short_messages ps \<longrightarrow> (\<exists>r1. ReceiveClient.receiveFile E Z J code
        \<lparr>sock = endpoint (frame t @ concat (map frame ps)), machine = hr, interaction = typed st\<rparr> = Some (Inr (), r1) \<and>
      tx (sock r1) = frame q @ frame ACK @ frame ACK \<and> goal r1)"
  shows "\<exists>fin a b w r1. completes st fin \<and>
    sender_run st (fin To_sender) = Some (Inr (), a) \<and> printed a = [''Receive code: '' @ code] \<and>
    left_machine a = remove_all (DROP_FILE_SENDER_TMP_DIR (RAIIFSEntry_destroy e h2)) (RAIIFSEntry_destroy e h2) \<and>
    receiver_run st code (fin To_receiver) = Some (Inr (), b) \<and>
    left_machine b = remove_all (DROP_FILE_RECEIVER_TMP_DIR (machine r1)) (machine r1) \<and> goal r1 \<and>
    server_run st (fin From_sender) (fin From_receiver) = Some w \<and> server_over st code w0 w"
proof -
  let ?a = "sender_id st" and ?b = "receiver_id st" and ?name = "filename (entry_path e)" and ?n = "of_nat (length d) :: size_t"
  from server_awaits [OF assms(12,10) assms(11) [unfolded J_def] assms(13) [unfolded J_def] assms(14), folded J_def]
  obtain m2 en where ids: "?a \<noteq> ?b" and laws: "json_laws J text" and tc: "text code" and sf: "served_first st t w0"
    and aw: "awaits_request st ans m2 w0" and en: "sessions m2 code = Some en" "client_session en = ?a" "session_data en = j"
    and wok: "world_ok J text w0"
    and idle: "meanwhile st = [] \<longrightarrow> map_option sessions (manager (srv (serving st))) = Some ((sessions m2)(code := None))" by blast
  note x = exchanged_texts [OF laws assms(10) tc assms(11,13)]
  have tf: "length t \<le> 1000" "length t < 2 ^ 64" "length q \<le> 1000" "length q < 2 ^ 64" "json_dump J j = Some t"
    "json_dump J (createReceiveMessage J code) = Some q" "length t \<le> unat BUFFER_SIZE"
    using assms(13) by (auto simp: texts_fit_def BUFFER_SIZE_def)
  have n: "unat ?n = length d" using unat_of_nat_size [OF assms(9)] .
  then have n0: "?n \<noteq> 0" using assms(8) by (metis length_0_conv unat_0)
  from sender_conversation [OF assms(6) assms(4) [unfolded E_def] assms(5,7,9) tf(5) [unfolded assms(11) J_def] tf(2) x(7) x(5) [unfolded J_def]]
  obtain ms a where ms: "concat ms = d" "short_messages ms"
    "\<exists>r a. sender_run st [] = Some (r, a) \<and> prefix (frame t) (transmitted a) \<and> printed a = []"
    "shown_code (sender_run st (frame ans)) = Some code"
    "prefix (frame t @ concat (map frame ms)) (output_of (sender_run st (frame ans @ frame ACK)))"
    and a: "sender_run st (frame ans @ frame ACK @ frame ACK) = Some (Inr (), a)"
      "transmitted a = frame t @ concat (map frame ms)" "printed a = [''Receive code: '' @ code]"
      "left_machine a = remove_all (DROP_FILE_SENDER_TMP_DIR (RAIIFSEntry_destroy e h2)) (RAIIFSEntry_destroy e h2)" by blast
  have rq: "valid_receive J (createReceiveMessage J code)" "json_get (json_get_string J) J (createReceiveMessage J code) CODE_WORDS_KEY = Inr code"
    using createReceiveMessage_valid [OF laws] by blast+
  have nm: "unat ?n = length (concat ms)" using n ms(1) by simp
  from server_conversation [OF ids sf aw tf(3) x(6) [unfolded J_def] rq [unfolded J_def] en tf(5) [unfolded J_def] tf(2) x(7)
      x(4) [unfolded J_def] n0 nm ms(2)]
  obtain ps m3 w where v: "prefix (frame t) (told (server_run st (frame t) (frame q)) ?b)"
    "prefix (frame ans @ frame ACK) (told (server_run st (frame t) (frame q @ frame ACK)) ?a)"
    "prefix (frame t @ concat (map frame ps)) (told (server_run st (frame t @ concat (map frame ms)) (frame q @ frame ACK)) ?b)"
    and w: "server_run st (frame t @ concat (map frame ms)) (frame q @ frame ACK @ frame ACK) = Some w"
      "tx (conn (srv w) ?a) = frame ans @ frame ACK @ frame ACK" "tx (conn (srv w) ?b) = frame t @ concat (map frame ps)"
      "\<not> down w" "manager (srv w) = Some m3" "manager_ok m3" "sessions m3 = (sessions m2)(code := None)"
      "phase_of w = settle (Some m3) {?b} (phase_of w0)"
    and ps: "concat ps = concat ms" "short_messages ps" by blast
  have "text code \<and> json_laws J text \<and> concat ps = d \<and> short_messages ps" using tc laws ps ms(1) by simp
  from received [THEN spec, THEN mp, OF this] obtain r1 where r1: "ReceiveClient.receiveFile E Z J code
        \<lparr>sock = endpoint (frame t @ concat (map frame ps)), machine = hr, interaction = typed st\<rparr> = Some (Inr (), r1)"
    "tx (sock r1) = frame q @ frame ACK @ frame ACK" "goal r1" by blast
  have cr: "check_response J t hr = Inr j" by (rule check_response_ok [OF x(1,4) n0 assms(17,18)])
  note R = receiver_conversation [OF assms(15) tf(6) [unfolded J_def] tf(4) x(9) tf(7) cr [unfolded J_def] assms(16) r1(1) [unfolded J_def E_def Z_def]]
  define cv where "cv = \<lparr>announced = t, answer = ans, request = q, share_code = code,
    file_sent = concat (map frame ms), file_relayed = concat (map frame ps)\<rparr>"
  have "sender_holds st cv" using ms(3-5) a by (simp add: sender_holds_def Let_def cv_def)
  moreover have "receiver_holds st cv" using R r1(2) by (simp add: receiver_holds_def Let_def cv_def)
  moreover have "tx (conn (srv w0) ?a) = frame ans" using aw by (simp add: awaits_request_def)
  then have "server_holds st cv" using ids tf(1) sf v w(1-3) by (auto simp: server_holds_def Let_def cv_def)
  ultimately have "completes st (transfer_end cv)"
    using talk_completes [OF transfer_talks] by (simp add: turns_def Let_def transfer_end_def)
  moreover have "server_over st code w0 w" using server_over_settled [OF wok aw en(1,2) w(4-8) idle] .
  ultimately show ?thesis using a R(3) w(1) r1(3)
    by (intro exI [of _ "transfer_end cv"] exI [of _ a] exI [of _ w] exI [of _ r1] exI)
       (auto simp: cv_def transfer_end_def DropFileReceiveClient_destroy_def)
qed

section \<open>A file\<close>

lemma file_prepared:
  assumes "DropFileSendClient_init (\<lparr>sock = k0, machine = sends_from st\<rparr> :: client) = (Inr (), s)"
    and "open_in (machine s) (sent_path st) = Some d"
  shows "sender_prepared st (machine s) (RAIIFSEntry_init (sent_path st) False) False (machine s)"
proof -
  have "compressIfNecessary (zstd (libraries st)) (sent_path st) (\<lparr>sock = k, machine = machine s\<rparr> :: client) =
      Some (Inr (RAIIFSEntry_init (sent_path st) False, False), \<lparr>sock = k, machine = machine s\<rparr>)" for k
    using assms(2) by (intro file_not_compressed) simp
  then show ?thesis using sender_init_any_sock [OF assms(1)] by (simp add: sender_prepared_def)
qed

text \<open>
  C1. A file transfer cannot fail to complete.  Let a sender have a file that is not empty, the server be
  in any reachable state with two new connections and draw a free code, and the receiver's user agree
  and have room for the file.  Between the first reads of the two, each served when its first message has
  come, the server may do whatever leaves the sender waiting and itself up: accept and serve other
  clients, and sweep its table.  Then, in whatever order the network delivers the bytes of the four
  channels, the programs go on until the transfer is complete: every run ends, at the same place, and
  there the sender and the receiver have returned normally, the code has been shown, the server is up
  with both sessions finished and the code gone from its table, which is otherwise the one before the
  request, and the receiver has exactly the file's bytes under its name and no other change but its
  removed temporary directory.
\<close>

theorem transfer_completes:
  assumes "evp_laws (evp (libraries st)) digest" and "avail_ok (available (libraries st))"
    and "DropFileSendClient_init (\<lparr>sock = endpoint [], machine = sends_from st\<rparr> :: client) = (Inr (), s)"
    and "DropFileReceiveClient_init \<lparr>sock = endpoint [], machine = receives_at st, interaction = typed st\<rparr> = (Inr (), r)"
    and "open_in (machine s) (sent_path st) = Some d" and "d \<noteq> []" and "length d < 2 ^ 64" and "text (filename (sent_path st))"
    and "j = json_object (json (libraries st))
      (send_fields (filename (sent_path st)) (of_nat (length d)) (binaryToHumanReadable (digest d)) False)"
    and "server_ready st text j code" and "texts_fit (json (libraries st)) j code t ans q"
    and "waits_until_asked st t w0"
    and "says_yes (typed st)" and "\<not> fs_exists (machine r) (filename (sent_path st))"
    and "of_nat (length d) \<le> free_space (machine r) (current_path (machine r))"
    and "new_file (machine r) (path_append (current_path (machine r)) (filename (sent_path st))) p"
  shows "\<exists>fin a b w. completes st fin \<and>
    sender_run st (fin To_sender) = Some (Inr (), a) \<and> printed a = [''Receive code: '' @ code] \<and>
    left_machine a = remove_all (DROP_FILE_SENDER_TMP_DIR (machine s)) (machine s) \<and>
    receiver_run st code (fin To_receiver) = Some (Inr (), b) \<and>
    left_machine b = remove_all (DROP_FILE_RECEIVER_TMP_DIR (machine r))
      ((machine r)\<lparr>root := put p (File d) (root (machine r))\<rparr>) \<and>
    server_run st (fin From_sender) (fin From_receiver) = Some w \<and> server_over st code w0 w"
proof -
  let ?e = "RAIIFSEntry_init (sent_path st) False"
  have e: "entry_path ?e = sent_path st" "RAIIFSEntry_destroy ?e h = h" for h
    by (simp_all add: RAIIFSEntry_init_def RAIIFSEntry_destroy_def)
  have n: "unat (of_nat (length d) :: size_t) = length d" using unat_of_nat_size [OF assms(7)] .
  then have n0: "(of_nat (length d) :: size_t) \<noteq> 0" using assms(6) by (metis length_0_conv unat_0)
  have received: "\<exists>r1. ReceiveClient.receiveFile (evp (libraries st)) (zstd (libraries st)) (json (libraries st)) code
        \<lparr>sock = endpoint (frame t @ concat (map frame ps)), machine = machine r, interaction = typed st\<rparr> = Some (Inr (), r1) \<and>
      tx (sock r1) = frame q @ frame ACK @ frame ACK \<and> machine r1 = (machine r)\<lparr>root := put p (File d) (root (machine r))\<rparr>"
    if "text code" "json_laws (json (libraries st)) text" "concat ps = d" "short_messages ps" for ps
    by (rule receiver_side [OF that(2) assms(8) that(1) assms(1,9,11,13-16) n0 that(3) n that(4)])
  then have rc: "\<forall>ps. text code \<and> json_laws (json (libraries st)) text \<and> concat ps = d \<and> short_messages ps \<longrightarrow>
      (\<exists>r1. ReceiveClient.receiveFile (evp (libraries st)) (zstd (libraries st)) (json (libraries st)) code
        \<lparr>sock = endpoint (frame t @ concat (map frame ps)), machine = machine r, interaction = typed st\<rparr> = Some (Inr (), r1) \<and>
      tx (sock r1) = frame q @ frame ACK @ frame ACK \<and> machine r1 = (machine r)\<lparr>root := put p (File d) (root (machine r))\<rparr>)"
    by blast
  have bd: "of_nat (length d) \<le> free_space (machine r) (base_dir False (machine r))" using assms(15) by (simp add: base_dir_def)
  have tmp: "DROP_FILE_RECEIVER_TMP_DIR ((machine r)\<lparr>root := x\<rparr>) = DROP_FILE_RECEIVER_TMP_DIR (machine r)" for x
    by (simp add: DROP_FILE_RECEIVER_TMP_DIR_def)
  from transfer_conversation [where goal = "\<lambda>r1. machine r1 = (machine r)\<lparr>root := put p (File d) (root (machine r))\<rparr>",
      OF assms(1,2) file_prepared [OF assms(3,5)], unfolded e, OF assms(5-12) receiver_prepared_init [OF assms(4)] assms(13,14) bd rc]
  obtain fin a b w and r1 :: receiver where "completes st fin" "sender_run st (fin To_sender) = Some (Inr (), a)" "printed a = [''Receive code: '' @ code]"
    "left_machine a = remove_all (DROP_FILE_SENDER_TMP_DIR (machine s)) (machine s)"
    "receiver_run st code (fin To_receiver) = Some (Inr (), b)"
    "left_machine b = remove_all (DROP_FILE_RECEIVER_TMP_DIR (machine r1)) (machine r1)"
    and r1: "machine r1 = (machine r)\<lparr>root := put p (File d) (root (machine r))\<rparr>"
    and "server_run st (fin From_sender) (fin From_receiver) = Some w" "server_over st code w0 w" by blast
  then show ?thesis unfolding r1 tmp by blast
qed

section \<open>A directory\<close>

lemma directory_prepared:
  assumes "DropFileSendClient_init (\<lparr>sock = k0, machine = sends_from st\<rparr> :: client) = (Inr (), s)"
    and "zstd_laws (zstd (libraries st)) F" and "z = path_append (DROP_FILE_SENDER_TMP_DIR (machine s)) (filename (sent_path st))"
    and "can_pack (zstd (libraries st)) (machine s) (sent_path st) z es"
  shows "\<exists>h2 bs. sender_prepared st (machine s) (RAIIFSEntry_init z True) True h2 \<and>
    createArchive (zstd (libraries st)) (sent_path st) z (machine s) = Some (Inr (), h2) \<and> open_in h2 z = Some (concat bs) \<and>
    list_all2 (encodes F) (Dir_item (filename (sent_path st)) # flatten_entries (filename (sent_path st)) es) bs \<and>
    RAIIFSEntry_destroy (RAIIFSEntry_init z True) h2 = machine s"
proof -
  let ?c = "\<lambda>k. \<lparr>sock = k, machine = machine s\<rparr> :: client"
  have cp: "\<exists>bs h2. compressIfNecessary (zstd (libraries st)) (sent_path st) (?c k) =
      Some (Inr (RAIIFSEntry_init z True, True), (?c k)\<lparr>machine := h2\<rparr>) \<and>
    createArchive (zstd (libraries st)) (sent_path st) z (machine s) = Some (Inr (), h2) \<and> open_in h2 z = Some (concat bs) \<and>
    list_all2 (encodes F) (Dir_item (filename (sent_path st)) # flatten_entries (filename (sent_path st)) es) bs \<and>
    RAIIFSEntry_destroy (RAIIFSEntry_init z True) h2 = machine s" for k
    using can_pack_compressed [OF assms(2), of z "?c k" "sent_path st" es] assms(3,4) by simp
  from cp [of "endpoint []"] obtain bs h2 where h2:
    "createArchive (zstd (libraries st)) (sent_path st) z (machine s) = Some (Inr (), h2)" "open_in h2 z = Some (concat bs)"
    "list_all2 (encodes F) (Dir_item (filename (sent_path st)) # flatten_entries (filename (sent_path st)) es) bs"
    "RAIIFSEntry_destroy (RAIIFSEntry_init z True) h2 = machine s" by blast
  have "compressIfNecessary (zstd (libraries st)) (sent_path st) (?c k) =
      Some (Inr (RAIIFSEntry_init z True, True), \<lparr>sock = k, machine = h2\<rparr>)" for k
    using cp [of k] h2(1) by auto
  then have "sender_prepared st (machine s) (RAIIFSEntry_init z True) True h2"
    using sender_init_any_sock [OF assms(1)] by (simp add: sender_prepared_def)
  with h2 show ?thesis by blast
qed

text \<open>
  C2. A directory transfer cannot fail to complete.  The same for a directory that can be packed and a
  receiver with room for its archive and no entry of its name: every run ends at the same place, the
  sender's machine is as it was, without the temporary archive, the server is up and without the code, and
  the receiver has the directory's tree in its working directory, without the downloaded archive, and
  everything else as before.
\<close>

theorem directory_completes:
  assumes "evp_laws (evp (libraries st)) digest" and "avail_ok (available (libraries st))" and "zstd_laws (zstd (libraries st)) F"
    and "DropFileSendClient_init (\<lparr>sock = endpoint [], machine = sends_from st\<rparr> :: client) = (Inr (), s)"
    and "DropFileReceiveClient_init \<lparr>sock = endpoint [], machine = receives_at st, interaction = typed st\<rparr> = (Inr (), r)"
    and "name = filename (sent_path st)" and "z = path_append (DROP_FILE_SENDER_TMP_DIR (machine s)) name"
    and "can_pack (zstd (libraries st)) (machine s) (sent_path st) z es"
    and "createArchive (zstd (libraries st)) (sent_path st) z (machine s) = Some (Inr (), h2)"
    and "open_in h2 z = Some d" and "length d < 2 ^ 64" and "text name"
    and "j = json_object (json (libraries st)) (send_fields name (of_nat (length d)) (binaryToHumanReadable (digest d)) True)"
    and "server_ready st text j code" and "texts_fit (json (libraries st)) j code t ans q"
    and "waits_until_asked st t w0"
    and "says_yes (typed st)" and "\<not> fs_exists (machine r) name"
    and "of_nat (length d) \<le> free_space (machine r) (temp_dir (machine r))"
    and "new_file (machine r) (path_append (DROP_FILE_RECEIVER_TMP_DIR (machine r)) name) qr"
    and "resolve (machine r) (current_path (machine r)) = Some qc" and "lookup (root (machine r)) qc = Some (Dir old)"
    and "name \<notin> fst ` set old" and "diverge qr qc"
  shows "\<exists>fin a b w h. completes st fin \<and>
    sender_run st (fin To_sender) = Some (Inr (), a) \<and> printed a = [''Receive code: '' @ code] \<and>
    left_machine a = remove_all (DROP_FILE_SENDER_TMP_DIR (machine s)) (machine s) \<and>
    receiver_run st code (fin To_receiver) = Some (Inr (), b) \<and>
    left_machine b = remove_all (DROP_FILE_RECEIVER_TMP_DIR h) h \<and>
    lookup (root h) (qc @ [name]) = Some (Dir (prune es)) \<and>
    \<not> fs_exists h (path_append (DROP_FILE_RECEIVER_TMP_DIR (machine r)) name) \<and>
    (\<forall>x. diverge qr x \<and> diverge (qc @ [name]) x \<longrightarrow> lookup (root h) x = lookup (root (machine r)) x) \<and>
    server_run st (fin From_sender) (fin From_receiver) = Some w \<and> server_over st code w0 w"
proof -
  let ?e = "RAIIFSEntry_init z True"
  have pk: "valid_name name" "length name \<le> PATH_MAX_LEN" "packable (zstd (libraries st)) name es"
    using assms(6,8) by (simp_all add: can_pack_def)
  have e: "entry_path ?e = z" "filename z = name"
    unfolding assms(7) using pk(1) by (simp_all add: RAIIFSEntry_init_def filename_path_append)
  obtain bs where prep: "sender_prepared st (machine s) ?e True h2" and d: "d = concat bs"
    and bs: "list_all2 (encodes F) (Dir_item name # flatten_entries name es) bs" and rm: "RAIIFSEntry_destroy ?e h2 = machine s"
    using directory_prepared [OF assms(4,3), of z es] assms(6-10) by auto
  have ne: "d \<noteq> []" unfolding d using bs by (rule archive_not_empty)
  define goal where "goal r1 \<longleftrightarrow> lookup (root (machine r1)) (qc @ [name]) = Some (Dir (prune es)) \<and>
    \<not> fs_exists (machine r1) (path_append (DROP_FILE_RECEIVER_TMP_DIR (machine r)) name) \<and>
    (\<forall>x. diverge qr x \<and> diverge (qc @ [name]) x \<longrightarrow> lookup (root (machine r1)) x = lookup (root (machine r)) x)" for r1 :: receiver
  have "\<exists>r1. ReceiveClient.receiveFile (evp (libraries st)) (zstd (libraries st)) (json (libraries st)) code
        \<lparr>sock = endpoint (frame t @ concat (map frame ps)), machine = machine r, interaction = typed st\<rparr> = Some (Inr (), r1) \<and>
      tx (sock r1) = frame q @ frame ACK @ frame ACK \<and> goal r1"
    if "text code" "json_laws (json (libraries st)) text" "concat ps = d" "short_messages ps" for ps
    unfolding goal_def
    by (rule receiver_unpacks [OF that(2) assms(12) that(1) assms(1,3) assms(13,15,11) [unfolded d] bs pk assms(17,18)
        assms(19) [unfolded d] assms(20-24) that(3) [unfolded d] that(4)])
  then have rc: "\<forall>ps. text code \<and> json_laws (json (libraries st)) text \<and> concat ps = d \<and> short_messages ps \<longrightarrow>
      (\<exists>r1. ReceiveClient.receiveFile (evp (libraries st)) (zstd (libraries st)) (json (libraries st)) code
        \<lparr>sock = endpoint (frame t @ concat (map frame ps)), machine = machine r, interaction = typed st\<rparr> = Some (Inr (), r1) \<and>
      tx (sock r1) = frame q @ frame ACK @ frame ACK \<and> goal r1)" by blast
  have bd: "of_nat (length d) \<le> free_space (machine r) (base_dir True (machine r))" using assms(19) by (simp add: base_dir_def)
  from transfer_conversation [where goal = goal, OF assms(1,2) prep, unfolded e rm, OF assms(10) ne assms(11-16)
      receiver_prepared_init [OF assms(5)] assms(17,18) bd rc]
  obtain fin a b w and r1 :: receiver where "completes st fin" "sender_run st (fin To_sender) = Some (Inr (), a)"
    "printed a = [''Receive code: '' @ code]" "left_machine a = remove_all (DROP_FILE_SENDER_TMP_DIR (machine s)) (machine s)"
    "receiver_run st code (fin To_receiver) = Some (Inr (), b)"
    "left_machine b = remove_all (DROP_FILE_RECEIVER_TMP_DIR (machine r1)) (machine r1)" "goal r1"
    "server_run st (fin From_sender) (fin From_receiver) = Some w" "server_over st code w0 w" by blast
  then show ?thesis unfolding goal_def by blast
qed

section \<open>Transfers\<close>

text \<open>A machine with an empty working directory is where the file \<open>f\<close> and the directory \<open>d\<close> are to go.\<close>

definition visitor :: host where
  "visitor = Utils.sample_host\<lparr>root := Dir [(''home'', Dir []), (''tmp'', Dir [])]\<rparr>"

text \<open>Meanwhile: a sweep, and another client connects, asks for an unknown code and is refused.\<close>

definition passing_by :: "event list" where
  "passing_by = [Swept (\<lambda>_. 9), Accepted False (Inr ()) 2 (endpoint (frame (put_flat (createReceiveMessage flat_json ''no'')))),
     Served [] 9 2]"

definition sample_setting :: "host \<Rightarrow> string \<Rightarrow> (bytes, bytes, bool, flat, unit, unit, unit) setting" where
  "sample_setting h path = \<lparr>libraries = sample_env (endpoint []), sends_from = h, sent_path = path, receives_at = visitor,
     typed = ''y'', serving = sample_world, sender_id = 0, receiver_id = 1, drawn = ([(0, 1, 7)], []), clock = (9, 0),
     timeout = 120, meanwhile = passing_by\<rparr>"

lemma sample_setting_sel [simp]:
  "evp (libraries (sample_setting h path)) = take4_evp" "zstd (libraries (sample_setting h path)) = held_zstd"
  "json (libraries (sample_setting h path)) = flat_json" "available (libraries (sample_setting h path)) = (\<lambda>_. 3)"
  "sends_from (sample_setting h path) = h" "sent_path (sample_setting h path) = path"
  "receives_at (sample_setting h path) = visitor" "typed (sample_setting h path) = ''y''"
  "sender_id (sample_setting h path) = 0" "receiver_id (sample_setting h path) = 1"
  "serving (sample_setting h path) = sample_world" "drawn (sample_setting h path) = ([(0, 1, 7)], [])"
  "clock (sample_setting h path) = (9, 0)" "timeout (sample_setting h path) = 120" "meanwhile (sample_setting h path) = passing_by"
  by (simp_all add: sample_setting_def sample_env_def)

definition sample_table :: "flat \<Rightarrow> flat sessions_manager" where
  "sample_table j = empty_manager\<lparr>senders_sessions := [(''able-art-7'', \<lparr>client_session = 0, session_data = j, time_point = 9\<rparr>)]\<rparr>"

lemma sample_code_registered: "registerSender [(0, 1, 7)] 9 0 j empty_manager = Some (Inr ''able-art-7'', sample_table j)"
proof -
  have "show_nat 7 = ''7''" by code_simp
  then show ?thesis by (simp add: empty_manager_def pickRandom_def getRandom_def sample_table_def)
qed

lemma sample_server_ready: "server_ready (sample_setting h path) (\<lambda>_. True) j ''able-art-7''"
  using sample_code_registered [of j] sample_world_initial by (auto simp: server_ready_def) (auto simp: sample_world_def)

text \<open>The sender is not disturbed by it.\<close>

lemma sample_table_swept: "terminateTimeoutClients 120 (\<lambda>_. 9) (sample_table j) = sample_table j"
  by (simp add: terminateTimeoutClients_def sample_table_def)

lemma passing_by_happens:
  assumes "\<not> down w" and "manager (srv w) = Some (sample_table j)" and "phase_of w 0 = Waiting" and "phase_of w 2 = Unused"
  shows "\<exists>w0. schedule flat_json 120 passing_by w = Some w0 \<and> phase_of w0 0 = Waiting \<and> \<not> down w0"
proof -
  let ?q = "put_flat (createReceiveMessage flat_json ''no'')"
  define v1 where "v1 = sweepSessions 120 (\<lambda>_. 9) w"
  define v2 where "v2 = acceptNewConnection False (Inr ()) 2 (endpoint (frame ?q)) v1"
  have holds: "holds_session (Some (sample_table j)) 0" by (simp add: holds_session_def sample_table_def)
  have 1: "\<not> down v1" "manager (srv v1) = Some (sample_table j)" "phase_of v1 0 = Waiting" "phase_of v1 2 = Unused"
    using assms holds by (simp_all add: v1_def sweepSessions_def Let_def sample_table_swept settle_def)
  then have 2: "\<not> down v2" "manager (srv v2) = Some (sample_table j)" "phase_of v2 0 = Waiting" "phase_of v2 2 = Reading"
    "rx (conn (srv v2) 2) = frame ?q @ []" "writable (conn (srv v2) 2)"
    by (simp_all add: v2_def acceptNewConnection_def)
  have q: "length ?q \<le> 1000" "create flat_json ?q = Inr (createReceiveMessage flat_json ''no'')"
    using createReceiveMessage_dump [OF flat_json_laws, of "''no''"] by (auto simp: createReceiveMessage_def key_defs put_text_def)
  have "world_ok flat_json (\<lambda>_. True) sample_world" by (rule initial_world_ok [OF sample_world_initial])
  then have "manager_ok empty_manager" by (auto simp: world_ok_code server_ok_def sample_world_def)
  then have "manager_ok (sample_table j)" "sessions (sample_table j) ''no'' = None"
    using registerSender_spec [OF _ sample_code_registered [of j]] by simp_all (simp add: sample_table_def sessions_def empty_manager_def)
  from server_refuses [OF 2(2) this(1) 2(5) q createReceiveMessage_valid [OF flat_json_laws] this(2) 2(6), of "[]" 9]
  obtain s where s: "first_read flat_json [] 9 2 (srv v2) = Some (Inr (), s)" "manager s = Some (sample_table j)"
    using 2(2) by fastforce
  then have "serveFirstRead flat_json [] 9 2 v2 = Some (v2\<lparr>srv := s, phase_of := settle (Some (sample_table j)) {2} (phase_of v2), down := False\<rparr>)"
    by (simp add: serveFirstRead_def)
  then have "schedule flat_json 120 passing_by w =
      Some (v2\<lparr>srv := s, phase_of := settle (Some (sample_table j)) {2} (phase_of v2), down := False\<rparr>)"
    using assms(1) 1 2 by (simp add: passing_by_def flip: v1_def v2_def)
  then show ?thesis using 2(3) holds by (simp add: settle_def)
qed

lemma sample_waits:
  assumes "j = json_object flat_json (send_fields name (of_nat (length d)) (binaryToHumanReadable x) c)"
    and "texts_fit flat_json j ''able-art-7'' t ans q"
  shows "\<exists>w0. waits_until_asked (sample_setting h path) t w0"
proof -
  let ?st = "sample_setting h path"
  have wok: "world_ok flat_json (\<lambda>_. True) sample_world" by (rule initial_world_ok [OF sample_world_initial])
  have sw: "phase_of sample_world i = Unused" "\<not> down sample_world" "manager (srv sample_world) = Some empty_manager" for i
    by (simp_all add: sample_world_def)
  note x = exchanged_texts [OF flat_json_laws TrueI TrueI assms]
  have tf: "length t \<le> 1000" "length ans < 2 ^ 64"
    "json_dump flat_json (json_set flat_json (json_null flat_json) CODE_WORDS_KEY (J_string ''able-art-7'')) = Some ans"
    using assms(2) by (simp_all add: texts_fit_def)
  have en: "sessions (sample_table j) ''able-art-7'' = Some \<lparr>client_session = 0, session_data = j, time_point = 9\<rparr>"
    by (simp add: sample_table_def sessions_def)
  let ?w = "registered ?st t ans (sample_table j)"
  let ?en = "\<lparr>client_session = 0, session_data = j, time_point = 9\<rparr>"
  have rw: "phase_of ?w 0 = Waiting" "before_request ?st (frame t) [] = schedule flat_json 120 passing_by (given ?st [] [] ?w)"
    using registered_waits(2,3) [of ?st "\<lambda>_. True" empty_manager t j "''able-art-7''" "sample_table j" ans ?en] wok sw tf
      x(2,3,8) sample_code_registered [of j] en registered_waits(3) [of ?st _ empty_manager t j _ "sample_table j" ans ?en "[]" "[]"]
    by simp_all
  have "manager (srv ?w) = Some (sample_table j)" "\<not> down ?w" "phase_of ?w 2 = Unused"
    using registered_sel(5,6) [of ?st t ans "sample_table j"] sw
    by (simp_all) (simp add: registered_def Let_def settle_def connected_def acceptNewConnection_def sw)
  from passing_by_happens [OF this(2,1) rw(1) this(3)] show ?thesis
    using rw(2) by (auto simp: waits_until_asked_def given_nothing passing_by_def)
qed

text \<open>The sender of \<open>f\<close> waits while it happens.\<close>

definition sample_waiting :: "flat world" where
  "sample_waiting = registered (sample_setting Utils.sample_host ''f'') (put_flat f_json)
     (put_flat (flat_set (Scalar F_null) CODE_WORDS_KEY (J_string ''able-art-7''))) (sample_table f_json)"

lemma sample_waiting_reached: "(server_step flat_json T)\<^sup>*\<^sup>* sample_world sample_waiting"
  and sample_waiting_sel: "phase_of sample_waiting 0 = Waiting" "\<not> down sample_waiting"
    "manager (srv sample_waiting) = Some (sample_table f_json)" "1 < i \<Longrightarrow> phase_of sample_waiting i = Unused"
proof -
  let ?st = "sample_setting Utils.sample_host ''f''" and ?t = "put_flat f_json" and ?m = "sample_table f_json"
  let ?ans = "put_flat (flat_set (Scalar F_null) CODE_WORDS_KEY (J_string ''able-art-7''))"
  let ?v = "connected ?st (frame ?t @ []) []" and ?w = "registered ?st ?t ?ans ?m"
  have sw: "phase_of sample_world i = Unused" "\<not> down sample_world" "manager (srv sample_world) = Some empty_manager" for i
    by (simp_all add: sample_world_def)
  note x = exchanged_texts [OF flat_json_laws TrueI TrueI f_json_def f_json_texts]
  have tf: "length ?t \<le> 1000" "length ?ans < 2 ^ 64" using f_json_texts by (simp_all add: texts_fit_def)
  have "(server_step flat_json T)\<^sup>*\<^sup>* sample_world ?v"
    using connected_reachable [of ?st flat_json T "frame ?t @ []" "[]"] sw by simp
  moreover have "serveFirstRead flat_json [(0, 1, 7)] 9 0 ?v = Some ?w"
    using serves_announcement(2) [of ?st empty_manager ?t f_json "''able-art-7''" ?m ?ans "[]" "[]"] sw tf x(2,3,8) sample_code_registered [of f_json]
    by (simp add: given_nothing)
  then have "server_step flat_json T ?v ?w"
    by (rule server_step.serve [rotated 2]) (simp_all add: connected_def acceptNewConnection_def sw)
  ultimately show "(server_step flat_json T)\<^sup>*\<^sup>* sample_world sample_waiting" by (simp add: sample_waiting_def)
  show "phase_of sample_waiting 0 = Waiting" "\<not> down sample_waiting" "manager (srv sample_waiting) = Some ?m"
    using registered_sel(5,6,8) [of ?st ?t ?ans ?m] sw
    by (simp_all add: sample_waiting_def holds_session_def sample_table_def)
  show "1 < i \<Longrightarrow> phase_of sample_waiting i = Unused"
    by (simp add: sample_waiting_def registered_def Let_def settle_def connected_def acceptNewConnection_def sw)
qed

theorem waiting_sender_undisturbed_witness:
  "\<exists>w w'. (server_step flat_json 120)\<^sup>*\<^sup>* sample_world w \<and> schedule flat_json 120 passing_by w = Some w' \<and>
     conn (srv w') 0 = conn (srv w) 0"
proof -
  have "phase_of sample_waiting 2 = Unused" by (rule sample_waiting_sel(4)) simp
  then obtain w' where w': "schedule flat_json 120 passing_by sample_waiting = Some w'" "phase_of w' 0 = Waiting"
    using passing_by_happens [OF sample_waiting_sel(2,3,1)] by blast
  from waiting_sender_undisturbed [OF sample_world_initial sample_waiting_reached schedule_runs [OF w'(1)] sample_waiting_sel(1) w'(2)]
    sample_waiting_reached w'(1)
  show ?thesis by blast
qed

lemma visitor_init:
  "DropFileReceiveClient_init \<lparr>sock = k, machine = visitor, interaction = i\<rparr> =
     (Inr (), \<lparr>sock = k, machine = receiving_host, interaction = i\<rparr>)"
proof -
  have p: "DROP_FILE_RECEIVER_TMP_DIR visitor = ''/tmp/drop-file/receiver''"
    by (simp add: DROP_FILE_RECEIVER_TMP_DIR_def visitor_def Utils.sample_host_def path_append_def is_absolute_def filename_def)
  show ?thesis unfolding DropFileReceiveClient_init_def client.select_convs p
    by (simp add: visitor_def Utils.sample_host_def remove_all_def resolve_def is_absolute_def create_directories_def on_machine_def
        receiving_host_def archive_receiver_def)
qed

lemma receiving_host_f:
  "\<not> fs_exists receiving_host ''f''" "of_nat (length ''data'') \<le> free_space receiving_host (current_path receiving_host)"
  "new_file receiving_host (path_append (current_path receiving_host) ''f'') [''home'', ''f'']"
  by (simp_all add: receiving_host_def archive_receiver_def Utils.sample_host_def fs_exists_def stat_def resolve_def
      is_absolute_def new_file_def current_path_def path_append_def filename_def)

theorem transfer_completes_witness:
  "\<exists>fin b. completes (sample_setting Utils.sample_host ''f'') fin \<and>
     receiver_run (sample_setting Utils.sample_host ''f'') ''able-art-7'' (fin To_receiver) = Some (Inr (), b) \<and>
     left_machine b = remove_all (DROP_FILE_RECEIVER_TMP_DIR receiving_host)
       (receiving_host\<lparr>root := put [''home'', ''f''] (File ''data'') (root receiving_host)\<rparr>)"
proof -
  let ?st = "sample_setting Utils.sample_host ''f''"
  have f: "open_in (prepared_host ''sender'') ''f'' = Some ''data''" and fn: "filename ''f'' = ''f''"
    by (simp_all add: prepared_host_def Utils.sample_host_def open_in_def stat_def resolve_def is_absolute_def filename_def)
  have "says_yes ''y''" by (simp add: says_yes_def read_char_def ReceiveClient.is_space_def)
  moreover obtain w0 where "waits_until_asked ?st (put_flat f_json) w0" using sample_waits [OF f_json_def f_json_texts] by blast
  ultimately show ?thesis
    using transfer_completes [of ?st "take 4" "\<lparr>sock = endpoint [], machine = prepared_host ''sender''\<rparr>"
        "\<lparr>sock = endpoint [], machine = receiving_host, interaction = ''y''\<rparr>" "''data''" "\<lambda>_. True" f_json "''able-art-7''"
        "put_flat f_json" "put_flat (flat_set (Scalar F_null) CODE_WORDS_KEY (J_string ''able-art-7''))"
        "put_flat (createReceiveMessage flat_json ''able-art-7'')" w0 "[''home'', ''f'']"]
      take4_evp_laws sample_init(1) visitor_init f f_json_def f_json_texts sample_server_ready receiving_host_f
    by (simp add: avail_ok_def fn) blast
qed

definition directory_owner :: host where
  "directory_owner = (machine directory_client)\<lparr>root := Dir [(''d'', Dir [(''f'', File ''hello'')]), (''t'', Dir [])]\<rparr>"

lemma directory_owner_init:
  "DropFileSendClient_init (\<lparr>sock = k, machine = directory_owner\<rparr> :: client) = (Inr (), \<lparr>sock = k, machine = machine directory_client\<rparr>)"
proof -
  have p: "DROP_FILE_SENDER_TMP_DIR directory_owner = ''/t/drop-file/sender''"
    by (simp add: DROP_FILE_SENDER_TMP_DIR_def directory_owner_def directory_client_def tree_host_def path_append_def
        is_absolute_def filename_def)
  show ?thesis unfolding DropFileSendClient_init_def client.select_convs p
    by (simp add: directory_owner_def directory_client_def tree_host_def remove_all_def resolve_def is_absolute_def
        create_directories_def on_machine_def)
qed

lemma directory_client_packs:
  defines "z \<equiv> path_append (DROP_FILE_SENDER_TMP_DIR (machine directory_client)) ''d''"
  shows "can_pack held_zstd (machine directory_client) ''/d'' z [(''f'', File ''hello'')]"
    and "\<exists>bs h2. createArchive held_zstd ''/d'' z (machine directory_client) = Some (Inr (), h2) \<and>
      open_in h2 z = Some (concat bs) \<and> length (concat bs) = 44"
proof -
  let ?h = "machine directory_client" and ?es = "[(''f'', File ''hello'')]"
  let ?p = "path_append (DROP_FILE_SENDER_TMP_DIR ?h) ''d''"
  note dc = directory_client_facts
  have z: "z = ?p" by (simp add: z_def)
  note pk = can_pack_sample
  then show "can_pack held_zstd ?h ''/d'' z ?es" unfolding z .
  obtain bs h2 where a: "createArchive held_zstd ''/d'' ?p ?h = Some (Inr (), h2)" "open_in h2 ?p = Some (concat bs)"
    "list_all2 (encodes held_frame) (Dir_item ''d'' # flatten_entries ''d'' ?es) bs"
    using can_pack_compressed [OF held_zstd_laws _ pk] unfolding dc(2) by blast
  then have "length (concat bs) = 44"
    by (auto simp: list_all2_Cons1 held_frame_def length_header path_append_def is_absolute_def filename_def)
  with a(1,2) show "\<exists>bs h2. createArchive held_zstd ''/d'' z ?h = Some (Inr (), h2) \<and>
      open_in h2 z = Some (concat bs) \<and> length (concat bs) = 44" unfolding z by blast
qed

theorem directory_completes_witness:
  "\<exists>fin b h. completes (sample_setting directory_owner ''/d'') fin \<and>
     receiver_run (sample_setting directory_owner ''/d'') ''able-art-7'' (fin To_receiver) = Some (Inr (), b) \<and>
     left_machine b = remove_all (DROP_FILE_RECEIVER_TMP_DIR h) h \<and>
     lookup (root h) [''home'', ''d''] = Some (Dir [(''f'', File ''hello'')])"
proof -
  let ?st = "sample_setting directory_owner ''/d''" and ?h = "machine directory_client"
  let ?z = "path_append (DROP_FILE_SENDER_TMP_DIR ?h) ''d''"
  note rh = receiving_host_facts
  obtain bs h2 where a: "createArchive held_zstd ''/d'' ?z ?h = Some (Inr (), h2)" "open_in h2 ?z = Some (concat bs)"
    "length (concat bs) = 44" using directory_client_packs(2) by blast
  let ?x = "take 4 (concat bs)" and ?q = "put_flat (createReceiveMessage flat_json ''able-art-7'')"
  let ?j = "json_object flat_json (send_fields ''d'' (of_nat (length (concat bs))) (binaryToHumanReadable ?x) True)"
  let ?ans = "put_flat (flat_set (Scalar F_null) CODE_WORDS_KEY (J_string ''able-art-7''))"
  have j: "?j = json_object flat_json (send_fields ''d'' 44 (binaryToHumanReadable ?x) True)" unfolding a(3) by simp
  have "length ?x = 4" using a(3) by simp
  from directory_texts [OF this] have tx: "texts_fit flat_json ?j ''able-art-7'' (put_flat ?j) ?ans ?q" unfolding j .
  have fn: "filename ''/d'' = ''d''" by (rule directory_client_facts(2))
  have k: "says_yes ''y''" "of_nat (length (concat bs)) \<le> free_space receiving_host (temp_dir receiving_host)"
    "length (concat bs) < 2 ^ 64" "avail_ok (\<lambda>_. 3)" "''d'' \<notin> fst ` set []"
    using rh(2) a(3) by (simp_all add: says_yes_def read_char_def ReceiveClient.is_space_def avail_ok_def)
  obtain w0 where "waits_until_asked ?st (put_flat ?j) w0" using sample_waits [OF refl tx] by blast
  then show ?thesis
    using directory_completes [of ?st "take 4" held_frame "\<lparr>sock = endpoint [], machine = ?h\<rparr>"
        "\<lparr>sock = endpoint [], machine = receiving_host, interaction = ''y''\<rparr>" "''d''" ?z "[(''f'', File ''hello'')]" h2
        "concat bs" "\<lambda>_. True" ?j "''able-art-7''" "put_flat ?j" ?ans ?q w0
        "[''tmp'', ''drop-file'', ''receiver'', ''d'']" "[''home'']" "[]"]
      take4_evp_laws held_zstd_laws directory_owner_init visitor_init fn directory_client_packs(1) a(1,2) k tx
      sample_server_ready rh
    by simp blast
qed

end
