(* ===== verification/Refinement.thy ===== *)
theory Refinement
  imports Schedule
begin

text \<open>
  What the server promises, without sockets, bytes, lists, clocks and words: a rendezvous service that
  holds offers under codes and brings each together with at most one taker.  The server of the code
  refines it, event by event: what can be seen of an event from outside, that a party has come, has
  left, or what it asks for, is the action of the service that the event must be.
\<close>

section \<open>Simulation\<close>

text \<open>A run of a labelled step relation, and the actions an executed list of events shows.\<close>

primrec labelled_run :: "('b \<Rightarrow> 'a \<Rightarrow> 'b \<Rightarrow> bool) \<Rightarrow> 'b \<Rightarrow> 'a list \<Rightarrow> 'b \<Rightarrow> bool" where
  "labelled_run spec x [] y \<longleftrightarrow> y = x"
| "labelled_run spec x (a # as) y \<longleftrightarrow> (\<exists>z. spec x a z \<and> labelled_run spec z as y)"

primrec execution :: "('e \<Rightarrow> 's \<Rightarrow> 's option) \<Rightarrow> 'e list \<Rightarrow> 's \<Rightarrow> 's option" where
  "execution does [] s = Some s"
| "execution does (e # es) s = Option.bind (does e s) (execution does es)"

primrec shown :: "('e \<Rightarrow> 's \<Rightarrow> 's option) \<Rightarrow> ('e \<Rightarrow> 's \<Rightarrow> 'a) \<Rightarrow> 'e list \<Rightarrow> 's \<Rightarrow> 'a list" where
  "shown does label [] s = []"
| "shown does label (e # es) s = label e s # (case does e s of None \<Rightarrow> [] | Some s' \<Rightarrow> shown does label es s')"

locale simulation = step_system init step inv
  for init :: "'s \<Rightarrow> bool" and step and inv +
  fixes does :: "'e \<Rightarrow> 's \<Rightarrow> 's option" and label :: "'e \<Rightarrow> 's \<Rightarrow> 'a"
    and abs :: "'s \<Rightarrow> 'b" and spec :: "'b \<Rightarrow> 'a \<Rightarrow> 'b \<Rightarrow> bool" and start :: 'b
  assumes does_step: "does e s = Some s' \<Longrightarrow> step s s'"
    and starts: "init s \<Longrightarrow> abs s = start"
    and simulates: "inv s \<Longrightarrow> does e s = Some s' \<Longrightarrow> spec (abs s) (label e s) (abs s')"
begin

lemma execution_simulated:
  "inv s \<Longrightarrow> execution does es s = Some s' \<Longrightarrow> labelled_run spec (abs s) (shown does label es s) (abs s')"
proof (induction es arbitrary: s)
  case (Cons e es)
  then obtain s1 where s1: "does e s = Some s1" "execution does es s1 = Some s'" by (auto simp: bind_eq_Some_conv)
  have "inv s1" using step_inv [OF Cons.prems(1) does_step [OF s1(1)]] .
  from Cons.IH [OF this s1(2)] simulates [OF Cons.prems(1) s1(1)] s1(1) show ?case by auto
qed simp

lemma initial_simulated:
  "init s \<Longrightarrow> execution does es s = Some s' \<Longrightarrow> labelled_run spec start (shown does label es s) (abs s')"
  using execution_simulated [OF init_inv] starts by metis

end

section \<open>The service\<close>

record 'j service =
  offers_under :: "string \<rightharpoonup> nat \<times> 'j"
  asking :: "nat set"
  gone :: "nat set"

text \<open>What can be seen of the service.\<close>

datatype 'j action = Silence | Arrives nat | Turned_away nat | Requests nat "'j request" | Expiry

text \<open>
  A party arrives or is turned away.  An offer is put under a free code.  Asking for a code takes the
  offer under it away, and with it both parties are done; if there is none, the asking party is
  refused.  Offers expire.
\<close>

inductive service_step :: "'j service \<Rightarrow> 'j action \<Rightarrow> 'j service \<Rightarrow> bool" where
  silence: "service_step s Silence s"
| arrive: "i \<notin> asking s \<Longrightarrow> i \<notin> gone s \<Longrightarrow> i \<notin> fst ` ran (offers_under s) \<Longrightarrow>
    service_step s (Arrives i) (s\<lparr>asking := insert i (asking s)\<rparr>)"
| turn_away: "i \<notin> asking s \<Longrightarrow> i \<notin> gone s \<Longrightarrow> i \<notin> fst ` ran (offers_under s) \<Longrightarrow>
    service_step s (Turned_away i) (s\<lparr>gone := insert i (gone s)\<rparr>)"
| make_offer: "i \<in> asking s \<Longrightarrow> offers_under s code = None \<Longrightarrow>
    service_step s (Requests i (Offer j))
      (s\<lparr>offers_under := (offers_under s)(code \<mapsto> (i, j)), asking := asking s - {i}\<rparr>)"
| take_offer: "i \<in> asking s \<Longrightarrow> offers_under s code = Some (a, j) \<Longrightarrow>
    service_step s (Requests i (Ask code))
      (s\<lparr>offers_under := (offers_under s)(code := None), asking := asking s - {i}, gone := insert i (insert a (gone s))\<rparr>)"
| refuse: "i \<in> asking s \<Longrightarrow> q = No_request \<or> (\<exists>code. q = Ask code \<and> offers_under s code = None) \<Longrightarrow>
    service_step s (Requests i q) (s\<lparr>asking := asking s - {i}, gone := insert i (gone s)\<rparr>)"
| expire: "service_step s Expiry (s\<lparr>offers_under := (offers_under s) |` (- codes),
                      gone := gone s \<union> fst ` ran ((offers_under s) |` codes)\<rparr>)"

definition service_start :: "'j service" where
  "service_start = \<lparr>offers_under = Map.empty, asking = {}, gone = {}\<rparr>"

text \<open>A code that has been used is worth nothing until some later offer gets it.\<close>

inductive_cases request_stepE: "service_step s (Requests i (Ask code)) s'"

lemma asked_code_gone: "service_step s (Requests i (Ask code)) s' \<Longrightarrow> offers_under s' code = None"
  by (elim request_stepE) auto

lemma unoffered_step:
  "service_step s a s' \<Longrightarrow> \<forall>i j. a \<noteq> Requests i (Offer j) \<Longrightarrow> offers_under s code = None \<Longrightarrow> offers_under s' code = None"
  by (induction rule: service_step.induct) (auto simp: restrict_map_def)

lemma unoffered_run:
  "labelled_run service_step s as s' \<Longrightarrow> \<forall>i j. Requests i (Offer j) \<notin> set as \<Longrightarrow> offers_under s code = None \<Longrightarrow>
   offers_under s' code = None"
proof (induction as arbitrary: s)
  case (Cons a as)
  then obtain z where z: "service_step s a z" "labelled_run service_step z as s'" by auto
  have "\<forall>i j. a \<noteq> Requests i (Offer j)" using Cons.prems(2) by auto
  from Cons.IH [OF z(2) _ unoffered_step [OF z(1) this Cons.prems(3)]] Cons.prems(2) show ?case by auto
qed simp

section \<open>The server as a service\<close>

definition ticket_of :: "'j timed_session \<Rightarrow> nat \<times> 'j" where
  "ticket_of t = (client_session t, session_data t)"

definition service_of :: "'j world \<Rightarrow> 'j service" where
  "service_of w =
     \<lparr>offers_under = (case manager (srv w) of None \<Rightarrow> Map.empty | Some m \<Rightarrow> map_option ticket_of \<circ> sessions m),
      asking = {i. phase_of w i = Reading}, gone = {i. phase_of w i = Finished}\<rparr>"

lemma waits_offer: "waits m i \<longleftrightarrow> i \<in> fst ` ran (map_option ticket_of \<circ> sessions m)"
proof
  assume "waits m i"
  then obtain code t where t: "sessions m code = Some t" "client_session t = i" by (auto simp: waits_def)
  then have "(map_option ticket_of \<circ> sessions m) code = Some (i, session_data t)" by (simp add: ticket_of_def)
  then have "(i, session_data t) \<in> ran (map_option ticket_of \<circ> sessions m)" by (rule ranI)
  then show "i \<in> fst ` ran (map_option ticket_of \<circ> sessions m)" by force
qed (fastforce simp: waits_def ran_def ticket_of_def)

text \<open>The parties after a first message has been served.\<close>

lemma serve_phases:
  assumes "world_ok J text w" and "phase_of w i = Reading" and "manager (srv w) = Some m"
    and "manager_ok m'" and "table_step i m m'"
  shows "{j. settle (Some m') {i} (phase_of w) j = Reading} = {j. phase_of w j = Reading} - {i}"
    and "{j. settle (Some m') {i} (phase_of w) j = Finished} =
      {j. phase_of w j = Finished} \<union> {j. (j = i \<or> waits m j) \<and> \<not> waits m' j}"
proof -
  have "\<And>j. waits m j \<longleftrightarrow> phase_of w j = Waiting" using assms(1,3) by (auto simp: world_ok_code)
  then show "{j. settle (Some m') {i} (phase_of w) j = Reading} = {j. phase_of w j = Reading} - {i}"
    "{j. settle (Some m') {i} (phase_of w) j = Finished} =
      {j. phase_of w j = Finished} \<union> {j. (j = i \<or> waits m j) \<and> \<not> waits m' j}"
    using assms(2) by (auto simp: settle_def holds_session_waits [OF assms(4)] split: if_splits)
qed

lemma serve_simulated:
  assumes "world_ok J text w" and "phase_of w i = Reading" and "serveFirstRead J ds now i w = Some w'"
  shows "service_step (service_of w) (Requests i (request_on J (conn (srv w) i))) (service_of w')"
proof -
  let ?q = "request_on J (conn (srv w) i)"
  obtain m where m: "manager (srv w) = Some m" "manager_ok m" "one_code m" and wt: "\<And>j. waits m j \<longleftrightarrow> phase_of w j = Waiting"
    using assms(1) by (auto simp: world_ok_code server_ok_def)
  obtain r s' where fr: "first_read J ds now i (srv w) = Some (r, s')"
    and w': "srv w' = s'" "phase_of w' = settle (manager s') {i} (phase_of w)"
    using assms(3) by (auto simp: serveFirstRead_def split: option.splits)
  obtain m' where m': "manager s' = Some m'" "manager_ok m'" "table_step i m m'"
    using first_read_frame [OF m(1,2) fr] by blast
  have an: "answered ?q i now m m'" using first_read_answers [OF m(1,2) fr] m'(1) by simp
  note ph = serve_phases [OF assms(1,2) m(1) m'(2,3)]
  have ni: "\<not> waits m i" using wt [of i] assms(2) by simp
  let ?f = "map_option ticket_of \<circ> sessions m"
  define A where "A = {j. phase_of w j = Reading}"
  define G where "G = {j. phase_of w j = Finished}"
  have s: "service_of w = \<lparr>offers_under = ?f, asking = A, gone = G\<rparr>" and i: "i \<in> A"
    and AG: "{j. phase_of w j = Reading} = A" "{j. phase_of w j = Finished} = G"
    using m(1) assms(2) by (simp_all add: service_of_def A_def G_def)
  have s': "service_of w' = \<lparr>offers_under = map_option ticket_of \<circ> sessions m', asking = A - {i},
      gone = G \<union> {j. (j = i \<or> waits m j) \<and> \<not> waits m' j}\<rparr>"
    using m'(1) by (simp add: service_of_def w' ph m(1) AG)
  have refused: "service_step (service_of w) (Requests i q) (service_of w')"
    if "sessions m' = sessions m" "q = No_request \<or> (\<exists>code. q = Ask code \<and> sessions m code = None)" for q
  proof -
    have "waits m' = waits m" using that(1) by (simp add: waits_def fun_eq_iff)
    then have "{j. (j = i \<or> waits m j) \<and> \<not> waits m' j} = {i}" using ni by auto
    then show ?thesis using service_step.refuse [of i "service_of w" q] i that by (auto simp: s s')
  qed
  show ?thesis
  proof (cases ?q)
    case No_request
    then show ?thesis using an refused by (simp add: answered_def)
  next
    case (Ask code)
    then have up: "sessions m' = (sessions m)(code := None)" using an by (simp add: answered_def)
    show ?thesis
    proof (cases "sessions m code")
      case None
      then have "sessions m' = sessions m" using up by (simp add: fun_eq_iff)
      then show ?thesis using refused None Ask by simp
    next
      case t: (Some t)
      have "waits m' j \<longleftrightarrow> waits m j \<and> j \<noteq> client_session t" for j
      proof
        assume "waits m' j"
        then show "waits m j \<and> j \<noteq> client_session t"
          using m(3) up t by (auto simp: waits_def one_code_def split: if_splits)
      next
        assume "waits m j \<and> j \<noteq> client_session t"
        then obtain c t' where "sessions m c = Some t'" "client_session t' = j" "j \<noteq> client_session t"
          by (auto simp: waits_def)
        then show "waits m' j" using up t unfolding waits_def by (intro exI [of _ c] exI [of _ t']) auto
      qed
      moreover have "waits m (client_session t)" using t by (auto simp: waits_def)
      ultimately have "{j. (j = i \<or> waits m j) \<and> \<not> waits m' j} = {i, client_session t}" using ni by auto
      moreover have "map_option ticket_of \<circ> sessions m' = ?f(code := None)" using up by (simp add: fun_eq_iff)
      moreover have "?f code = Some (client_session t, session_data t)" using t by (simp add: ticket_of_def)
      ultimately show ?thesis
        using service_step.take_offer [of i "service_of w" code "client_session t" "session_data t"] i Ask
        by (simp add: s s')
    qed
  next
    case (Offer json)
    let ?t = "\<lparr>client_session = i, session_data = json, time_point = now\<rparr>"
    obtain code where code: "sessions m code = None" "sessions m' = (sessions m)(code \<mapsto> ?t)"
      using an Offer by (auto simp: answered_def)
    have "waits m' j \<longleftrightarrow> waits m j \<or> j = i" for j
    proof
      assume "waits m' j"
      then show "waits m j \<or> j = i" using code by (auto simp: waits_def split: if_splits)
    next
      assume "waits m j \<or> j = i"
      then obtain c t' where "sessions m' c = Some t'" "client_session t' = j"
        using code unfolding waits_def by (metis fun_upd_apply option.distinct(1) timed_session.select_convs(1))
      then show "waits m' j" by (auto simp: waits_def)
    qed
    then have left: "{j. (j = i \<or> waits m j) \<and> \<not> waits m' j} = {}" by auto
    have "service_of w' = \<lparr>offers_under = map_option ticket_of \<circ> sessions m', asking = A - {i}, gone = G\<rparr>"
      unfolding s' left by simp
    moreover have "map_option ticket_of \<circ> sessions m' = ?f(code \<mapsto> (i, json))"
      using code by (simp add: fun_eq_iff ticket_of_def)
    moreover have "?f code = None" using code(1) by simp
    ultimately show ?thesis
      using service_step.make_offer [of i "service_of w" code json] i Offer by (simp add: s)
  qed
qed

lemma sweep_simulated:
  assumes "world_ok J text w"
  shows "service_step (service_of w) Expiry (service_of (sweepSessions T clock w))"
proof -
  obtain m where m: "manager (srv w) = Some m" "manager_ok m" "one_code m" and wt: "\<And>j. waits m j \<longleftrightarrow> phase_of w j = Waiting"
    using assms by (auto simp: world_ok_code server_ok_def)
  let ?m = "terminateTimeoutClients T clock m" and ?f = "map_option ticket_of \<circ> sessions m"
  define codes where "codes = {c. sessions m c \<noteq> None \<and> sessions ?m c = None}"
  have mok': "manager_ok ?m" by (rule terminate_manager_ok [OF m(2)])
  have sub: "sessions ?m c = Some t \<Longrightarrow> sessions m c = Some t" for c t
    using sweep_subset [of T clock 0 "senders_sessions m"]
    by (auto simp: sessions_entry m(2) mok') (simp add: terminateTimeoutClients_def subset_iff)
  have f': "map_option ticket_of \<circ> sessions ?m = ?f |` (- codes)"
  proof
    fix c show "(map_option ticket_of \<circ> sessions ?m) c = (?f |` (- codes)) c"
      using sub [of c] by (cases "sessions ?m c"; cases "sessions m c") (auto simp: restrict_map_def codes_def)
  qed
  have gone: "fst ` ran (?f |` codes) = {j. waits m j \<and> \<not> waits ?m j}"
  proof (intro set_eqI iffI)
    fix j assume "j \<in> fst ` ran (?f |` codes)"
    then obtain c t where c: "c \<in> codes" "sessions m c = Some t" "client_session t = j"
      by (auto simp: ran_def restrict_map_def ticket_of_def split: if_splits)
    then have "\<not> waits ?m j" using m(3) sub unfolding waits_def one_code_def codes_def by force
    with c show "j \<in> {j. waits m j \<and> \<not> waits ?m j}" by (auto simp: waits_def)
  next
    fix j assume j: "j \<in> {j. waits m j \<and> \<not> waits ?m j}"
    then obtain c t where c: "sessions m c = Some t" "client_session t = j" by (auto simp: waits_def)
    then have "sessions ?m c = None" using j sub [of c] unfolding waits_def by (cases "sessions ?m c") auto
    then have "(?f |` codes) c = Some (j, session_data t)" using c by (simp add: ticket_of_def codes_def)
    then have "(j, session_data t) \<in> ran (?f |` codes)" by (rule ranI)
    then show "j \<in> fst ` ran (?f |` codes)" by force
  qed
  have ph: "settle (Some ?m) {} (phase_of w) j = (if waits m j \<and> \<not> waits ?m j then Finished else phase_of w j)" for j
    using wt [of j] by (auto simp: settle_def holds_session_waits [OF mok'])
  have "{j. settle (Some ?m) {} (phase_of w) j = Reading} = {j. phase_of w j = Reading}"
    "{j. settle (Some ?m) {} (phase_of w) j = Finished} = {j. phase_of w j = Finished} \<union> {j. waits m j \<and> \<not> waits ?m j}"
    unfolding ph using wt by auto
  then have "service_of (sweepSessions T clock w) = \<lparr>offers_under = ?f |` (- codes),
      asking = {j. phase_of w j = Reading}, gone = {j. phase_of w j = Finished} \<union> fst ` ran (?f |` codes)\<rparr>"
    by (simp add: service_of_def sweepSessions_def Let_def m(1) f' gone)
  moreover have "service_of w = \<lparr>offers_under = ?f, asking = {j. phase_of w j = Reading}, gone = {j. phase_of w j = Finished}\<rparr>"
    by (simp add: service_of_def m(1))
  ultimately show ?thesis using service_step.expire [of "service_of w" codes] by simp
qed

text \<open>What an event shows: of a failed accept nothing, of a first read what its message asks for.\<close>

fun observed :: "'j json_api \<Rightarrow> event \<Rightarrow> 'j world \<Rightarrow> 'j action" where
  "observed J (Accepted failed handshake i k) w =
     (if failed then Silence else case handshake of Inl e \<Rightarrow> Turned_away i | Inr _ \<Rightarrow> Arrives i)"
| "observed J (Served ds now i) w = Requests i (request_on J (conn (srv w) i))"
| "observed J (Swept clock) w = Expiry"

lemma accept_simulated:
  assumes "world_ok J text w" and "phase_of w i = Unused"
  shows "service_step (service_of w) (observed J (Accepted failed handshake i k) w)
    (service_of (acceptNewConnection failed handshake i k w))"
proof (cases failed)
  case True
  then show ?thesis by (simp add: acceptNewConnection_def service_step.silence)
next
  case False
  obtain m where m: "manager (srv w) = Some m" and wt: "\<And>j. waits m j \<longleftrightarrow> phase_of w j = Waiting"
    using assms by (auto simp: world_ok_code)
  let ?f = "map_option ticket_of \<circ> sessions m"
  have s: "service_of w = \<lparr>offers_under = ?f, asking = {j. phase_of w j = Reading}, gone = {j. phase_of w j = Finished}\<rparr>"
    by (simp add: service_of_def m)
  have free: "i \<notin> fst ` ran ?f" using wt [of i] assms(2) waits_offer [of m i] by simp
  show ?thesis
  proof (cases handshake)
    case (Inl e)
    have "{j. ((phase_of w)(i := Finished)) j = Reading} = {j. phase_of w j = Reading}"
      "{j. ((phase_of w)(i := Finished)) j = Finished} = insert i {j. phase_of w j = Finished}"
      using assms(2) by auto
    then have "service_of (acceptNewConnection failed handshake i k w) =
        (service_of w)\<lparr>gone := insert i (gone (service_of w))\<rparr>"
      unfolding s by (simp add: service_of_def acceptNewConnection_def False Inl m)
    then show ?thesis using service_step.turn_away [of i "service_of w"] free assms(2) False Inl by (simp add: s)
  next
    case (Inr u)
    have "{j. ((phase_of w)(i := Reading)) j = Reading} = insert i {j. phase_of w j = Reading}"
      "{j. ((phase_of w)(i := Reading)) j = Finished} = {j. phase_of w j = Finished}"
      using assms(2) by auto
    then have "service_of (acceptNewConnection failed handshake i k w) =
        (service_of w)\<lparr>asking := insert i (asking (service_of w))\<rparr>"
      unfolding s by (simp add: service_of_def acceptNewConnection_def False Inr m)
    then show ?thesis using service_step.arrive [of i "service_of w"] free assms(2) False Inr by (simp add: s)
  qed
qed

lemma event_simulated:
  assumes "world_ok J text w" and "happens J T e w = Some w'"
  shows "service_step (service_of w) (observed J e w) (service_of w')"
proof (cases e)
  case (Accepted failed handshake i k)
  with assms(2) have "phase_of w i = Unused" "w' = acceptNewConnection failed handshake i k w" by (simp_all split: if_splits)
  then show ?thesis unfolding Accepted using accept_simulated [OF assms(1)] by blast
next
  case (Served ds now i)
  then show ?thesis using assms(2) serve_simulated [OF assms(1), of i] by (auto split: if_splits)
next
  case (Swept clock)
  then show ?thesis using assms(2) sweep_simulated [OF assms(1)] by (auto split: if_splits)
qed

interpretation rendezvous: simulation "initial J text" "server_step J T" "world_ok J text" "happens J T" "observed J"
    service_of service_step service_start
proof unfold_locales
  fix e and w w' :: "'a world"
  assume "happens J T e w = Some w'"
  then show "server_step J T w w'" using server_step_happens by blast
next
  fix w :: "'a world"
  assume "initial J text w"
  then obtain j m where "SessionsManager_init J j = Inr m" "manager (srv w) = Some m" "\<forall>i. phase_of w i = Unused"
    by (auto simp: initial_def)
  then show "service_of w = service_start"
    by (auto simp: service_of_def service_start_def SessionsManager_init_def sum_bind_Inr_iff sessions_def fun_eq_iff)
next
  fix e and w w' :: "'a world"
  assume "world_ok J text w" and "happens J T e w = Some w'"
  then show "service_step (service_of w) (observed J e w) (service_of w')" by (rule event_simulated)
qed

lemma schedule_execution: "schedule J T es w = execution (happens J T) es w"
  by (induction es arbitrary: w) (simp_all, metis)

text \<open>
  C7. The server refines the rendezvous service: whatever events happen to it from its start on, with
  its sockets, its table of entries in iteration order, its clocks and its error handling, what they
  show from outside (who comes, who is turned away, and what the first message of each party asks for)
  is a run of the service.  So a send request is stored under a free code, a request for the code of a
  stored offer takes it away and finishes both parties, and any other request changes nothing but that
  its party leaves; and a code that has been asked for is worth nothing until another offer is made.
\<close>

theorem server_refines_service:
  assumes "initial J text w0" and "schedule J T es w0 = Some w"
  shows "labelled_run service_step service_start (shown (happens J T) (observed J) es w0) (service_of w) \<and>
    (request_on J (conn (srv w) i) = Ask code \<and> happens J T (Served ds now i) w = Some w1 \<and>
       schedule J T es' w1 = Some w2 \<and>
       (\<forall>k j. Requests k (Offer j) \<notin> set (shown (happens J T) (observed J) es' w1)) \<longrightarrow>
     offers_under (service_of w2) code = None)"
proof (intro conjI impI, goal_cases)
  case 1
  show ?case using rendezvous.initial_simulated [OF assms(1)] assms(2) unfolding schedule_execution .
next
  case 2
  then have h: "request_on J (conn (srv w) i) = Ask code" "happens J T (Served ds now i) w = Some w1"
    "schedule J T es' w1 = Some w2" "\<forall>k j. Requests k (Offer j) \<notin> set (shown (happens J T) (observed J) es' w1)"
    by blast+
  have ok: "world_ok J text w" using sessions_run.reachable_inv [OF assms(1) schedule_runs [OF assms(2)]] .
  have st: "server_step J T w w1" using h(2) server_step_happens by blast
  have "service_step (service_of w) (Requests i (Ask code)) (service_of w1)" using event_simulated [OF ok h(2)] h(1) by simp
  then have "offers_under (service_of w1) code = None" by (rule asked_code_gone)
  moreover have "labelled_run service_step (service_of w1) (shown (happens J T) (observed J) es' w1) (service_of w2)"
    using rendezvous.execution_simulated [OF sessions_run.step_inv [OF ok st]] h(3) unfolding schedule_execution by blast
  ultimately show ?case using unoffered_run h(4) by blast
qed

end
