(* ===== verification/ServerApp.thy ===== *)
theory ServerApp
  imports Args Server
begin

text \<open>
  \<open>apps/drop-file-server.cpp\<close>: the server program from its command line to the first state of the
  transition system, and what the timeout of the command line means in every state reached from it.
\<close>

section \<open>The server program\<close>

text \<open>
  \<open>main\<close> of the server: an exception of any of the three steps ends the program.  \<open>listen\<close> stands for
  opening the port and loading the certificates; \<open>ends\<close> are the connections clients will make.
\<close>

definition server_main ::
  "argparse \<Rightarrow> 'j json_api \<Rightarrow> 'j \<Rightarrow> (16 word \<Rightarrow> string \<Rightarrow> error + unit) \<Rightarrow> (nat \<Rightarrow> socket) \<Rightarrow> string list \<Rightarrow> error + 'j world \<times> int" where
  "server_main parse J words_json listen ends argv =
     sum_bind (parseServerArgs parse argv) (\<lambda>args.
     sum_bind (SessionsManager_init J words_json) (\<lambda>m.
     sum_bind (listen (server_port args) (certs_directory args)) (\<lambda>_.
       Inr (\<lparr>srv = \<lparr>conn = ends, manager = Some m\<rparr>, phase_of = (\<lambda>_. Unused), down = False\<rparr>,
            uint (client_timeout args)))))"

text \<open>The word lists are of a size a vector can have, and their words are texts.\<close>

definition words_fit :: "'j json_api \<Rightarrow> (string \<Rightarrow> bool) \<Rightarrow> 'j \<Rightarrow> bool" where
  "words_fit J text words_json \<longleftrightarrow> (\<forall>m. SessionsManager_init J words_json = Inr m \<longrightarrow>
     length (nouns m) < 2 ^ 64 \<and> length (adjectives m) < 2 ^ 64 \<and> (\<forall>code \<in> session_codes m. text code))"

lemma server_main_initial:
  assumes "json_laws J text" and "words_fit J text words_json"
    and "server_main parse J words_json listen ends argv = Inr (w0, T)"
  shows "initial J text w0 \<and> (\<exists>args. parseServerArgs parse argv = Inr args \<and> T = uint (client_timeout args))"
  using assms unfolding initial_def words_fit_def by (auto simp: server_main_def sum_bind_Inr_iff)

text \<open>
  C28. The server program keeps a sender waiting for as long as its command line says: in every state it
  can reach from its start, a sweep ends exactly the sessions that have waited longer than the
  timeout; with the clock between \<open>lo\<close> and \<open>hi\<close>, a session past it at \<open>lo\<close> loses its code and is
  finished, and a session within it at \<open>hi\<close> keeps its code.
\<close>

theorem server_main_timeout:
  assumes "json_laws J text" and "words_fit J text words_json"
    and "server_main parse J words_json listen ends argv = Inr (w0, T)" and "(server_step J T)\<^sup>*\<^sup>* w0 w"
    and "\<And>i. lo \<le> clock i" and "\<And>i. clock i \<le> hi"
  shows "\<exists>args m m'. parseServerArgs parse argv = Inr args \<and> manager (srv w) = Some m \<and>
    manager (srv (sweepSessions T clock w)) = Some m' \<and>
    (\<forall>code t. sessions m code = Some t \<and> hi - time_point t \<le> uint (client_timeout args) * 1000000000 \<longrightarrow>
       sessions m' code = Some t) \<and>
    (\<forall>code t. sessions m code = Some t \<and> uint (client_timeout args) * 1000000000 < lo - time_point t \<longrightarrow>
       sessions m' code = None \<and> phase_of (sweepSessions T clock w) (client_session t) = Finished)"
proof -
  obtain args where i: "initial J text w0" and args: "parseServerArgs parse argv = Inr args" "T = uint (client_timeout args)"
    using server_main_initial [OF assms(1-3)] by blast
  have ok: "world_ok J text w" using sessions_run.reachable_inv [OF i assms(4)] .
  then obtain m where m: "manager (srv w) = Some m" "manager_ok m" "one_code m"
    and wt: "\<And>j. waits m j \<longleftrightarrow> phase_of w j = Waiting"
    by (auto simp: world_ok_code server_ok_def)
  let ?m = "terminateTimeoutClients T clock m"
  have m': "manager (srv (sweepSessions T clock w)) = Some ?m" by (simp add: sweepSessions_def m(1) Let_def)
  note ex = sweep_exact [where clock = clock and T = T, OF m(2) assms(5,6)]
  have old: "sessions ?m code = None \<and> phase_of (sweepSessions T clock w) (client_session t) = Finished"
    if t: "sessions m code = Some t" "T * 1000000000 < lo - time_point t" for code t
  proof
    show none: "sessions ?m code = None"
    proof (rule ccontr)
      assume "sessions ?m code \<noteq> None"
      then obtain t' where "sessions ?m code = Some t'" by blast
      then have "sessions m code = Some t'" "lo - time_point t' \<le> T * 1000000000" using ex by blast+
      then show False using t by simp
    qed
    have "\<not> waits ?m (client_session t)"
    proof
      assume "waits ?m (client_session t)"
      then obtain c t' where c: "sessions ?m c = Some t'" "client_session t' = client_session t" by (auto simp: waits_def)
      then have "sessions m c = Some t'" using ex by blast
      then have "c = code" using m(3) t(1) c(2) unfolding one_code_def by blast
      then show False using c(1) none by simp
    qed
    moreover have "phase_of w (client_session t) = Waiting" using t(1) wt by (auto simp: waits_def)
    ultimately show "phase_of (sweepSessions T clock w) (client_session t) = Finished"
      using ex by (simp add: sweepSessions_def m(1) Let_def settle_def holds_session_waits)
  qed
  have young: "\<forall>code t. sessions m code = Some t \<and> hi - time_point t \<le> T * 1000000000 \<longrightarrow> sessions ?m code = Some t"
    using ex by blast
  show ?thesis using args(1) m(1) m' young old unfolding args(2) by blast
qed

end
