(* ===== verification/Runs.thy ===== *)
theory Runs
  imports Delivered Refinement ServerApp
begin

text \<open>
  A run of the server on concrete bytes: a sender registers a file, another party asks for its code and
  the table is swept, in time and too late.  The theorems about every reachable state are applied to it.
\<close>

section \<open>A sender waits\<close>

theorem server_invariant_witness:
  "\<exists>!code. \<exists>t. sessions (sample_table f_json) code = Some t \<and> client_session t = 0"
  using server_invariant [OF sample_world_initial sample_waiting_reached] sample_waiting_sel(1,3) by auto

lemma sample_entry:
  "sessions (sample_table j) ''able-art-7'' = Some \<lparr>client_session = 0, session_data = j, time_point = 9\<rparr>"
  by (simp add: sample_table_def sessions_def)

text \<open>The server program with the certificate directory as its only argument, and what its clock says.\<close>

lemma sample_server_main:
  "server_main positional_parse flat_json sample_words (\<lambda>_ _. Inr ()) (\<lambda>_. sample_socket []) [''certs''] = Inr (sample_world, 120)"
  by (simp add: server_main_def SessionsManager_init_def extractWords_def sample_words_def is_space_def empty_manager_def
      parseServerArgs_def positional_parse_def server_arguments_def fits_def get_string_def get_u16_def get_u32_def sample_world_def DEFAULT_CLIENT_TIMEOUT_def)

theorem server_main_timeout_witness:
  "\<exists>m m'. manager (srv (sweepSessions 120 (\<lambda>_. 120000000009) sample_waiting)) = Some m \<and>
       sessions m ''able-art-7'' = Some \<lparr>client_session = 0, session_data = f_json, time_point = 9\<rparr> \<and>
     manager (srv (sweepSessions 120 (\<lambda>_. 120000000010) sample_waiting)) = Some m' \<and> sessions m' ''able-art-7'' = None \<and>
     phase_of (sweepSessions 120 (\<lambda>_. 120000000010) sample_waiting) 0 = Finished"
proof -
  let ?e = "\<lparr>client_session = 0, session_data = f_json, time_point = 9\<rparr>"
  have wf: "words_fit flat_json (\<lambda>_. True) sample_words"
    by (simp add: words_fit_def SessionsManager_init_def extractWords_def sample_words_def is_space_def)
  obtain args where args: "parseServerArgs positional_parse [''certs''] = Inr args" "uint (client_timeout args) = 120"
    by (simp add: parseServerArgs_def positional_parse_def server_arguments_def fits_def get_string_def get_u16_def get_u32_def DEFAULT_CLIENT_TIMEOUT_def)
  note at = server_main_timeout [OF flat_json_laws wf sample_server_main sample_waiting_reached order_refl order_refl]
  have e: "sessions (sample_table f_json) ''able-art-7'' = Some ?e" by (rule sample_entry)
  from at [of 120000000009] obtain m where m: "manager (srv (sweepSessions 120 (\<lambda>_. 120000000009) sample_waiting)) = Some m"
    "120000000009 - time_point ?e \<le> 120 * 1000000000 \<longrightarrow> sessions m ''able-art-7'' = Some ?e"
    unfolding args(1) sample_waiting_sel(3) option.inject sum.inject using args(2) e by metis
  from at [of 120000000010] obtain m' where m': "manager (srv (sweepSessions 120 (\<lambda>_. 120000000010) sample_waiting)) = Some m'"
    "120 * 1000000000 < 120000000010 - time_point ?e \<longrightarrow> sessions m' ''able-art-7'' = None \<and>
       phase_of (sweepSessions 120 (\<lambda>_. 120000000010) sample_waiting) (client_session ?e) = Finished"
    unfolding args(1) sample_waiting_sel(3) option.inject sum.inject using args(2) e by metis
  show ?thesis using m m' by simp
qed

section \<open>Its code is asked for\<close>

definition sample_asked :: "flat world" where
  "sample_asked = acceptNewConnection False (Inr ()) 3
     (endpoint (frame (put_flat (createReceiveMessage flat_json ''able-art-7'')))) sample_waiting"

lemma sample_asked_reached: "(server_step flat_json T)\<^sup>*\<^sup>* sample_world sample_asked"
  unfolding sample_asked_def
  by (rule rtranclp.rtrancl_into_rtrancl [OF sample_waiting_reached server_step.accept])
    (simp_all add: sample_waiting_sel)

lemma sample_asked_sel:
  "phase_of sample_asked 3 = Reading" "\<not> down sample_asked" "manager (srv sample_asked) = Some (sample_table f_json)"
  "rx (conn (srv sample_asked) 3) = frame (put_flat (createReceiveMessage flat_json ''able-art-7'')) @ []"
  using sample_waiting_sel by (simp_all add: sample_asked_def acceptNewConnection_def endpoint_def)

lemma sample_request_text:
  "length (put_flat (createReceiveMessage flat_json ''able-art-7'')) \<le> 1000"
  "create flat_json (put_flat (createReceiveMessage flat_json ''able-art-7'')) = Inr (createReceiveMessage flat_json ''able-art-7'')"
  using createReceiveMessage_dump [OF flat_json_laws, of "''able-art-7''"]
  by (auto simp: createReceiveMessage_def key_defs put_text_def)

lemma sample_asks: "request_on flat_json (conn (srv sample_asked) 3) = Ask ''able-art-7''"
proof -
  let ?q = "put_flat (createReceiveMessage flat_json ''able-art-7'')"
  have lim: "length ?q \<le> unat MAX_FIRST_MESSAGE_SIZE" "MAX_FIRST_MESSAGE_SIZE \<le> BUFFER_SIZE"
    using sample_request_text(1) by (simp_all add: BUFFER_SIZE_def MAX_FIRST_MESSAGE_SIZE_def)
  note v = createReceiveMessage_valid [OF flat_json_laws, of "''able-art-7''"]
  have "json_get (json_get_string flat_json) flat_json (createReceiveMessage flat_json ''able-art-7'') ACTION_KEY = Inr ''receive''"
    using v(1) by (auto simp: valid_receive_def json_get_def)
  then show ?thesis
    using asyncRead_frame [OF sample_asked_sel(4) lim] sample_request_text(2) v(2)
    by (simp add: request_on_def message_request_def)
qed

lemma sample_served: "\<exists>w. serveFirstRead flat_json [] 9 3 sample_asked = Some w \<and> \<not> down w"
proof -
  have ok: "world_ok flat_json (\<lambda>_. True) sample_asked"
    by (rule sessions_run.reachable_inv [OF sample_world_initial sample_asked_reached])
  then have mok: "server_ok flat_json (\<lambda>_. True) (srv sample_asked)" "manager_ok (sample_table f_json)"
    using sample_asked_sel(3) by (auto simp: world_ok_code server_ok_def)
  note v = createReceiveMessage_valid [OF flat_json_laws, of "''able-art-7''"]
  have "client_session \<lparr>client_session = 0, session_data = f_json, time_point = (9 :: int)\<rparr> = 0" by simp
  from server_hands_over [OF sample_asked_sel(3) mok(2) sample_asked_sel(4) sample_request_text v sample_entry this, of "[]" 9]
  obtain r s where fr: "first_read flat_json [] 9 3 (srv sample_asked) = Some (r, s)"
    using sample_asked_sel(3,4) by (metis surj_pair)
  have "\<not> empty_file_waiting flat_json (srv sample_asked)"
    using exchanged_texts(4) [OF flat_json_laws TrueI TrueI f_json_def f_json_texts] sample_asked_sel(3)
    by (auto simp: empty_file_waiting_def sample_table_def sessions_def announces_def split: if_splits)
  then have "r = Inr ()" using first_read_safe [OF flat_json_laws mok(1) fr] by blast
  with fr show ?thesis by (simp add: serveFirstRead_def)
qed

theorem server_refines_service_witness:
  "\<exists>es w w1. schedule flat_json 120 es sample_world = Some w \<and> offers_under (service_of w) ''able-art-7'' = Some (0, f_json) \<and>
     happens flat_json 120 (Served [] 9 3) w = Some w1 \<and>
     offers_under (service_of (sweepSessions 120 (\<lambda>_. 9) w1)) ''able-art-7'' = None \<and>
     labelled_run service_step service_start (shown (happens flat_json 120) (observed flat_json) es sample_world) (service_of w)"
proof -
  obtain es where es: "schedule flat_json 120 es sample_world = Some sample_asked"
    using run_scheduled [OF sample_asked_reached] by blast
  obtain w1 where w1: "serveFirstRead flat_json [] 9 3 sample_asked = Some w1" "\<not> down w1" using sample_served by blast
  then have h: "happens flat_json 120 (Served [] 9 3) sample_asked = Some w1" using sample_asked_sel(1,2) by simp
  have "schedule flat_json 120 [Swept (\<lambda>_. 9)] w1 = Some (sweepSessions 120 (\<lambda>_. 9) w1)" using w1(2) by simp
  moreover have "\<forall>k j. Requests k (Offer j) \<notin> set (shown (happens flat_json 120) (observed flat_json) [Swept (\<lambda>_. 9)] w1)"
    by (simp split: option.split)
  moreover have "offers_under (service_of sample_asked) ''able-art-7'' = Some (0, f_json)"
    using sample_asked_sel(3) by (simp add: service_of_def sample_entry ticket_of_def)
  ultimately show ?thesis
    using server_refines_service [OF sample_world_initial es, of 3 "''able-art-7''" "[]" 9 w1 "[Swept (\<lambda>_. 9)]"] sample_asks h es
    by blast
qed

theorem finished_session_untouched_witness:
  "\<exists>w1. serveFirstRead flat_json [] 9 3 sample_asked = Some w1 \<and>
     conn (srv (sweepSessions 120 (\<lambda>_. 9) w1)) 0 = conn (srv w1) 0 \<and>
     \<not> holds_session (manager (srv (sweepSessions 120 (\<lambda>_. 9) w1))) 0 \<and>
     \<not> holds_session (manager (srv (sweepSessions 120 (\<lambda>_. 9) w1))) 3"
proof -
  obtain w1 where w1: "serveFirstRead flat_json [] 9 3 sample_asked = Some w1" "\<not> down w1" using sample_served by blast
  have "(server_step flat_json 120)\<^sup>*\<^sup>* w1 (sweepSessions 120 (\<lambda>_. 9) w1)"
    using server_step.sweep [OF w1(2)] by blast
  note untouched = finished_session_untouched [OF sample_world_initial sample_asked_reached sample_asked_sel(3) this,
      where i = 3 and ds = "[]" and now = 9 and code = "''able-art-7''" and clock = "\<lambda>_. 9" and t = "\<lparr>client_session = 0, session_data = f_json, time_point = 9\<rparr>"]
  show ?thesis using untouched w1(1) sample_asked_sel(1) sample_asks sample_entry [of f_json] by (intro exI [of _ w1]) simp
qed

end
