(* ===== verification/Refused.thy ===== *)
theory Refused
  imports Delivered
begin

text \<open>
  Transfers that do not come about: the receiving user declines, or the receiving machine has no place
  for what is offered.  On every network the programs come to the same end, at which nothing of the file
  has been sent, the code has been used up, and the machines and the server are as they were.
\<close>

section \<open>The dialogue of a refusal\<close>

text \<open>
  The receiver answers the announcement with \<open>x\<close>, an abort or nothing, and closes; the server tells it
  \<open>y\<close>, what went wrong or nothing, and closes the sender's connection.
\<close>

definition refusal_turns :: "bytes \<Rightarrow> bytes \<Rightarrow> bytes \<Rightarrow> bytes \<Rightarrow> bytes \<Rightarrow> (channel \<Rightarrow> bytes) list" where
  "refusal_turns T A Q x y =
     [flow [] [] [] [], flow T [] [] [], flow T A [] [], flow T A Q [], flow T A Q T, flow T A (Q @ x) T, flow T A (Q @ x) (T @ y)]"

lemma refusal_completes:
  assumes "sender_run st [] = Some (r0, a0)" and "prefix (frame t) (transmitted a0)" and "printed a0 = []"
    and "sender_run st A = Some (rs, as)" and "transmitted as = frame t" and "shown_code (sender_run st A) = Some code"
    and "prefix Q (output_of (receiver_run st code []))" and "prefix (Q @ x) (output_of (receiver_run st code (frame t)))"
    and "receiver_run st code (frame t @ y) = Some (rr, ar)" and "transmitted ar = Q @ x"
    and "sender_id st \<noteq> receiver_id st" and "length t \<le> 1000" and "served_first st t w0" and "tx (conn (srv w0) (sender_id st)) = A"
    and "prefix (frame t) (told (server_run st (frame t) Q) (receiver_id st))" and "server_run st (frame t) (Q @ x) = Some w"
    and "tx (conn (srv w) (sender_id st)) = A" and "tx (conn (srv w) (receiver_id st)) = frame t @ y"
  shows "completes st (flow (frame t) A (Q @ x) (frame t @ y))"
proof -
  have out: "output_of (sender_run st []) = transmitted a0" "output_of (sender_run st A) = frame t"
    "output_of (receiver_run st code (frame t @ y)) = Q @ x"
    "told (server_run st (frame t) (Q @ x)) (sender_id st) = A" "told (server_run st (frame t) (Q @ x)) (receiver_id st) = frame t @ y"
    using assms by (simp_all add: output_of_def told_def)
  have ans: "told (server_run st (frame t) []) (sender_id st) = A" using server_answers [OF assms(13)] assms(14) by simp
  have ready: "first_read_ready (frame t @ z)" for z using assms(12) by (rule first_read_ready_text)
  let ?dg = "\<lparr>announcement = t, code_told = code, said = refusal_turns (frame t) A Q x y\<rparr>"
  have "successively (next_turn st) (refusal_turns (frame t) A Q x y)"
    unfolding refusal_turns_def using assms(2,6,7,8,15) out ans ready [of "[]"]
    by (simp add: next_turn_def all_channels in_order_def)
  moreover have "ends_at st code (flow (frame t) A (Q @ x) (frame t @ y))"
    unfolding ends_at_def fun_eq_iff all_channels using out assms(4,6,9,16) by simp
  ultimately have "talk (st, ?dg)" using assms(1,3,11-13)
    by (auto simp: talk_def refusal_turns_def flow_empty)
  from talk_completes [OF this] show ?thesis by (simp add: refusal_turns_def)
qed

section \<open>The parts of the programs\<close>

text \<open>The acknowledgement that does not come.\<close>

lemma receiveACK_waits: "rx s = [] \<Longrightarrow> receiveACK s = (Inl end_of_file, s)"
  by (simp add: receiveACK_def receiveToBuffer_def getMessageLength_def asio_read_def andthen_def end_of_file_def)

lemma end_of_file_alive [simp]: "\<not> killed end_of_file"
  by (simp add: end_of_file_def)

lemma sender_waits:
  assumes "sender_prepared st h e c h2" and "evp_laws (evp (libraries st)) digest"
    and "open_in h2 (entry_path e) = Some d"
    and "json_dump (json (libraries st)) (json_object (json (libraries st))
      (send_fields (filename (entry_path e)) (of_nat (length d)) (binaryToHumanReadable (digest d)) c)) = Some t"
    and "length t < 2 ^ 64" and "wire t = frame t" and "answers (json (libraries st)) ans code"
  shows "\<exists>r0 a0. sender_run st [] = Some (r0, a0) \<and> prefix (frame t) (transmitted a0) \<and> printed a0 = []"
    and "sender_run st (frame ans) = Some (Inl end_of_file, \<lparr>left_machine = remove_all (DROP_FILE_SENDER_TMP_DIR (RAIIFSEntry_destroy e h2))
      (RAIIFSEntry_destroy e h2), printed = [''Receive code: '' @ code], transmitted = frame t\<rparr>)"
proof -
  let ?E = "evp (libraries st)" and ?J = "json (libraries st)"
  let ?s = "\<lparr>sock = endpoint (frame ans), machine = h2\<rparr> :: client"
  let ?s1 = "?s\<lparr>sock := (written (frame t) (sock ?s))\<lparr>rx := []\<rparr>\<rparr>"
  have an: "announce ?E ?J (entry_path e) c ?s = (Inr code, ?s1)"
    using announce_ok [of ?E digest ?s "entry_path e" d ?J c t ans "[]" code] assms(2-7) by (simp add: endpoint_def writable_def)
  have "on_sock receiveACK ?s1 = (Inl end_of_file, ?s1)" by (simp add: on_sock_def receiveACK_waits)
  then have "sendFSEntry (available (libraries st)) e ?s1 = (Inl end_of_file, ?s1\<lparr>machine := RAIIFSEntry_destroy e h2\<rparr>)"
    by (simp add: sendFSEntry_def stream_file_def andthen_Inl)
  then show "sender_run st (frame ans) = Some (Inl end_of_file, \<lparr>left_machine = remove_all (DROP_FILE_SENDER_TMP_DIR (RAIIFSEntry_destroy e h2))
      (RAIIFSEntry_destroy e h2), printed = [''Receive code: '' @ code], transmitted = frame t\<rparr>)"
    unfolding sender_run_prepared [OF assms(1)] an by (simp add: DropFileSendClient_destroy_def endpoint_def written_def)
  obtain er s2 where "announce ?E ?J (entry_path e) c (\<lparr>sock = endpoint [], machine = h2\<rparr> :: client) = (Inl er, s2)" "prefix (frame t) (tx (sock s2))"
    using announce_waits [of ?E digest "\<lparr>sock = endpoint [], machine = h2\<rparr> :: client" "entry_path e" d ?J c t] assms(2-6)
    by (auto simp: endpoint_def writable_def)
  then show "\<exists>r0 a0. sender_run st [] = Some (r0, a0) \<and> prefix (frame t) (transmitted a0) \<and> printed a0 = []"
    unfolding sender_run_prepared [OF assms(1)] by simp
qed

text \<open>The server's hand-over without a confirmation.\<close>

lemma receiveFile_unconfirmed:
  assumes "json_dump J meta = Some d" and "length d < 2 ^ 64" and "writable (conn s w)"
    and "receiveACK (written (wire d) (conn s w)) = (Inl e, k)"
  shows "ServerSession.receiveFile J w a meta s = (Inl e, s\<lparr>conn := (conn s)(w := k)\<rparr>)"
proof -
  have "on w (send d) s = (Inr (), s\<lparr>conn := (conn s)(w := written (wire d) (conn s w))\<rparr>)" using assms(2,3) by (intro send_text_ok)
  moreover have "on w receiveACK (s\<lparr>conn := (conn s)(w := written (wire d) (conn s w))\<rparr>) = (Inl e, s\<lparr>conn := (conn s)(w := k)\<rparr>)"
    using assms(4) by (simp add: on_def)
  ultimately show ?thesis using assms(1) by (simp add: ServerSession.receiveFile_def andthen_def)
qed

definition abort_answer :: bytes where
  "abort_answer = frame (''Response not ok. Response size: '' @ show_nat 5 @ ''. abort'')"

text \<open>What the receiver may answer instead of a confirmation, and what it is told then.\<close>

definition unconfirmed :: "bytes \<Rightarrow> bytes \<Rightarrow> bool" where
  "unconfirmed x y \<longleftrightarrow> (x = [] \<and> y = []) \<or> (x = frame ''abort'' \<and> y = abort_answer)"

lemma catches_unconfirmed:
  assumes "json_dump J meta = Some d" and "length d < 2 ^ 64" and "writable (conn s w)" and "rx (conn s w) = x" and "unconfirmed x y"
    and "w \<noteq> a"
  shows "\<exists>s'. catch_first_read w (ServerSession.receiveFile J w a meta s) = (Inr (), s') \<and>
    tx (conn s' w) = tx (conn s w) @ wire d @ y \<and> tx (conn s' a) = tx (conn s a) \<and> manager s' = manager s"
proof (cases "x = []")
  case True
  have "y = []" using assms(5) True by (auto simp: unconfirmed_def frame_def)
  moreover have "receiveACK (written (wire d) (conn s w)) = (Inl end_of_file, written (wire d) (conn s w))"
    using assms(4) True by (simp add: receiveACK_waits)
  ultimately show ?thesis using receiveFile_unconfirmed [OF assms(1-3)] assms(6)
    by (simp add: catch_first_read_def end_of_file_def)
next
  case False
  let ?msg = "''Response not ok. Response size: '' @ show_nat 5 @ ''. abort''" and ?k = "written (wire d) (conn s w)"
  have x: "x = frame ''abort'' @ []" and y: "y = frame ?msg" using assms(5) False by (auto simp: unconfirmed_def abort_answer_def)
  have "show_nat (Suc (Suc (Suc (Suc (Suc 0))))) = show_nat 5" by (simp add: eval_nat_numeral)
  then have ack: "receiveACK ?k = (Inl (SocketException ?msg), ?k\<lparr>rx := [], data_buffer := overwrite ''abort'' (data_buffer ?k)\<rparr>)"
    using receiveToBuffer_frame [of ?k "''abort''" "[]"] assms(4) x
    by (simp add: receiveACK_def andthen_def ACK_def BUFFER_SIZE_def)
  have "show_nat 5 = ''5''" by code_simp
  then have "safeDisconnect (Some ?msg) (?k\<lparr>rx := [], data_buffer := overwrite ''abort'' (data_buffer ?k)\<rparr>) =
      (Inr (), (written (frame ?msg) (?k\<lparr>rx := [], data_buffer := overwrite ''abort'' (data_buffer ?k)\<rparr>))\<lparr>tx_open := False\<rparr>)"
    using assms(3) by (intro safeDisconnect_writable) (simp_all add: BUFFER_SIZE_def writable_def written_def)
  then show ?thesis using receiveFile_unconfirmed [OF assms(1-3) ack] assms(6) y
    by (simp add: catch_first_read_def on_def)
qed

text \<open>The receiver that refuses.\<close>

definition refuses :: "('e, 'c, 'd, 'j, 'ep, 'peer, 'cert) setting \<Rightarrow> host \<Rightarrow> string \<Rightarrow> size_t \<Rightarrow> bool \<Rightarrow> bool" where
  "refuses st h name n c \<longleftrightarrow> \<not> says_yes (typed st) \<or> fs_exists h name \<or> free_space h (base_dir c h) < n"

lemma check_response_refuses:
  assumes "json_parse J a = Some j" and "announces J j name n hash c" and "n \<noteq> 0"
    and "fs_exists h name \<or> free_space h (base_dir c h) < n"
  shows "\<exists>m. check_response J a h = Inl (DropFileReceiveException m)"
proof -
  obtain t where "bytesToHumanReadable n = Inr t"
    using bytesToHumanReadable_positive [OF assms(3)] by blast
  moreover obtain v1 where "json_at J j FILENAME_KEY = Inr v1" "json_get_string J v1 = Some name"
    using json_get_at assms(2) unfolding announces_def by metis
  moreover obtain v2 where "json_at J j IS_COMPRESSED_KEY = Inr v2" "json_get_bool J v2 = Some c"
    using json_get_at assms(2) unfolding announces_def by metis
  moreover obtain v3 where "json_at J j FILE_SIZE_KEY = Inr v3" "json_get_size J v3 = Some n"
    using json_get_at assms(2) unfolding announces_def by metis
  ultimately show ?thesis using assms(1,2,4)
    by (auto simp: check_response_def assertJsonProperties_def announces_def base_dir_def Let_def)
qed

lemma receiver_refuses:
  assumes "receiver_prepared st h" and "json_dump (json (libraries st)) (createReceiveMessage (json (libraries st)) code) = Some q"
    and "length q < 2 ^ 64" and "wire q = frame q" and "length t \<le> unat BUFFER_SIZE"
    and "json_parse (json (libraries st)) t = Some j" and "announces (json (libraries st)) j name n hash c" and "n \<noteq> 0"
    and "refuses st h name n c"
  shows "\<exists>m x y b. unconfirmed x y \<and> (\<forall>z. receiver_run st code (frame t @ z) = Some (Inl (DropFileReceiveException m), b)) \<and>
    transmitted b = frame q @ x \<and> left_machine b = remove_all (DROP_FILE_RECEIVER_TMP_DIR h) h"
proof -
  let ?E = "evp (libraries st)" and ?Z = "zstd (libraries st)" and ?J = "json (libraries st)"
  let ?s = "\<lambda>x. \<lparr>sock = endpoint x, machine = h, interaction = typed st\<rparr>"
  have "\<exists>m x y. unconfirmed x y \<and> (\<forall>z. \<exists>s'. ReceiveClient.receiveFile ?E ?Z ?J code (?s (frame t @ z)) =
      Some (Inl (DropFileReceiveException m), s') \<and> tx (sock s') = frame q @ x \<and> machine s' = h)"
  proof (cases "fs_exists h name \<or> free_space h (base_dir c h) < n")
    case True
    from check_response_refuses [OF assms(6-8) this] obtain m where m: "check_response ?J t h = Inl (DropFileReceiveException m)" by blast
    have "\<exists>s'. ReceiveClient.receiveFile ?E ?Z ?J code (?s (frame t @ z)) =
        Some (Inl (DropFileReceiveException m), s') \<and> tx (sock s') = frame q @ [] \<and> machine s' = h" for z
    proof -
      let ?s1 = "(?s (frame t @ z))\<lparr>sock := written (frame q) (endpoint (frame t @ z))\<rparr>"
      have 1: "download ?E ?J code (?s (frame t @ z)) = download_requested ?E ?J ?s1"
        using download_parts [OF assms(2,3), of "?s (frame t @ z)"] assms(4) by simp
      have "on_sock receive ?s1 = (Inr t, ?s1\<lparr>sock := (sock ?s1)\<lparr>rx := z\<rparr>\<rparr>)"
        using assms(5) by (intro on_sock_ok receive_frame) (simp_all add: written_def endpoint_def)
      then have "getServerResponse ?J ?s1 = (Inl (DropFileReceiveException m), ?s1\<lparr>sock := (sock ?s1)\<lparr>rx := z\<rparr>\<rparr>)"
        using m by (simp add: getServerResponse_def andthen_def try_catch_def)
      then have "download_requested ?E ?J ?s1 = (Inl (DropFileReceiveException m), ?s1\<lparr>sock := (sock ?s1)\<lparr>rx := z\<rparr>\<rparr>)"
        by (simp add: download_requested_def andthen_Inl)
      then show ?thesis using 1 by (simp add: ReceiveClient.receiveFile_def endpoint_def written_def)
    qed
    moreover have "unconfirmed [] []" by (simp add: unconfirmed_def)
    ultimately show ?thesis by blast
  next
    case False
    then have off: "offered ?J t j name n hash c h" and no: "\<not> says_yes (typed st)"
      using assms(5-9) by (auto simp: offered_def refuses_def)
    obtain k i where k: "read_char (typed st) = (k, i)" by fastforce
    have "\<exists>s'. ReceiveClient.receiveFile ?E ?Z ?J code (?s (frame t @ z)) =
        Some (Inl (DropFileReceiveException (''Entered '' @ [CHR 0x27, k, CHR 0x27] @ '', aborting.'')), s') \<and>
        tx (sock s') = frame q @ frame ''abort'' \<and> machine s' = h" for z
      using declined_with [OF assms(2,3), of "?s (frame t @ z)" t z j name n hash c k i ?E ?Z] off no k assms(4)
      by (auto simp: endpoint_def writable_def)
    moreover have "unconfirmed (frame ''abort'') abort_answer" by (simp add: unconfirmed_def)
    ultimately show ?thesis by blast
  qed
  then obtain m x y where u: "unconfirmed x y" and run: "\<And>z. \<exists>s'. ReceiveClient.receiveFile ?E ?Z ?J code (?s (frame t @ z)) =
      Some (Inl (DropFileReceiveException m), s') \<and> tx (sock s') = frame q @ x \<and> machine s' = h" by blast
  have "receiver_run st code (frame t @ z) = Some (Inl (DropFileReceiveException m),
      \<lparr>left_machine = remove_all (DROP_FILE_RECEIVER_TMP_DIR h) h, printed = [], transmitted = frame q @ x\<rparr>)" for z
    using run [of z] by (auto simp: receiver_run_prepared [OF assms(1)] DropFileReceiveClient_destroy_def)
  with u show ?thesis by fastforce
qed

lemma receiver_requests:
  assumes "receiver_prepared st h" and "json_dump (json (libraries st)) (createReceiveMessage (json (libraries st)) code) = Some q"
    and "length q < 2 ^ 64" and "wire q = frame q" and "receiver_run st code z = Some (r, a)"
  shows "prefix (frame q) (output_of (receiver_run st code []))"
proof -
  let ?E = "evp (libraries st)" and ?J = "json (libraries st)"
  let ?s = "\<lparr>sock = endpoint [], machine = h, interaction = typed st\<rparr>"
  let ?s1 = "?s\<lparr>sock := written (frame q) (endpoint [])\<rparr>"
  obtain r0 a0 where ra: "receiver_run st code [] = Some (r0, a0)" using receiver_run_later [OF assms(5), of "[]"] by auto
  then obtain s2 where s2: "ReceiveClient.receiveFile ?E (zstd (libraries st)) ?J code ?s = Some (r0, s2)" "transmitted a0 = tx (sock s2)"
    unfolding receiver_run_prepared [OF assms(1)] by auto
  have "download ?E ?J code ?s = download_requested ?E ?J ?s1"
    using download_parts [OF assms(2,3), of ?s] assms(4) by simp
  then have "sock s2 = sock (snd (download_requested ?E ?J ?s1))" using receiveFile_sock [OF s2(1)] by simp
  moreover have "prefix (client_out ?s1 ()) (client_out (snd (download_requested ?E ?J ?s1)) ())"
    by (rule causal_growsD [OF download_requested_causal])
  ultimately show ?thesis using ra s2(2) by (simp add: output_of_def client_out_def)
qed

text \<open>The server, from the request on.\<close>

lemma server_unconfirmed:
  assumes "sender_id st \<noteq> receiver_id st" and "served_first st t w0" and "awaits_request st ans m1 w0" and "length q \<le> 1000"
    and "create (json (libraries st)) q = Inr jq" and "valid_receive (json (libraries st)) jq"
    and "json_get (json_get_string (json (libraries st))) (json (libraries st)) jq CODE_WORDS_KEY = Inr code"
    and "sessions m1 code = Some e" and "client_session e = sender_id st" and "session_data e = j"
    and "json_dump (json (libraries st)) j = Some t" and "length t < 2 ^ 64" and "wire t = frame t"
  shows "\<exists>m3. manager_ok m3 \<and> sessions m3 = (sessions m1)(code := None) \<and> (\<forall>x y. unconfirmed x y \<longrightarrow>
    (\<exists>w. server_run st (frame t) (frame q @ x) = Some w \<and> tx (conn (srv w) (sender_id st)) = frame ans \<and>
      tx (conn (srv w) (receiver_id st)) = frame t @ y \<and> \<not> down w \<and> manager (srv w) = Some m3 \<and>
      phase_of w = settle (Some m3) {receiver_id st} (phase_of w0)))"
proof -
  let ?J = "json (libraries st)" and ?a = "sender_id st" and ?b = "receiver_id st"
  from server_run_requested [OF assms(1-10)] obtain m3 where m3: "sessions m3 = (sessions m1)(code := None)" "manager_ok m3"
    and run: "\<And>s r. server_run st (frame t @ s) (frame q @ r) =
      (case catch_first_read ?b (ServerSession.receiveFile ?J ?b ?a j (requested st w0 q m3 s r)) of (x, v) \<Rightarrow>
        Some (w0\<lparr>srv := v, phase_of := settle (manager v) {?b} (phase_of w0), down := (case x of Inl e \<Rightarrow> True | Inr _ \<Rightarrow> False)\<rparr>))"
    by blast
  have "\<exists>w. server_run st (frame t) (frame q @ x) = Some w \<and> tx (conn (srv w) ?a) = frame ans \<and>
      tx (conn (srv w) ?b) = frame t @ y \<and> \<not> down w \<and> manager (srv w) = Some m3 \<and>
      phase_of w = settle (Some m3) {?b} (phase_of w0)" if "unconfirmed x y" for x y
  proof -
    note V = requested_sel [OF assms(3,1) refl, of q m3 "[]" x]
    from catches_unconfirmed [OF assms(11,12) V(5,1) that, of ?a] obtain v where
      "catch_first_read ?b (ServerSession.receiveFile ?J ?b ?a j (requested st w0 q m3 [] x)) = (Inr (), v)"
      "tx (conn v ?b) = frame t @ y" "tx (conn v ?a) = frame ans" "manager v = Some m3"
      using V(3,4,7) assms(1,13) by auto
    then show ?thesis using run [of "[]" x] by simp
  qed
  with m3 show ?thesis by blast
qed

section \<open>Nothing happens without consent\<close>

text \<open>
  C3. A refused transfer changes nothing, on every network.  Let the sender have a file or a packed
  directory ready and the server be as for a transfer; and let the receiver refuse: its user types
  anything but a \<open>y\<close>, an entry of the name exists, or there is no room.  Then every run of the three
  programs ends at the same place: the sender has shown its code, has sent nothing but its announcement
  and ends because its connection does; the receiver ends with the client's exception; neither machine has
  changed but for removed temporary entries; and the server is up, with both sessions finished and the
  code used up.
\<close>

theorem transfer_refused:
  assumes "evp_laws (evp (libraries st)) digest" and "sender_prepared st hs e c h2" and "open_in h2 (entry_path e) = Some d"
    and "d \<noteq> []" and "length d < 2 ^ 64" and "text (filename (entry_path e))"
    and "j = json_object (json (libraries st))
      (send_fields (filename (entry_path e)) (of_nat (length d)) (binaryToHumanReadable (digest d)) c)"
    and "server_ready st text j code" and "texts_fit (json (libraries st)) j code t ans q" and "waits_until_asked st t w0"
    and "receiver_prepared st hr" and "refuses st hr (filename (entry_path e)) (of_nat (length d)) c"
  shows "\<exists>fin a b w m. completes st fin \<and>
    sender_run st (fin To_sender) = Some (Inl end_of_file, a) \<and> printed a = [''Receive code: '' @ code] \<and> transmitted a = frame t \<and>
    left_machine a = remove_all (DROP_FILE_SENDER_TMP_DIR (RAIIFSEntry_destroy e h2)) (RAIIFSEntry_destroy e h2) \<and>
    receiver_run st code (fin To_receiver) = Some (Inl (DropFileReceiveException m), b) \<and>
    left_machine b = remove_all (DROP_FILE_RECEIVER_TMP_DIR hr) hr \<and>
    server_run st (fin From_sender) (fin From_receiver) = Some w \<and> server_over st code w0 w"
proof -
  let ?J = "json (libraries st)" and ?a = "sender_id st" and ?b = "receiver_id st" and ?n = "of_nat (length d) :: size_t"
  obtain m2 en where ids: "?a \<noteq> ?b" and laws: "json_laws ?J text" and tc: "text code" and sf: "served_first st t w0"
    and aw: "awaits_request st ans m2 w0" and en: "sessions m2 code = Some en" "client_session en = ?a" "session_data en = j"
    and wok: "world_ok ?J text w0"
    and idle: "meanwhile st = [] \<longrightarrow> map_option sessions (manager (srv (serving st))) = Some ((sessions m2)(code := None))"
    using server_awaits [OF assms(8,6,7,9,10)] by blast
  note x = exchanged_texts [OF laws assms(6) tc assms(7,9)]
  have tf: "length t \<le> 1000" "length t < 2 ^ 64" "length q \<le> 1000" "length q < 2 ^ 64" "json_dump ?J j = Some t"
    "json_dump ?J (createReceiveMessage ?J code) = Some q" "length t \<le> unat BUFFER_SIZE"
    using assms(9) by (auto simp: texts_fit_def BUFFER_SIZE_def)
  have "unat ?n = length d" using unat_of_nat_size [OF assms(5)] .
  then have n0: "?n \<noteq> 0" using assms(4) by (metis length_0_conv unat_0)
  note sw = sender_waits [OF assms(2,1,3) tf(5) [unfolded assms(7)] tf(2) x(7,5)]
  obtain r0 a0 where s0: "sender_run st [] = Some (r0, a0)" "prefix (frame t) (transmitted a0)" "printed a0 = []" using sw(1) by blast
  have shown: "shown_code (sender_run st (frame ans)) = Some code" unfolding sw(2) by (simp add: shown_code_def)
  obtain m y z b where u: "unconfirmed y z" and b: "\<And>x. receiver_run st code (frame t @ x) = Some (Inl (DropFileReceiveException m), b)"
    "transmitted b = frame q @ y" "left_machine b = remove_all (DROP_FILE_RECEIVER_TMP_DIR hr) hr"
    using receiver_refuses [OF assms(11) tf(6,4) x(9) tf(7) x(1,4) n0 assms(12)] by blast
  note rq = receiver_requests [OF assms(11) tf(6,4) x(9) b(1) [of "[]"]]
  have hears: "prefix (frame q @ y) (output_of (receiver_run st code (frame t)))" using b(1) [of "[]"] b(2) by (simp add: output_of_def)
  have rv: "valid_receive ?J (createReceiveMessage ?J code)"
    "json_get (json_get_string ?J) ?J (createReceiveMessage ?J code) CODE_WORDS_KEY = Inr code"
    using createReceiveMessage_valid [OF laws] by blast+
  obtain m3 where m3: "manager_ok m3" "sessions m3 = (sessions m2)(code := None)"
    and run: "\<And>x y. unconfirmed x y \<Longrightarrow> \<exists>w. server_run st (frame t) (frame q @ x) = Some w \<and> tx (conn (srv w) ?a) = frame ans \<and>
      tx (conn (srv w) ?b) = frame t @ y \<and> \<not> down w \<and> manager (srv w) = Some m3 \<and> phase_of w = settle (Some m3) {?b} (phase_of w0)"
    using server_unconfirmed [OF ids sf aw tf(3) x(6) rv en tf(5,2) x(7)] by blast
  have "unconfirmed [] []" by (simp add: unconfirmed_def)
  from run [OF this] have offer: "prefix (frame t) (told (server_run st (frame t) (frame q)) ?b)" by (auto simp: told_def)
  obtain w where w: "server_run st (frame t) (frame q @ y) = Some w" "tx (conn (srv w) ?a) = frame ans"
    "tx (conn (srv w) ?b) = frame t @ z" "\<not> down w" "manager (srv w) = Some m3" "phase_of w = settle (Some m3) {?b} (phase_of w0)"
    using run [OF u] by blast
  have at: "tx (conn (srv w0) ?a) = frame ans" using aw by (simp add: awaits_request_def)
  have "completes st (flow (frame t) (frame ans) (frame q @ y) (frame t @ z))"
    by (rule refusal_completes [OF s0 sw(2) _ shown rq hears b(1,2) ids tf(1) sf at offer w(1-3)]) simp
  moreover have "server_over st code w0 w" by (rule server_over_settled [OF wok aw en(1,2) w(4,5) m3 w(6) idle])
  ultimately show ?thesis using sw(2) b(1,3) w(1)
    by (intro exI [of _ "flow (frame t) (frame ans) (frame q @ y) (frame t @ z)"] exI [of _ b] exI [of _ w] exI [of _ m] exI) auto
qed

text \<open>The receiving user types an \<open>n\<close>.\<close>

theorem transfer_refused_witness:
  "\<exists>fin a b m. completes ((sample_setting Utils.sample_host ''f'')\<lparr>typed := ''n''\<rparr>) fin \<and>
     sender_run ((sample_setting Utils.sample_host ''f'')\<lparr>typed := ''n''\<rparr>) (fin To_sender) = Some (Inl end_of_file, a) \<and>
     transmitted a = frame (put_flat f_json) \<and>
     receiver_run ((sample_setting Utils.sample_host ''f'')\<lparr>typed := ''n''\<rparr>) ''able-art-7'' (fin To_receiver) =
       Some (Inl (DropFileReceiveException m), b) \<and>
     left_machine b = remove_all (DROP_FILE_RECEIVER_TMP_DIR receiving_host) receiving_host"
proof -
  let ?base = "sample_setting Utils.sample_host ''f''"
  let ?st = "?base\<lparr>typed := ''n''\<rparr>" and ?e = "RAIIFSEntry_init ''f'' False"
  have f: "open_in (prepared_host ''sender'') ''f'' = Some ''data''" and fn: "filename (entry_path ?e) = ''f''" "entry_path ?e = ''f''"
    by (simp_all add: prepared_host_def Utils.sample_host_def open_in_def stat_def resolve_def is_absolute_def filename_def RAIIFSEntry_init_def)
  have sp: "sender_prepared ?st (prepared_host ''sender'') ?e False (prepared_host ''sender'')"
    using file_prepared [of "endpoint []" ?st "\<lparr>sock = endpoint [], machine = prepared_host ''sender''\<rparr>" "''data''"] sample_init(1) f by simp
  have rp: "receiver_prepared ?st receiving_host"
    using receiver_prepared_init [of "endpoint []" ?st "\<lparr>sock = endpoint [], machine = receiving_host, interaction = ''n''\<rparr>"] visitor_init by simp
  have no: "refuses ?st receiving_host (filename (entry_path ?e)) (of_nat (length ''data'')) False"
    by (simp add: refuses_def says_yes_def read_char_def ReceiveClient.is_space_def)
  have ready: "server_ready ?st (\<lambda>_. True) f_json ''able-art-7''"
    using sample_server_ready [of Utils.sample_host "''f''" f_json] by (simp add: server_ready_def)
  obtain w0 where "waits_until_asked ?base (put_flat f_json) w0" using sample_waits [OF f_json_def f_json_texts] by blast
  then have w0: "waits_until_asked ?st (put_flat f_json) w0"
    by (simp add: waits_until_asked_def before_request_def connected_def cong: if_cong)
  show ?thesis
    using transfer_refused [of ?st "take 4", OF _ sp, of "''data''" "\<lambda>_. True" f_json "''able-art-7''" "put_flat f_json"
        "put_flat (flat_set (Scalar F_null) CODE_WORDS_KEY (J_string ''able-art-7''))"
        "put_flat (createReceiveMessage flat_json ''able-art-7'')" w0 receiving_host, OF _ _ _ _ _ _ ready _ w0 rp no]
      take4_evp_laws f fn f_json_def f_json_texts
    by simp blast
qed

end
