(* ===== verification/Unknown.thy ===== *)
theory Unknown
  imports Refused
begin

text \<open>
  A receiver with a code that no sender waits under, alone with the server: on every network it is told
  so, ends with an exception, and neither its machine nor the table of the server has changed.
\<close>

section \<open>A receiver and the server\<close>

datatype link = Up | Down

instance link :: finite
proof
  have "(UNIV :: link set) = {Up, Down}" using link.exhaust by blast
  then show "finite (UNIV :: link set)" by (metis finite.emptyI finite.insertI)
qed

lemma all_links: "(\<forall>c. P c) \<longleftrightarrow> P Up \<and> P Down"
  by (metis link.exhaust)

definition both :: "bytes \<Rightarrow> bytes \<Rightarrow> link \<Rightarrow> bytes" where
  "both u d c = (case c of Up \<Rightarrow> u | Down \<Rightarrow> d)"

lemma both_simps [simp]: "both u d Up = u" "both u d Down = d"
  by (simp_all add: both_def)

text \<open>The server with the one connection accepted, and its first read served when it is complete.\<close>

definition server_alone :: "('e, 'c, 'd, 'j, 'ep, 'peer, 'cert) setting \<Rightarrow> bytes \<Rightarrow> 'j world option" where
  "server_alone st r = serve_complete (json (libraries st)) (snd (drawn st)) (snd (clock st)) (receiver_id st)
     (acceptNewConnection False (Inr ()) (receiver_id st) (endpoint r) (serving st))"

fun link_writes :: "('e, 'c, 'd, 'j, 'ep, 'peer, 'cert) setting \<times> string \<Rightarrow> (link \<Rightarrow> bytes) \<Rightarrow> link \<Rightarrow> bytes" where
  "link_writes (st, code) X Up = output_of (receiver_run st code (X Down))"
| "link_writes (st, code) X Down = told (server_alone st (X Up)) (receiver_id st)"

lemma accepted_given:
  "acceptNewConnection False (Inr ()) (receiver_id st) (endpoint (x @ z)) (serving st) =
     given st [] z (acceptNewConnection False (Inr ()) (receiver_id st) (endpoint x) (serving st))"
  unfolding acceptNewConnection_def given_def server_later_def
  by (simp, intro world.equality server.equality) (auto simp: endpoint_def socket_later_def fun_eq_iff)

lemma server_alone_later:
  assumes "server_alone st y = Some w" and "prefix x y"
  shows "prefix (told (server_alone st x) (receiver_id st)) (told (server_alone st y) (receiver_id st)) \<and>
    (\<exists>v. server_alone st x = Some v)"
proof -
  obtain z where z: "y = x @ z" using assms(2) by (auto simp: prefix_def)
  have "serve_complete (json (libraries st)) (snd (drawn st)) (snd (clock st)) (receiver_id st)
      (given st [] z (acceptNewConnection False (Inr ()) (receiver_id st) (endpoint x) (serving st))) = Some w"
    using assms(1) unfolding server_alone_def z accepted_given .
  from serve_complete_later [OF this, of "receiver_id st"] assms(1) show ?thesis
    by (auto simp: server_alone_def told_def)
qed

text \<open>The request \<open>q\<close> is answered with \<open>u\<close>, and that is all.\<close>

definition asks :: "('e, 'c, 'd, 'j, 'ep, 'peer, 'cert) setting \<times> string \<times> bytes \<times> bytes \<Rightarrow> bool" where
  "asks p \<longleftrightarrow> (case p of (st, code, q, u) \<Rightarrow>
     prefix q (output_of (receiver_run st code [])) \<and>
     (\<exists>r a. receiver_run st code u = Some (r, a) \<and> transmitted a = q) \<and>
     (\<exists>w. server_alone st q = Some w \<and> tx (conn (srv w) (receiver_id st)) = u))"

definition asking :: "bytes \<Rightarrow> bytes \<Rightarrow> nat \<Rightarrow> link \<Rightarrow> bytes" where
  "asking q u n = (if n = 0 then both [] [] else if n = 1 then both q [] else both q u)"

lemma link_writes_mono:
  assumes "asks (st, code, q, u)" and "below X Y" and "below Y (both q u)"
  shows "below (link_writes (st, code) X) (link_writes (st, code) Y)"
proof -
  have xy: "prefix (X c) (Y c)" "prefix (Y Up) q" "prefix (Y Down) u" for c
    using assms(2,3) by (simp_all only: below_def) (simp_all add: all_links)
  obtain r a w where e: "receiver_run st code u = Some (r, a)" "server_alone st q = Some w"
    using assms(1) by (auto simp: asks_def)
  obtain ry ay where y: "receiver_run st code (Y Down) = Some (ry, ay)" using receiver_run_later [OF e(1) xy(3)] by blast
  obtain wy where wy: "server_alone st (Y Up) = Some wy" using server_alone_later [OF e(2) xy(2)] by blast
  have "prefix (output_of (receiver_run st code (X Down))) (output_of (receiver_run st code (Y Down)))"
    using receiver_run_later [OF y xy(1)] y by (auto simp: output_of_def)
  moreover have "prefix (told (server_alone st (X Up)) (receiver_id st)) (told (server_alone st (Y Up)) (receiver_id st))"
    using server_alone_later [OF wy xy(1)] by blast
  ultimately show ?thesis by (simp add: below_def all_links)
qed

interpretation request_net: byte_network asks "\<lambda>(st, code, q, u). link_writes (st, code)" "\<lambda>p X. True"
    "\<lambda>(st, code, q, u). asking q u" "\<lambda>p. 2"
proof (unfold_locales, goal_cases)
  case (1 p X Y)
  then show ?case using link_writes_mono by (cases p) (simp add: asking_def)
next
  case (2 p X X')
  then show ?case by simp
next
  case (3 p)
  then show ?case by (cases p) (simp add: asking_def fun_eq_iff all_links)
next
  case (4 p n)
  then have "n = 0 \<or> n = 1" by auto
  with 4(1) show ?case by (cases p) (auto simp: asking_def asks_def below_def all_links told_def)
next
  case (5 p n)
  then show ?case by (cases p) (auto simp: asking_def below_def all_links)
next
  case (6 p)
  then show ?case by (cases p) (auto simp: asking_def asks_def fun_eq_iff all_links told_def output_of_def)
qed

section \<open>A wrong code\<close>

lemma receiver_told:
  assumes "receiver_prepared st h" and "json_dump (json (libraries st)) (createReceiveMessage (json (libraries st)) code) = Some q"
    and "length q < 2 ^ 64" and "wire q = frame q" and "json_parse (json (libraries st)) u = None" and "length u \<le> unat BUFFER_SIZE"
  shows "receiver_run st code (frame u) = Some (Inl (DropFileReceiveException (''Error, server response: '' @ u)),
    \<lparr>left_machine = remove_all (DROP_FILE_RECEIVER_TMP_DIR h) h, printed = [], transmitted = frame q\<rparr>)"
proof -
  let ?E = "evp (libraries st)" and ?J = "json (libraries st)"
  let ?s = "\<lparr>sock = endpoint (frame u), machine = h, interaction = typed st\<rparr>"
  let ?s1 = "?s\<lparr>sock := written (frame q) (endpoint (frame u))\<rparr>"
  have 1: "download ?E ?J code ?s = download_requested ?E ?J ?s1"
    using download_parts [OF assms(2,3), of ?s] assms(4) by simp
  have "on_sock receive ?s1 = (Inr u, ?s1\<lparr>sock := (sock ?s1)\<lparr>rx := []\<rparr>\<rparr>)"
    using assms(6) by (intro on_sock_ok receive_frame) (simp_all add: written_def endpoint_def)
  then have "getServerResponse ?J ?s1 =
      (Inl (DropFileReceiveException (''Error, server response: '' @ u)), ?s1\<lparr>sock := (sock ?s1)\<lparr>rx := []\<rparr>\<rparr>)"
    using assms(5) by (simp add: getServerResponse_def andthen_def try_catch_def check_response_def)
  then show ?thesis using 1
    by (simp add: receiver_run_prepared [OF assms(1)] ReceiveClient.receiveFile_def download_requested_def andthen_Inl
        DropFileReceiveClient_destroy_def endpoint_def written_def)
qed

text \<open>
  C8. A wrong code gets nothing, on every network.  From any state the server can reach, let a receiver
  connect and give a code that no sender waits under.  Then every run of the two ends at the same place:
  the receiver has been told so and ends with the exception that quotes it, its machine has not changed but
  for its removed temporary directory; and the server is up, has finished the session and has the same
  table as before.
\<close>

theorem unknown_code_refused:
  fixes st :: "('e, 'c, 'd, 'j, 'ep, 'peer, 'cert) setting"
  assumes "initial (json (libraries st)) text w0" and "(server_step (json (libraries st)) T)\<^sup>*\<^sup>* w0 (serving st)"
    and "\<not> down (serving st)" and "phase_of (serving st) (receiver_id st) = Unused"
    and "manager (srv (serving st)) = Some m" and "sessions m code = None" and "text code"
    and "json_dump (json (libraries st)) (createReceiveMessage (json (libraries st)) code) = Some q" and "length q \<le> 1000"
    and "json_parse (json (libraries st)) ''Unknown session code.'' = None"
    and "DropFileReceiveClient_init \<lparr>sock = endpoint [], machine = receives_at st, interaction = typed st\<rparr> = (Inr (), r)"
  shows "\<exists>fin b w. (\<forall>n X. (arrives (link_writes (st, code)) ^^ n) (\<lambda>_. []) X \<longrightarrow> below X fin \<and> n \<le> bytes_in fin \<and>
      ((\<nexists>X'. arrives (link_writes (st, code)) X X') \<longleftrightarrow> X = fin)) \<and>
    receiver_run st code (fin Down) = Some (Inl (DropFileReceiveException ''Error, server response: Unknown session code.''), b) \<and>
    left_machine b = remove_all (DROP_FILE_RECEIVER_TMP_DIR (machine r)) (machine r) \<and>
    server_alone st (fin Up) = Some w \<and> \<not> down w \<and> phase_of w (receiver_id st) = Finished \<and>
    manager (srv w) = Some m"
proof -
  let ?J = "json (libraries st)" and ?b = "receiver_id st" and ?u = "''Unknown session code.''"
  have wok: "world_ok ?J text (serving st)" using sessions_run.reachable_inv [OF assms(1,2)] .
  then have laws: "json_laws ?J text" and mok: "manager_ok m" and idle: "\<not> waits m ?b"
    using assms(4,5) by (auto simp: world_ok_code server_ok_def)
  obtain q' where "json_dump ?J (createReceiveMessage ?J code) = Some q'" "q' \<noteq> []"
    "create ?J q' = Inr (createReceiveMessage ?J code)" using createReceiveMessage_dump [OF laws assms(7)] by blast
  then have q: "q \<noteq> []" "create ?J q = Inr (createReceiveMessage ?J code)" using assms(8) by simp_all
  then have wq: "wire q = frame q" "length q < 2 ^ 64" using assms(9) by (simp_all add: wire_message)
  have "length ?u \<le> unat BUFFER_SIZE" by (simp add: BUFFER_SIZE_def)
  note told = receiver_told [OF receiver_prepared_init [OF assms(11)] assms(8) wq(2,1) assms(10) this]
  note rq = receiver_requests [OF receiver_prepared_init [OF assms(11)] assms(8) wq(2,1) told]
  let ?w = "acceptNewConnection False (Inr ()) ?b (endpoint (frame q)) (serving st)"
  have a: "manager (srv ?w) = Some m" "rx (conn (srv ?w) ?b) = frame q @ []" "writable (conn (srv ?w) ?b)" "\<not> down ?w"
    "phase_of ?w ?b = Reading" "tx (conn (srv ?w) ?b) = []"
    using assms(3,5) by (simp_all add: acceptNewConnection_def endpoint_def writable_def)
  obtain s' where s': "first_read ?J (snd (drawn st)) (snd (clock st)) ?b (srv ?w) = Some (Inr (), s')" "tx (conn s' ?b) = frame ?u"
    "manager s' = Some m"
    using server_refuses [OF a(1) mok a(2) assms(9) q(2) createReceiveMessage_valid [OF laws] assms(6) a(3)] a(1,6) by fastforce
  define w where "w = ?w\<lparr>srv := s', phase_of := settle (Some m) {?b} (phase_of ?w), down := False\<rparr>"
  have "first_read_ready (rx (conn (srv ?w) ?b))" unfolding a(2) by (rule first_read_ready_text [OF assms(9)])
  then have w: "server_alone st (frame q) = Some w"
    using a(4,5) s'(1,3) by (simp add: server_alone_def serve_complete_def serveFirstRead_def w_def)
  have ws: "tx (conn (srv w) ?b) = frame ?u" "\<not> down w" "manager (srv w) = Some m" "phase_of w ?b = Finished"
    using s'(2,3) idle by (simp_all add: w_def settle_def holds_session_waits [OF mok])
  have "asks (st, code, frame q, frame ?u)" using rq told w ws(1) by (simp add: asks_def)
  from request_net.runs_complete [OF this]
  have "\<forall>n X. (arrives (link_writes (st, code)) ^^ n) (\<lambda>_. []) X \<longrightarrow> below X (both (frame q) (frame ?u)) \<and>
      n \<le> bytes_in (both (frame q) (frame ?u)) \<and>
      ((\<nexists>X'. arrives (link_writes (st, code)) X X') \<longleftrightarrow> X = both (frame q) (frame ?u))"
    by (simp add: asking_def)
  then show ?thesis using told w ws(2-4) by (intro exI [of _ "both (frame q) (frame ?u)"] exI [of _ w] exI) (auto simp del: length_frame)
qed

theorem unknown_code_refused_witness:
  "\<exists>fin b. receiver_run (sample_setting Utils.sample_host ''f'') ''no'' (fin Down) =
      Some (Inl (DropFileReceiveException ''Error, server response: Unknown session code.''), b) \<and>
     left_machine b = remove_all (DROP_FILE_RECEIVER_TMP_DIR receiving_host) receiving_host"
proof -
  let ?st = "sample_setting Utils.sample_host ''f''" and ?q = "put_flat (createReceiveMessage flat_json ''no'')"
  have q: "json_dump flat_json (createReceiveMessage flat_json ''no'') = Some ?q" "length ?q \<le> 1000"
    by (simp_all add: createReceiveMessage_def key_defs put_text_def)
  have none: "json_parse flat_json ''Unknown session code.'' = None" by code_simp
  have w: "manager (srv sample_world) = Some empty_manager" "\<not> down sample_world" "phase_of sample_world i = Unused"
    "sessions empty_manager ''no'' = None" for i
    by (simp_all add: sample_world_def sessions_def) (simp add: empty_manager_def)
  show ?thesis
    using unknown_code_refused [of ?st "\<lambda>_. True" sample_world 120 empty_manager "''no''" ?q
        "\<lparr>sock = endpoint [], machine = receiving_host, interaction = ''y''\<rparr>"] sample_world_initial visitor_init w q none
    by simp blast
qed

end
